(* ===== verification/Prelude.thy ===== *)
theory Prelude
  imports Main "HOL-Library.Word"
begin

text \<open>
  Shared vocabulary of the development: the machine types of the C and C++ sources,
  the byte-order conversions that reinterpreting casts and \<open>memcpy\<close> perform on a
  little-endian machine, the named collections that carry the component proofs, and the
  generic facts on words and lists that more than one component uses.
\<close>

unbundle bit_operations_syntax

section \<open>Machine types\<close>

type_synonym byte = "8 word"
type_synonym u8 = "8 word"
type_synonym u32 = "32 word"
type_synonym u64 = "64 word"
type_synonym size_t = "64 word"

text \<open>\<open>std::string\<close> used as a byte buffer, and \<open>blobdata\<close>.\<close>

type_synonym blob = "byte list"

named_theorems word_nat \<open>transfer of word operations to natural numbers\<close>
named_theorems wf_intros \<open>preservation of the components' invariants\<close>

section \<open>Words and natural numbers\<close>

lemma unat_drop_bit [word_nat]: "unat (drop_bit n (w :: 'a::len word)) = unat w div 2 ^ n"
  by (subst unat_drop_bit_eq) (rule drop_bit_eq_div)

lemma unat_and_mask [word_nat]:
  "unat ((w :: 'a::len word) AND mask n) = unat w mod 2 ^ n"
  unfolding take_bit_eq_mask [symmetric] unsigned_take_bit_eq by (rule take_bit_eq_mod)

lemma unat_lt_size: "unat (w :: 'a::len word) < 2 ^ LENGTH('a)"
  by (rule unsigned_less)

lemma unat_u64_lt [simp]: "unat (w :: u64) < 18446744073709551616"
  using unat_lt_size [of w] by simp

lemma unat_u32_lt [simp]: "unat (w :: u32) < 4294967296"
  using unat_lt_size [of w] by simp

lemma unat_byte_lt [simp]: "unat (w :: byte) < 256"
  using unat_lt_size [of w] by simp

lemma unat_add_no_wrap:
  "unat (a :: 'a::len word) + unat b < 2 ^ LENGTH('a) \<Longrightarrow> unat (a + b) = unat a + unat b"
  by (simp add: unat_word_ariths)

lemma unat_mult_no_wrap:
  "unat (a :: 'a::len word) * unat b < 2 ^ LENGTH('a) \<Longrightarrow> unat (a * b) = unat a * unat b"
  by (simp add: unat_word_ariths)

text \<open>The carry test \<open>a + b < a\<close> that the sources use on unsigned words.\<close>

lemma unat_add_wrap:
  assumes "2 ^ LENGTH('a) \<le> unat (a :: 'a::len word) + unat b"
  shows "unat (a + b) = unat a + unat b - 2 ^ LENGTH('a)"
proof -
  let ?M = "2 ^ LENGTH('a) :: nat"
  have "unat a < ?M" "unat b < ?M" by (rule unat_lt_size)+
  with assms have "unat a + unat b - ?M < ?M" by linarith
  moreover have "(unat a + unat b) mod ?M = (unat a + unat b - ?M) mod ?M"
    using assms by (simp add: le_mod_geq)
  ultimately show ?thesis by (simp only: unat_word_ariths mod_less)
qed

lemma carry_iff: "(a :: 'a::len word) + b < a \<longleftrightarrow> 2 ^ LENGTH('a) \<le> unat a + unat b"
proof (cases "unat a + unat b < 2 ^ LENGTH('a)")
  case True
  then show ?thesis by (simp only: word_less_nat_alt unat_add_no_wrap) linarith
next
  case False
  then have "unat (a + b) = unat a + unat b - 2 ^ LENGTH('a)"
    by (intro unat_add_wrap) simp
  with False unat_lt_size [of b] show ?thesis
    unfolding word_less_nat_alt by linarith
qed

text \<open>Setting fresh high bits of a word adds their value.\<close>

lemma unat_or_disjoint:
  fixes x y :: "'a::len word"
  assumes "unat x < 2 ^ n"
  shows "unat (x OR push_bit n y) = unat x + unat (push_bit n y)"
proof -
  have "x AND push_bit n y = 0"
  proof (rule bit_word_eqI)
    fix i assume "i < LENGTH('a)"
    have "\<not> bit x i" if "n \<le> i"
    proof -
      have "unat x < 2 ^ i" using assms that
        by (meson less_le_trans one_le_numeral power_increasing)
      then have "\<not> bit (unat x) i" by (simp add: bit_iff_odd)
      with \<open>i < LENGTH('a)\<close> show ?thesis by (simp add: bit_unsigned_iff)
    qed
    then show "bit (x AND push_bit n y) i = bit (0 :: 'a word) i"
      by (auto simp: bit_simps)
  qed
  then have "unat x AND unat (push_bit n y) = 0"
    by (simp flip: unsigned_and_eq)
  then show ?thesis
    by (simp add: unsigned_or_eq disjunctive_add_eq_or)
qed

lemma unat_push_bit_small:
  assumes "unat (x :: 'a::len word) * 2 ^ n < 2 ^ LENGTH('a)"
  shows "unat (push_bit n x) = unat x * 2 ^ n"
proof -
  have "unat (push_bit n x) = take_bit LENGTH('a) (push_bit n (unat x))"
    by (rule unsigned_push_bit_eq)
  with assms show ?thesis by (simp add: push_bit_eq_mult [of n "unat x"] take_bit_nat_eq_self)
qed

lemma unat_ucast_small:
  assumes "unat (x :: 'a::len word) < 2 ^ LENGTH('b)"
  shows "unat (ucast x :: 'b::len word) = unat x"
  using assms unfolding unsigned_ucast_eq by (simp add: take_bit_nat_eq_self)

section \<open>Little-endian memory\<close>

text \<open>
  The bytes of an unsigned integer as they lie in memory, and back: what a cast between
  \<open>uint8_t *\<close> and \<open>uint64_t *\<close> reads on the little-endian targets the code is built for.
\<close>

fun le_bytes :: "nat \<Rightarrow> 'a::len word \<Rightarrow> byte list" where
  "le_bytes 0 w = []"
| "le_bytes (Suc n) w = ucast w # le_bytes n (drop_bit 8 w)"

fun le_word :: "byte list \<Rightarrow> 'a::len word" where
  "le_word [] = 0"
| "le_word (b # bs) = ucast b OR push_bit 8 (le_word bs)"

lemma length_le_bytes [simp]: "length (le_bytes n w) = n"
  by (induction n arbitrary: w) auto

section \<open>Blocks of a buffer\<close>

function chunks :: "nat \<Rightarrow> 'a list \<Rightarrow> 'a list list" where
  "chunks n xs =
    (if xs = [] then [] else if n = 0 then [xs] else take n xs # chunks n (drop n xs))"
  by pat_completeness auto
termination
  by (relation "measure (\<lambda>(n, xs). length xs)") auto

declare chunks.simps [simp del]

lemma chunks_Nil [simp]: "chunks n [] = []"
  by (simp add: chunks.simps)

lemma chunks_append:
  assumes "length xs = n" "0 < n"
  shows "chunks n (xs @ ys) = xs # chunks n ys"
  using assms by (subst chunks.simps) auto

lemma chunks_single: "xs \<noteq> [] \<Longrightarrow> length xs \<le> n \<Longrightarrow> chunks n xs = [xs]"
  by (subst chunks.simps) auto

lemma concat_chunks [simp]: "concat (chunks n xs) = xs"
  by (induction n xs rule: chunks.induct) (subst chunks.simps, simp)

section \<open>Positional notation\<close>

text \<open>The \<open>m\<close> least significant digits of a number in base \<open>b\<close>, least significant first, and back.\<close>

fun digits :: "nat \<Rightarrow> nat \<Rightarrow> nat \<Rightarrow> nat list" where
  "digits b 0 n = []"
| "digits b (Suc m) n = n mod b # digits b m (n div b)"

fun undigits :: "nat \<Rightarrow> nat list \<Rightarrow> nat" where
  "undigits b [] = 0"
| "undigits b (d # ds) = d + b * undigits b ds"

lemma length_digits [simp]: "length (digits b m n) = m"
  by (induction m arbitrary: n) auto

lemma digits_less: "0 < b \<Longrightarrow> d \<in> set (digits b m n) \<Longrightarrow> d < b"
  by (induction m arbitrary: n) auto

lemma undigits_digits: "undigits b (digits b m n) = n mod b ^ m"
proof (induction m arbitrary: n)
  case (Suc m)
  have "n mod (b * b ^ m) = b * (n div b mod b ^ m) + n mod b"
    by (rule mod_mult2_eq)
  with Suc show ?case by simp
qed simp

lemma undigits_less: "(\<And>d. d \<in> set ds \<Longrightarrow> d < b) \<Longrightarrow> undigits b ds < b ^ length ds"
proof (induction ds)
  case (Cons d ds)
  then have "undigits b ds + 1 \<le> b ^ length ds" by (simp add: Suc_le_eq)
  then have "b * (undigits b ds + 1) \<le> b * b ^ length ds" by (rule mult_le_mono2)
  with Cons.prems [of d] show ?case by simp
qed simp

lemma digits_undigits: "(\<And>d. d \<in> set ds \<Longrightarrow> d < b) \<Longrightarrow> digits b (length ds) (undigits b ds) = ds"
proof (induction ds)
  case (Cons d ds)
  then have "d < b" "0 < b" by force+
  then have "(d + b * undigits b ds) div b = undigits b ds" by simp
  with Cons \<open>d < b\<close> show ?case by simp
qed simp

lemma digits_0: "digits b m 0 = replicate m 0"
  by (induction m) auto

lemma digits_snoc: "digits b (Suc m) n = digits b m n @ [n div b ^ m mod b]"
  by (induction m arbitrary: n) (auto simp: div_mult2_eq)

lemma undigits_append: "undigits b (xs @ ys) = undigits b xs + b ^ length xs * undigits b ys"
  by (induction xs) (auto simp: algebra_simps)

lemma digits_append: "digits b (m + k) n = digits b m n @ digits b k (n div b ^ m)"
  by (induction m arbitrary: n) (auto simp: div_mult2_eq)

text \<open>The bytes of a word are its digits in base 256.\<close>

lemma unat_ucast_byte: "unat (ucast (i :: 'a::len word) :: byte) = unat i mod 256"
  unfolding unsigned_ucast_eq by (simp add: take_bit_eq_mod)

lemma map_unat_le_bytes: "map unat (le_bytes n w) = digits 256 n (unat w)"
  by (induction n arbitrary: w) (simp_all add: unat_ucast_byte unat_drop_bit)

lemma map_unat_inject: "map unat xs = map unat ys \<longleftrightarrow> xs = (ys :: 'a::len word list)"
  by (rule inj_map_eq_map) (simp add: inj_def word_unat_eq_iff)

end
