(* ===== verification/Int_Util.thy ===== *)
theory Int_Util
  imports Prelude
begin

text \<open>
  The integer helpers of \<open>src/common/int-util.h\<close>: rotations, the 64 by 64 bit
  multiplication on 32-bit halves, the 128 by 32 bit long division, and the byte swaps.
  The lemmas show that each computes the mathematical operation it stands for.
\<close>

section \<open>Definitions\<close>

definition rol32 :: "u32 \<Rightarrow> int \<Rightarrow> u32" where
  "rol32 x r = push_bit (nat (r mod 32)) x OR drop_bit (nat ((- r) mod 32)) x"

definition rol64 :: "u64 \<Rightarrow> int \<Rightarrow> u64" where
  "rol64 x r = push_bit (nat (r mod 64)) x OR drop_bit (nat ((- r) mod 64)) x"

definition hi_dword :: "u64 \<Rightarrow> u64" where
  "hi_dword val = drop_bit 32 val"

definition lo_dword :: "u64 \<Rightarrow> u64" where
  "lo_dword val = val AND 0xFFFFFFFF"

text \<open>\<open>mul128\<close> returns \<open>product_lo\<close>; the out parameter \<open>product_hi\<close> is the second component.\<close>

definition mul128 :: "u64 \<Rightarrow> u64 \<Rightarrow> u64 \<times> u64" where
  "mul128 multiplier multiplicand =
    (let a = hi_dword multiplier;
         b = lo_dword multiplier;
         c = hi_dword multiplicand;
         d = lo_dword multiplicand;
         ac = a * c;
         ad = a * d;
         bc = b * c;
         bd = b * d;
         adbc = ad + bc;
         adbc_carry = (if adbc < ad then 1 else 0);
         product_lo = bd + push_bit 32 adbc;
         product_lo_carry = (if product_lo < bd then 1 else 0);
         product_hi = ac + drop_bit 32 adbc + push_bit 32 adbc_carry + product_lo_carry
     in (product_lo, product_hi))"

text \<open>The in-out parameter \<open>remainder\<close> is passed in and returned as the second component.\<close>

definition div_with_reminder :: "u64 \<Rightarrow> u32 \<Rightarrow> u32 \<Rightarrow> u64 \<times> u32" where
  "div_with_reminder dividend divisor remainder =
    (let dividend = dividend OR push_bit 32 (ucast remainder)
     in (dividend div ucast divisor, ucast (dividend mod ucast divisor)))"

text \<open>Returns \<open>(remainder, quotient_hi, quotient_lo)\<close>.\<close>

definition div128_32 :: "u64 \<Rightarrow> u64 \<Rightarrow> u32 \<Rightarrow> u32 \<times> u64 \<times> u64" where
  "div128_32 dividend_hi dividend_lo divisor =
    (let d3 = hi_dword dividend_hi;
         d2 = lo_dword dividend_hi;
         d1 = hi_dword dividend_lo;
         d0 = lo_dword dividend_lo;
         (q3, remainder) = div_with_reminder d3 divisor 0;
         (q2, remainder) = div_with_reminder d2 divisor remainder;
         (q1, remainder) = div_with_reminder d1 divisor remainder;
         (q0, remainder) = div_with_reminder d0 divisor remainder
     in (remainder, push_bit 32 q3 OR q2, push_bit 32 q1 OR q0))"

definition swap32 :: "u32 \<Rightarrow> u32" where
  "swap32 x =
    (let x = push_bit 8 (x AND 0x00ff00ff) OR drop_bit 8 (x AND 0xff00ff00)
     in push_bit 16 x OR drop_bit 16 x)"

definition swap64 :: "u64 \<Rightarrow> u64" where
  "swap64 x =
    (let x = push_bit 8 (x AND 0x00ff00ff00ff00ff) OR drop_bit 8 (x AND 0xff00ff00ff00ff00);
         x = push_bit 16 (x AND 0x0000ffff0000ffff) OR drop_bit 16 (x AND 0xffff0000ffff0000)
     in push_bit 32 x OR drop_bit 32 x)"

definition SWAP64 :: "u64 \<Rightarrow> u64" where
  "SWAP64 x =
    push_bit 56 (x AND 0x00000000000000ff) OR
    push_bit 40 (x AND 0x000000000000ff00) OR
    push_bit 24 (x AND 0x0000000000ff0000) OR
    push_bit 8 (x AND 0x00000000ff000000) OR
    drop_bit 8 (x AND 0x000000ff00000000) OR
    drop_bit 24 (x AND 0x0000ff0000000000) OR
    drop_bit 40 (x AND 0x00ff000000000000) OR
    drop_bit 56 (x AND 0xff00000000000000)"

section \<open>Multiplication\<close>

lemma unat_hi_dword: "unat (hi_dword x) = unat x div 2 ^ 32"
  by (simp add: hi_dword_def word_nat)

lemma lo_dword_mask: "lo_dword x = x AND mask 32"
  by (simp add: lo_dword_def mask_eq_exp_minus_1)

lemma unat_lo_dword: "unat (lo_dword x) = unat x mod 2 ^ 32"
  by (simp add: lo_dword_mask unat_and_mask)

lemma unat_push_bit_32: "unat (push_bit 32 (x :: u64)) = (unat x mod 2 ^ 32) * 2 ^ 32"
proof -
  have "unat (push_bit 32 x) = (unat x * 2 ^ 32) mod (2 ^ 32 * 2 ^ 32)"
    by (simp add: push_bit_eq_mult unat_word_ariths)
  also have "\<dots> = (unat x mod 2 ^ 32) * 2 ^ 32"
    by (rule mod_mult_mult2)
  finally show ?thesis .
qed

text \<open>The schoolbook identity on halves, with both carries written out.\<close>

lemma half_product:
  fixes a b c d :: nat
  shows "(a * B + b) * (c * B + d) = a * c * B * B + (a * d + b * c) * B + b * d"
  by (simp add: algebra_simps)

lemma half_product_le:
  fixes x y :: nat
  assumes "x < B" "y < B"
  shows "x * y \<le> (B - 1) * (B - 1)"
  using assms by (intro mult_le_mono) auto

lemma carry_word:
  fixes x y :: u64
  shows "\<exists>k. unat (if x + y < x then 1 else (0 :: u64)) = k \<and> unat x + unat y = k * 2 ^ 64 + unat (x + y)"
proof (cases "x + y < x")
  case True
  then have "2 ^ 64 \<le> unat x + unat y" by (simp add: carry_iff)
  with True show ?thesis by (simp add: unat_add_wrap)
next
  case False
  then have "unat x + unat y < 2 ^ 64" by (simp add: carry_iff)
  with False show ?thesis by (simp add: unat_add_no_wrap)
qed

lemma unat_half_mult:
  fixes x y :: u64
  assumes "unat x < 2 ^ 32" "unat y < 2 ^ 32"
  shows "unat (x * y) = unat x * unat y"
proof (rule unat_mult_no_wrap)
  have "unat x * unat y \<le> (2 ^ 32 - 1) * (2 ^ 32 - 1)"
    using assms by (rule half_product_le)
  then show "unat x * unat y < 2 ^ LENGTH(64)" by simp
qed

lemma mul128_correct:
  assumes "mul128 x y = (lo, hi)"
  shows "unat hi * 2 ^ 64 + unat lo = unat x * unat y"
proof -
  define a b c d where "a = hi_dword x" and "b = lo_dword x" and "c = hi_dword y" and "d = lo_dword y"
  define s where "s = a * d + b * c"
  have halves: "unat a < 2 ^ 32" "unat b < 2 ^ 32" "unat c < 2 ^ 32" "unat d < 2 ^ 32"
    using unat_u64_lt [of x] unat_u64_lt [of y]
    by (simp_all add: a_def b_def c_def d_def unat_hi_dword unat_lo_dword less_mult_imp_div_less)
  have prods: "unat (a * d) = unat a * unat d" "unat (b * c) = unat b * unat c"
    "unat (b * d) = unat b * unat d" "unat (a * c) = unat a * unat c"
    using halves by (auto intro: unat_half_mult)
  have x: "unat x = unat a * 2 ^ 32 + unat b" and y: "unat y = unat c * 2 ^ 32 + unat d"
    by (simp_all only: a_def b_def c_def d_def unat_hi_dword unat_lo_dword div_mult_mod_eq)
  obtain k where k: "unat (if s < a * d then 1 else (0 :: u64)) = k"
    and s: "unat a * unat d + unat b * unat c = k * 2 ^ 64 + unat s"
    using carry_word [of "a * d" "b * c"] by (auto simp: s_def prods)
  define l where "l = b * d + push_bit 32 s"
  obtain m where m: "unat (if l < b * d then 1 else (0 :: u64)) = m"
    and l: "unat b * unat d + (unat s mod 2 ^ 32) * 2 ^ 32 = m * 2 ^ 64 + unat l"
    using carry_word [of "b * d" "push_bit 32 s"] by (auto simp: l_def prods unat_push_bit_32)
  have "mul128 x y = (l, a * c + drop_bit 32 s + push_bit 32 (if s < a * d then 1 else 0)
                + (if l < b * d then 1 else 0))"
    by (simp only: mul128_def Let_def a_def b_def c_def d_def s_def l_def)
  with assms have lo: "lo = l"
    and hi: "hi = a * c + drop_bit 32 s + push_bit 32 (if s < a * d then 1 else 0)
                + (if l < b * d then 1 else 0)"
    by (metis prod.inject)+
  have k1: "k \<le> 1" using k by (auto split: if_splits)
  then have k32: "unat (push_bit 32 (if s < a * d then 1 else (0 :: u64))) = k * 2 ^ 32"
    unfolding unat_push_bit_32 k by simp
  define sh sl where "sh = unat s div 2 ^ 32" and "sl = unat s mod 2 ^ 32"
  define t where "t = unat a * unat c + sh + k * 2 ^ 32 + m"
  have "unat x * unat y = unat a * unat c * 2 ^ 64 + (unat a * unat d + unat b * unat c) * 2 ^ 32
      + unat b * unat d"
    unfolding x y half_product by simp
  moreover have "unat s = sh * 2 ^ 32 + sl"
    by (simp only: sh_def sl_def div_mult_mod_eq)
  moreover note l [folded sl_def]
  ultimately have t: "t * 2 ^ 64 + unat l = unat x * unat y"
    unfolding t_def s by (simp add: algebra_simps)
  have "unat x * unat y < 2 ^ 64 * 2 ^ 64"
    by (rule mult_strict_mono) simp_all
  with t have "t * 2 ^ 64 < 2 ^ 64 * 2 ^ 64" by (simp only: flip: t)
  then have "t < 2 ^ 64" by simp
  moreover have "hi = of_nat t"
    unfolding hi t_def sh_def of_nat_add prods(4) [symmetric] k32 [symmetric] m [symmetric]
      unat_drop_bit [symmetric] by simp
  ultimately have "unat hi = t" by (simp add: unat_of_nat)
  with t lo show ?thesis by simp
qed

section \<open>Long division\<close>

lemma unat_ucast_32_64: "unat (ucast (x :: u32) :: u64) = unat x"
proof -
  have "unat x < 2 ^ 64" by (rule order.strict_trans [OF unat_u32_lt]) simp
  then show ?thesis by (simp add: unsigned_ucast_eq take_bit_nat_eq_self)
qed

lemma div_with_reminder_correct:
  assumes d: "unat dividend < 2 ^ 32" and "divisor \<noteq> 0"
    and r: "rem < divisor"
    and "div_with_reminder dividend divisor rem = (q, r)"
  shows "unat rem * 2 ^ 32 + unat dividend = unat q * unat divisor + unat r"
    and "r < divisor" and "unat q < 2 ^ 32"
proof -
  define D :: u64 where "D = dividend OR push_bit 32 (ucast rem)"
  have D: "unat D = unat rem * 2 ^ 32 + unat dividend"
    unfolding D_def using d by (subst unat_or_disjoint) (simp_all add: unat_push_bit_32 unat_ucast_32_64)
  have pos: "0 < unat divisor" using assms(2) by (simp add: unat_gt_0)
  have q: "q = D div ucast divisor" and rr: "r = ucast (D mod ucast divisor)"
    using assms(4) by (simp_all add: div_with_reminder_def D_def Let_def)
  have qn: "unat q = unat D div unat divisor"
    by (simp add: q unat_div unat_ucast_32_64)
  have "unat D mod unat divisor < 2 ^ 32"
    using pos unat_u32_lt [of divisor] by (simp add: order.strict_trans [OF mod_less_divisor])
  moreover have "unat (D mod ucast divisor) = unat D mod unat divisor"
    by (simp only: unat_mod unat_ucast_32_64)
  ultimately have rn: "unat r = unat D mod unat divisor"
    unfolding rr unsigned_ucast_eq by (simp add: take_bit_nat_eq_self)
  show "unat rem * 2 ^ 32 + unat dividend = unat q * unat divisor + unat r"
    by (simp only: D [symmetric] qn rn div_mult_mod_eq)
  show "r < divisor" using pos by (simp add: word_less_nat_alt rn)
  have "unat D < unat divisor * 2 ^ 32"
  proof -
    have "(unat rem + 1) * 2 ^ 32 \<le> unat divisor * 2 ^ 32"
      using r by (intro mult_le_mono1) (simp add: word_less_nat_alt)
    then show ?thesis using D d by simp
  qed
  then show "unat q < 2 ^ 32"
    by (simp add: qn less_mult_imp_div_less mult.commute)
qed

lemma div128_32_correct:
  assumes "divisor \<noteq> 0" and "div128_32 hi lo divisor = (r, qhi, qlo)"
  shows "unat hi * 2 ^ 64 + unat lo = (unat qhi * 2 ^ 64 + unat qlo) * unat divisor + unat r \<and> r < divisor"
proof -
  have small: "unat (hi_dword x) < 2 ^ 32" "unat (lo_dword x) < 2 ^ 32"
     and split: "unat x = unat (hi_dword x) * 2 ^ 32 + unat (lo_dword x)" for x
    using unat_u64_lt [of x] by (simp_all add: unat_hi_dword unat_lo_dword less_mult_imp_div_less)
  have pos: "0 < divisor" using assms(1) by (simp add: word_neq_0_conv)
  obtain q3 r3 where 3: "div_with_reminder (hi_dword hi) divisor 0 = (q3, r3)" by fastforce
  obtain q2 r2 where 2: "div_with_reminder (lo_dword hi) divisor r3 = (q2, r2)" by fastforce
  obtain q1 r1 where 1: "div_with_reminder (hi_dword lo) divisor r2 = (q1, r1)" by fastforce
  obtain q0 r0 where 0: "div_with_reminder (lo_dword lo) divisor r1 = (q0, r0)" by fastforce
  note c3 = div_with_reminder_correct [OF small(1) assms(1) pos 3]
  note c2 = div_with_reminder_correct [OF small(2) assms(1) c3(2) 2]
  note c1 = div_with_reminder_correct [OF small(1) assms(1) c2(2) 1]
  note c0 = div_with_reminder_correct [OF small(2) assms(1) c1(2) 0]
  have res: "r = r0" "qhi = q2 OR push_bit 32 q3" "qlo = q0 OR push_bit 32 q1"
    using assms(2) by (simp_all add: div128_32_def 0 1 2 3 or.commute)
  have "unat qhi = unat q3 * 2 ^ 32 + unat q2" "unat qlo = unat q1 * 2 ^ 32 + unat q0"
    using c3(3) c2(3) c1(3) c0(3) by (simp_all add: res unat_or_disjoint unat_push_bit_32)
  then show ?thesis
    using c3(1) c2(1) c1(1) c0(1,2) split [of hi] split [of lo]
    by (simp add: res algebra_simps)
qed

section \<open>Byte swaps and rotations\<close>

lemma swap_masks:
  "0x00ff00ff00ff00ff = mask 8 OR push_bit 16 (mask 8) OR push_bit 32 (mask 8) OR push_bit 48 (mask 8 :: u64)"
  "0xff00ff00ff00ff00 = push_bit 8 (mask 8) OR push_bit 24 (mask 8) OR push_bit 40 (mask 8) OR push_bit 56 (mask 8 :: u64)"
  "0x0000ffff0000ffff = mask 16 OR push_bit 32 (mask 16 :: u64)"
  "0xffff0000ffff0000 = push_bit 16 (mask 16) OR push_bit 48 (mask 16 :: u64)"
  by (simp_all add: mask_eq_exp_minus_1 push_bit_eq_mult)

lemma byte_masks:
  "0x00000000000000ff = (mask 8 :: u64)"
  "0x000000000000ff00 = push_bit 8 (mask 8 :: u64)"
  "0x0000000000ff0000 = push_bit 16 (mask 8 :: u64)"
  "0x00000000ff000000 = push_bit 24 (mask 8 :: u64)"
  "0x000000ff00000000 = push_bit 32 (mask 8 :: u64)"
  "0x0000ff0000000000 = push_bit 40 (mask 8 :: u64)"
  "0x00ff000000000000 = push_bit 48 (mask 8 :: u64)"
  "0xff00000000000000 = push_bit 56 (mask 8 :: u64)"
  by (simp_all add: mask_eq_exp_minus_1 push_bit_eq_mult)

lemma less_8_cases: "q < (8::nat) \<Longrightarrow> q = 0 \<or> q = 1 \<or> q = 2 \<or> q = 3 \<or> q = 4 \<or> q = 5 \<or> q = 6 \<or> q = 7"
  by linarith

lemma bit_SWAP64:
  "q < 8 \<Longrightarrow> r < 8 \<Longrightarrow> bit (SWAP64 x) (8 * q + r) = bit x (8 * (7 - q) + r)"
  unfolding SWAP64_def byte_masks by (drule less_8_cases, elim disjE; simp add: bit_simps)

lemma bit_swap64:
  "q < 8 \<Longrightarrow> r < 8 \<Longrightarrow> bit (swap64 x) (8 * q + r) = bit x (8 * (7 - q) + r)"
  unfolding swap64_def Let_def swap_masks by (drule less_8_cases, elim disjE; simp add: bit_simps)

lemma u64_byte_eqI:
  assumes "\<And>q r. q < 8 \<Longrightarrow> r < 8 \<Longrightarrow> bit (x :: u64) (8 * q + r) = bit y (8 * q + r)"
  shows "x = y"
proof (rule bit_word_eqI)
  fix i assume "i < LENGTH(64)"
  then show "bit x i = bit y i" using assms [of "i div 8" "i mod 8"] by simp
qed

lemma SWAP64_eq_swap64: "SWAP64 x = swap64 x"
  by (rule u64_byte_eqI) (simp add: bit_SWAP64 bit_swap64)

lemma swap64_swap64: "swap64 (swap64 x) = x"
  by (rule u64_byte_eqI) (simp add: bit_swap64)

lemma rol64_rotl: "rol64 x (int n) = word_rotl n x"
proof (rule bit_word_eqI)
  fix i assume i: "i < LENGTH(64)"
  show "bit (rol64 x (int n)) i = bit (word_rotl n x) i"
  proof (cases "n mod 64 = 0")
    case True
    then have "int n mod 64 = 0" "- int n mod 64 = 0" by presburger+
    with True i show ?thesis by (simp add: rol64_def bit_simps)
  next
    case False
    have m: "int n mod 64 = int (n mod 64)" by (simp add: zmod_int)
    then have "- int n mod 64 = 64 - int (n mod 64)"
      using False by (simp add: zmod_zminus1_eq_if)
    with m have "nat (int n mod 64) = n mod 64" "nat (- int n mod 64) = 64 - n mod 64"
      by (simp_all add: nat_diff_distrib)
    moreover have "(i + 64 - n mod 64) mod 64 = (if n mod 64 \<le> i then i - n mod 64 else i + 64 - n mod 64)"
    proof (cases "n mod 64 \<le> i")
      case True
      then have "i + 64 - n mod 64 = (i - n mod 64) + 64" by simp
      with True i show ?thesis by (simp only: mod_add_self2) simp
    qed (use i False in simp)
    moreover have "\<not> bit x (64 + i - n mod 64)" if "n mod 64 \<le> i"
      using that by (auto dest: bit_imp_le_length)
    ultimately show ?thesis using False i
      by (cases "n mod 64 \<le> i") (simp_all add: rol64_def bit_simps add.commute [of i 64])
  qed
qed

section \<open>Properties\<close>

text \<open>The 64 by 64 bit product is exact: the two words returned are the low and the high half of
the 128-bit product, for all inputs.\<close>

lemma mul128_exact:
  "case mul128 x y of (lo, hi) \<Rightarrow> unat hi * 2 ^ 64 + unat lo = unat x * unat y"
  using mul128_correct [of x y] by (cases "mul128 x y") simp

text \<open>Dividing a 128-bit number by a 32-bit divisor gives the exact quotient and a remainder
below the divisor, for every divisor but zero.\<close>

lemma div128_32_exact:
  assumes "divisor \<noteq> 0"
  shows "case div128_32 hi lo divisor of (r, qhi, qlo) \<Rightarrow>
    unat hi * 2 ^ 64 + unat lo = (unat qhi * 2 ^ 64 + unat qlo) * unat divisor + unat r \<and> r < divisor"
  using div128_32_correct [OF assms] by (auto split: prod.split)

lemma div128_32_exact_witness:
  "case div128_32 7 9 1000 of (r, qhi, qlo) \<Rightarrow>
    (7 :: nat) * 2 ^ 64 + 9 = (unat qhi * 2 ^ 64 + unat qlo) * 1000 + unat r \<and> r < 1000"
  using div128_32_exact [of 1000 7 9] by simp

end
