(* ===== verification/Codec.thy ===== *)
theory Codec
  imports Prelude "HOL-Library.Sublist"
begin

text \<open>
  The contracts of the encoders of the program. A \<open>codec\<close> is a writer with a reader that
  undoes it; a \<open>canonical_codec\<close> has in addition a reader that accepts nothing but what the
  writer produces; a \<open>codec_partial\<close> has a writer that may refuse a value; a \<open>prefix_codec\<close> is a
  writer of stream elements whose reader finds the end of the element by itself. The components that encode (varints, base-58, addresses, the binary
  archive) interpret these locales on their own definitions.
\<close>

section \<open>Readers of whole buffers\<close>

locale codec =
  fixes enc :: "'a \<Rightarrow> 'b" and dec :: "'b \<Rightarrow> 'a option"
  assumes dec_enc: "dec (enc x) = Some x"
begin

lemma enc_eq_iff: "enc x = enc y \<longleftrightarrow> x = y"
proof
  assume "enc x = enc y"
  then have "dec (enc x) = dec (enc y)" by simp
  then show "x = y" by (simp add: dec_enc)
qed simp

lemma inj_enc: "inj enc"
  by (simp add: inj_def enc_eq_iff)

end

locale canonical_codec = codec +
  assumes dec_sound: "dec y = Some x \<Longrightarrow> y = enc x"
begin

lemma dec_iff: "dec y = Some x \<longleftrightarrow> y = enc x"
  using dec_enc dec_sound by auto

lemma dec_None_iff: "dec y = None \<longleftrightarrow> y \<notin> range enc"
  by (cases "dec y") (auto simp: dec_iff dec_enc)

lemma dec_inj: "dec y = Some x \<Longrightarrow> dec z = Some x \<Longrightarrow> y = z"
  by (simp add: dec_iff)

end

locale codec_partial =
  fixes enc :: "'a \<Rightarrow> 'b option" and dec :: "'b \<Rightarrow> 'a option"
  assumes dec_enc: "enc x = Some y \<Longrightarrow> dec y = Some x"
begin

lemma enc_inject: "enc x = Some z \<Longrightarrow> enc y = Some z \<Longrightarrow> x = y"
  using dec_enc [of x z] dec_enc [of y z] by simp

end

section \<open>Readers of streams\<close>

text \<open>Reads \<open>n\<close> elements one after the other.\<close>

fun get_n :: "('b list \<Rightarrow> ('a \<times> 'b list) option) \<Rightarrow> nat \<Rightarrow> 'b list \<Rightarrow> ('a list \<times> 'b list) option" where
  "get_n get 0 bs = Some ([], bs)"
| "get_n get (Suc n) bs =
    (case get bs of
       None \<Rightarrow> None
     | Some (x, bs) \<Rightarrow> map_option (\<lambda>(xs, bs). (x # xs, bs)) (get_n get n bs))"

text \<open>
  A stream element is written by a function that may refuse a value the format cannot carry.
\<close>

locale prefix_codec =
  fixes put :: "'a \<Rightarrow> 'b list option" and get :: "'b list \<Rightarrow> ('a \<times> 'b list) option"
  assumes get_put: "put x = Some bs \<Longrightarrow> get (bs @ r) = Some (x, r)"
begin

lemma put_append_inject:
  assumes "put x = Some a" "put y = Some b" "a @ r = b @ s"
  shows "x = y \<and> r = s"
proof -
  have "get (a @ r) = get (b @ s)" using assms(3) by simp
  then show ?thesis by (simp add: get_put [OF assms(1)] get_put [OF assms(2)])
qed

lemma put_prefix_free:
  assumes "put x = Some a" "put y = Some b" "prefix a b"
  shows "x = y"
proof -
  from assms(3) obtain r where "a @ r = b @ []" by (auto elim: prefixE)
  with put_append_inject [OF assms(1,2) this] show ?thesis by simp
qed

lemma get_n_put:
  "those (map put xs) = Some bss \<Longrightarrow> get_n get (length xs) (concat bss @ r) = Some (xs, r)"
proof (induction xs arbitrary: bss)
  case (Cons x xs)
  then obtain b bs where "put x = Some b" "those (map put xs) = Some bs" "bss = b # bs"
    by (auto split: option.splits)
  with Cons.IH show ?case by (simp add: get_put)
qed simp

end

sublocale prefix_codec \<subseteq> whole: codec_partial put "\<lambda>bs. map_option fst (get bs)"
  using get_put [of _ _ "[]"] by unfold_locales simp

text \<open>An element that is never empty, as the length check of a vector's reader needs.\<close>

locale nonempty_codec = prefix_codec +
  assumes put_nonempty: "put x = Some bs \<Longrightarrow> bs \<noteq> []"
begin

lemma length_put_list: "those (map put xs) = Some bss \<Longrightarrow> length xs \<le> length (concat bss)"
proof (induction xs arbitrary: bss)
  case (Cons x xs)
  then obtain b bs where *: "put x = Some b" "those (map put xs) = Some bs" "bss = b # bs"
    by (auto split: option.splits)
  with Cons.IH [of bs] put_nonempty [of x b] show ?case by (cases b) auto
qed simp

end

end
