(* ===== verification/Varint.thy ===== *)
theory Varint
  imports Codec
begin

text \<open>
  The variable-length integers of \<open>src/common/varint.h\<close>. The functions are templates over
  the unsigned type; the model is polymorphic in the width of the word in the same way.
  The lemmas give the round trip, the size bound and the canonicity of what the reader
  accepts.
\<close>

section \<open>Definitions\<close>

definition EVARINT_OVERFLOW :: int where
  "EVARINT_OVERFLOW = - 1"

definition EVARINT_REPRESENT :: int where
  "EVARINT_REPRESENT = - 2"

text \<open>The comparison \<open>i >= 0x80\<close> is made after the usual promotion, hence on the value of \<open>i\<close>.\<close>

function write_varint :: "'a::len word \<Rightarrow> byte list" where
  "write_varint i =
    (if 0x80 \<le> unat i
     then ((ucast i AND 0x7f) OR 0x80) # write_varint (drop_bit 7 i)
     else [ucast i])"
  by pat_completeness auto
termination
  by (relation "measure unat") (auto simp: word_nat)

declare write_varint.simps [simp del]

definition get_varint_data :: "'a::len word \<Rightarrow> byte list" where
  "get_varint_data v = write_varint v"

text \<open>
  The loop of \<open>read_varint<bits>\<close>: \<open>shift\<close> and \<open>read\<close> are the loop variables and \<open>w\<close> the
  out parameter \<open>write\<close>. The result is the returned code, the final \<open>write\<close> and the input
  that is left (the iterator \<open>first\<close>).
\<close>

fun read_varint_loop ::
  "nat \<Rightarrow> nat \<Rightarrow> int \<Rightarrow> 'a::len word \<Rightarrow> byte list \<Rightarrow> int \<times> 'a word \<times> byte list" where
  "read_varint_loop bits shift read w [] = (read, w, [])"
| "read_varint_loop bits shift read w (b # bs) =
    (if bits \<le> shift + 7 \<and> 2 ^ (bits - shift) \<le> unat b then (EVARINT_OVERFLOW, w, bs)
     else if b = 0 \<and> shift \<noteq> 0 then (EVARINT_REPRESENT, w, bs)
     else
       let w = w OR push_bit shift (ucast (b AND 0x7f))
       in if b AND 0x80 = 0 then (read + 1, w, bs)
          else read_varint_loop bits (shift + 7) (read + 1) w bs)"

definition read_varint_bits :: "nat \<Rightarrow> byte list \<Rightarrow> int \<times> 'a::len word \<times> byte list" where
  "read_varint_bits bits bs = read_varint_loop bits 0 0 0 bs"

definition read_varint :: "byte list \<Rightarrow> int \<times> 'a::len word \<times> byte list" where
  "read_varint bs = read_varint_bits LENGTH('a) bs"

section \<open>The bytes written\<close>

lemma and_7f: "unat ((b :: byte) AND 0x7f) = unat b mod 128"
  using unat_and_mask [of b 7] by (simp add: mask_eq_exp_minus_1)

lemma and_80: "(b :: byte) AND 0x80 = 0 \<longleftrightarrow> unat b < 128"
proof -
  have "b AND 0x80 = 0 \<longleftrightarrow> \<not> bit b 7"
    using and_exp_eq_0_iff_not_bit [of b 7] by simp
  also have "\<dots> \<longleftrightarrow> \<not> bit (unat b) 7"
    by (simp add: bit_unsigned_iff)
  also have "\<dots> \<longleftrightarrow> unat b < 128"
  proof (cases "unat b < 128")
    case False
    then have "unat b div 128 = 1"
      using unat_byte_lt [of b] by (intro div_nat_eqI) simp_all
    with False show ?thesis by (simp add: bit_iff_odd)
  qed (simp add: bit_iff_odd)
  finally show ?thesis .
qed

lemma unat_cont_byte:
  "unat ((ucast (i :: 'a::len word) AND 0x7f) OR (0x80 :: byte)) = 128 + unat (ucast i :: byte) mod 128"
proof -
  have "unat ((ucast i AND 0x7f) OR push_bit 7 (1 :: byte))
      = unat (ucast i AND (0x7f :: byte)) + unat (push_bit 7 (1 :: byte))"
    by (rule unat_or_disjoint) (simp add: and_7f)
  then show ?thesis by (simp add: and_7f)
qed

lemma write_varint_small: "unat i < 128 \<Longrightarrow> write_varint i = [ucast i]"
  by (simp add: write_varint.simps)

lemma write_varint_big:
  "128 \<le> unat i \<Longrightarrow> write_varint i = ((ucast i AND 0x7f) OR 0x80) # write_varint (drop_bit 7 i)"
  by (subst write_varint.simps) simp

section \<open>Reading back\<close>

lemma read_step_cont:
  assumes "128 \<le> unat b" "shift + 7 < bits"
  shows "read_varint_loop bits shift read w (b # bs) =
    read_varint_loop bits (shift + 7) (read + 1) (w OR push_bit shift (ucast (b AND 0x7f))) bs"
  using assms by (auto simp: and_80)

lemma read_step_last:
  assumes "unat b < 128" "b \<noteq> 0 \<or> shift = 0" "bits \<le> shift + 7 \<Longrightarrow> unat b < 2 ^ (bits - shift)"
  shows "read_varint_loop bits shift read w (b # bs) =
    (read + 1, w OR push_bit shift (ucast (b AND 0x7f)), bs)"
  using assms by (auto simp: and_80)

text \<open>The accumulator holds the low \<open>shift\<close> bits of the value being read.\<close>

lemma accumulate:
  fixes w :: "'a::len word"
  assumes w: "unat w < 2 ^ shift" and x: "unat x * 2 ^ shift < 2 ^ LENGTH('a)"
  shows "unat (w OR push_bit shift x) = unat w + unat x * 2 ^ shift"
  using unat_or_disjoint [OF w, of x] unat_push_bit_small [OF x] by simp

lemma unat_low7:
  fixes b :: byte
  assumes "unat b mod 128 < 2 ^ LENGTH('a)"
  shows "unat (ucast (b AND 0x7f) :: 'a::len word) = unat b mod 128"
  using assms by (subst unat_ucast_small) (simp_all add: and_7f)

lemma split7: "(n::nat) * 2 ^ s = (n mod 128) * 2 ^ s + n div 128 * 2 ^ (s + 7)"
proof -
  have "n * 2 ^ s = (n mod 128 + n div 128 * 128) * 2 ^ s" by simp
  also have "\<dots> = (n mod 128) * 2 ^ s + n div 128 * 2 ^ (s + 7)"
    by (simp only: add_mult_distrib power_add) simp
  finally show ?thesis .
qed

lemma roundtrip_loop:
  fixes i j w :: "'a::len word"
  assumes "unat w < 2 ^ shift" and "unat i = unat w + unat j * 2 ^ shift"
    and "j \<noteq> 0 \<or> shift = 0"
  shows "read_varint_loop LENGTH('a) shift read w (write_varint j @ rest)
       = (read + int (length (write_varint j)), i, rest)"
  using assms
proof (induction j arbitrary: shift read w rule: write_varint.induct)
  case (1 j)
  let ?L = "LENGTH('a)"
  have bound: "unat j * 2 ^ shift < 2 ^ ?L"
    using "1.prems"(2) unat_lt_size [of i] by linarith
  show ?case
  proof (cases "128 \<le> unat j")
    case True
    define b :: byte where "b = (ucast j AND 0x7f) OR 0x80"
    have b: "unat b = 128 + unat j mod 128"
      unfolding b_def unat_cont_byte unat_ucast_byte by (simp add: mod_mod_cancel)
    have "2 ^ (7 + shift) \<le> unat j * 2 ^ shift" using True by (simp add: power_add)
    with bound have "(2::nat) ^ (7 + shift) < 2 ^ ?L" by linarith
    then have lt: "shift + 7 < ?L" by (simp add: add.commute)
    have low: "unat (ucast (b AND 0x7f) :: 'a word) = unat j mod 128"
    proof -
      have "unat j mod 128 < 2 ^ ?L" 
        using unat_lt_size [of j] by (meson le_less_trans mod_less_eq_dividend)
      then show ?thesis using unat_low7 [of b, where 'a = 'a] b by simp
    qed
    let ?w = "w OR push_bit shift (ucast (b AND 0x7f))"
    have w: "unat ?w = unat w + (unat j mod 128) * 2 ^ shift"
    proof -
      have "(unat j mod 128) * 2 ^ shift \<le> unat j * 2 ^ shift" by (rule mult_le_mono1) simp
      with bound have "(unat j mod 128) * 2 ^ shift < 2 ^ ?L" by linarith
      with "1.prems"(1) show ?thesis by (subst accumulate) (simp_all add: low)
    qed
    have w_lt: "unat ?w < 2 ^ (shift + 7)"
    proof -
      have "(unat j mod 128) * 2 ^ shift \<le> 127 * 2 ^ shift"
        using mod_less_divisor [of 128 "unat j"] by (intro mult_le_mono1) simp
      moreover have "(2::nat) ^ (shift + 7) = 128 * 2 ^ shift" by (simp add: power_add)
      ultimately show ?thesis using w "1.prems"(1) by linarith
    qed
    have i: "unat i = unat ?w + unat (drop_bit 7 j) * 2 ^ (shift + 7)"
    proof -
      show ?thesis using split7 [of "unat j" shift] "1.prems"(2) w by (simp add: word_nat)
    qed
    have nz: "drop_bit 7 j \<noteq> 0" using True by (simp add: word_nat flip: unat_eq_0)
    from True lt b w_lt i nz show ?thesis
      using "1.IH" [of ?w "shift + 7" "read + 1"]
      by (simp only: write_varint_big [OF True] append_Cons b_def [symmetric] read_step_cont) simp
  next
    case False
    define b :: byte where "b = ucast j"
    from False have b: "unat b = unat j" by (simp add: b_def unat_ucast_byte)
    have shift: "shift \<le> ?L"
    proof (cases "shift = 0")
      case False
      with "1.prems"(3) have "1 * 2 ^ shift \<le> unat j * 2 ^ shift"
        by (intro mult_le_mono1) (simp add: unat_gt_0 Suc_le_eq)
      with bound have "(2::nat) ^ shift < 2 ^ ?L" by linarith
      then show ?thesis by simp
    qed simp
    then have "(2::nat) ^ ?L = 2 ^ (?L - shift) * 2 ^ shift" by (simp flip: power_add)
    with bound have fits: "unat b < 2 ^ (?L - shift)" by (simp add: b)
    have nz: "b \<noteq> 0 \<or> shift = 0"
      using "1.prems"(3) b by (metis unat_0 unat_eq_0)
    have "ucast (b AND 0x7f) = j"
      using False unat_lt_size [of j] by (intro word_unat_eq_iff [THEN iffD2]) (simp add: unat_low7 b)
    then have "unat (w OR push_bit shift (ucast (b AND 0x7f))) = unat i"
      using accumulate [OF "1.prems"(1) bound] "1.prems"(2) by simp
    then have "w OR push_bit shift (ucast (b AND 0x7f)) = i"
      by (simp only: word_unat_eq_iff)
    with False show ?thesis
      by (simp only: write_varint_small not_le b_def [symmetric] append_Cons append_Nil
            read_step_last [OF _ nz fits] b) simp
  qed
qed

section \<open>Round trip, size and canonicity\<close>

lemma varint_roundtrip:
  "read_varint (get_varint_data i @ rest) = (int (length (get_varint_data i)), i, rest)"
  unfolding read_varint_def read_varint_bits_def get_varint_data_def
  by (subst roundtrip_loop) simp_all

lemma length_write_varint:
  assumes "unat i < 2 ^ n" "0 < n"
  shows "length (write_varint i) \<le> (n + 6) div 7"
  using assms
proof (induction i arbitrary: n rule: write_varint.induct)
  case (1 i)
  show ?case
  proof (cases "128 \<le> unat i")
    case True
    with "1.prems" have "(2::nat) ^ 7 < 2 ^ n" by simp
    then have n: "7 < n" by (rule power_less_imp_less_exp [rotated]) simp
    then have "(2::nat) ^ n = 2 ^ (n - 7) * 2 ^ 7" by (simp only: power_add [symmetric]) simp
    with "1.prems"(1) have "unat (drop_bit 7 i) < 2 ^ (n - 7)"
      by (simp add: unat_drop_bit less_mult_imp_div_less)
    with "1.IH" [of "n - 7"] True n have "length (write_varint (drop_bit 7 i)) \<le> (n - 7 + 6) div 7"
      by simp
    with True n show ?thesis by (simp add: write_varint_big)
  next
    case False
    with "1.prems"(2) show ?thesis by (simp add: write_varint_small)
  qed
qed

text \<open>What the reader accepts with a terminating byte is the canonical encoding of its result.\<close>

lemma byte_hi: "128 \<le> unat (b :: byte) \<Longrightarrow> unat b div 128 = 1"
  using unat_byte_lt [of b] by (intro div_nat_eqI) simp_all

lemma read_varint_loop_ge:
  "read_varint_loop bits shift read w bs = (n, v, rest) \<Longrightarrow> 0 \<le> n \<Longrightarrow> read \<le> n"
  by (induction bits shift read w bs rule: read_varint_loop.induct)
    (auto simp: EVARINT_OVERFLOW_def EVARINT_REPRESENT_def Let_def split: if_splits)

lemma canonical_loop:
  fixes w v :: "'a::len word"
  assumes "read_varint_loop LENGTH('a) shift read w bs = (n, v, rest)"
    and "0 \<le> read" "0 \<le> n" and "unat w < 2 ^ shift" "shift < LENGTH('a)"
    and "n \<noteq> read" "unat (bs ! nat (n - read - 1)) < 128"
  shows "\<exists>j :: 'a word. bs = write_varint j @ rest \<and> n = read + int (length (write_varint j))
    \<and> unat v = unat w + unat j * 2 ^ shift \<and> (j \<noteq> 0 \<or> shift = 0)"
  using assms
proof (induction bs arbitrary: shift read w)
  case Nil
  then show ?case by simp
next
  case (Cons b bs)
  let ?L = "LENGTH('a)"
  let ?w = "w OR push_bit shift (ucast (b AND 0x7f))"
  have over: "\<not> (?L \<le> shift + 7 \<and> 2 ^ (?L - shift) \<le> unat b)" and repr: "\<not> (b = 0 \<and> shift \<noteq> 0)"
    using Cons.prems by (auto simp: EVARINT_OVERFLOW_def EVARINT_REPRESENT_def split: if_splits)
  show ?case
  proof (cases "unat b < 128")
    case True
    let ?j = "ucast b :: 'a word"
    have fits: "unat b * 2 ^ shift < 2 ^ ?L"
    proof (cases "?L \<le> shift + 7")
      case True
      with over have "unat b * 2 ^ shift < 2 ^ (?L - shift) * 2 ^ shift" by simp
      with Cons.prems(5) show ?thesis by (simp flip: power_add)
    next
      case False
      have "unat b * 2 ^ shift \<le> 2 ^ 7 * 2 ^ shift" using \<open>unat b < 128\<close> by simp
      also have "\<dots> = 2 ^ (7 + shift)" by (rule power_add [symmetric])
      also have "\<dots> < 2 ^ ?L" using False by (intro power_strict_increasing) auto
      finally show ?thesis .
    qed
    then have "unat b < 2 ^ ?L" by (rule le_less_trans [rotated]) simp
    then have j: "unat ?j = unat b" by (rule unat_ucast_small)
    have low: "ucast (b AND 0x7f) = ?j"
      using True \<open>unat b < 2 ^ ?L\<close> by (intro word_unat_eq_iff [THEN iffD2]) (simp add: unat_low7 j)
    have "n = read + 1" "v = ?w" "rest = bs"
      using Cons.prems(1) over repr True by (auto simp: and_80)
    moreover have "unat ?w = unat w + unat ?j * 2 ^ shift"
      using accumulate [OF Cons.prems(4), of ?j] fits by (simp add: low j)
    moreover have "write_varint ?j = [b]"
    proof -
      have "ucast ?j = b" by (rule word_unat_eq_iff [THEN iffD2]) (simp add: unat_ucast_byte j)
      then show ?thesis using True j by (simp add: write_varint_small)
    qed
    moreover have "?j \<noteq> 0 \<or> shift = 0"
      using repr j by (metis unat_0 unat_eq_0)
    ultimately have "b # bs = write_varint ?j @ rest \<and> n = read + int (length (write_varint ?j))
      \<and> unat v = unat w + unat ?j * 2 ^ shift \<and> (?j \<noteq> 0 \<or> shift = 0)"
      by simp
    then show ?thesis by (rule exI)
  next
    case False
    have lt: "shift + 7 < ?L"
    proof (rule ccontr)
      assume "\<not> shift + 7 < ?L"
      then have "(2::nat) ^ (?L - shift) \<le> 2 ^ 7" by (intro power_increasing) auto
      with over False \<open>\<not> shift + 7 < ?L\<close> show False by simp
    qed
    have rec: "read_varint_loop ?L (shift + 7) (read + 1) ?w bs = (n, v, rest)"
      using Cons.prems(1) False lt by (simp only: read_step_cont not_less)
    have "read + 1 \<le> n" using read_varint_loop_ge [OF rec Cons.prems(3)] .
    moreover have "n \<noteq> read + 1" using Cons.prems(7) False by auto
    ultimately have idx: "nat (n - read - 1) = Suc (nat (n - (read + 1) - 1))" by simp
    have low: "unat (ucast (b AND 0x7f) :: 'a word) = unat b mod 128"
    proof (rule unat_low7)
      have "unat b mod 128 < 2 ^ 7" by simp
      also have "(2::nat) ^ 7 \<le> 2 ^ ?L" using lt by (intro power_increasing) auto
      finally show "unat b mod 128 < 2 ^ ?L" .
    qed
    have small: "(unat b mod 128) * 2 ^ shift \<le> 127 * 2 ^ shift"
      using mod_less_divisor [of 128 "unat b"] by (intro mult_le_mono1) simp
    have pow: "(2::nat) ^ (shift + 7) = 128 * 2 ^ shift" by (simp add: power_add)
    have "(2::nat) ^ (shift + 7) < 2 ^ ?L" using lt by simp
    then have "(unat b mod 128) * 2 ^ shift < 2 ^ ?L" using small pow by linarith
    then have w: "unat ?w = unat w + (unat b mod 128) * 2 ^ shift"
      using Cons.prems(4) by (subst accumulate) (simp_all add: low)
    have w_lt: "unat ?w < 2 ^ (shift + 7)"
      using w small pow Cons.prems(4) by linarith
    have "\<exists>j :: 'a word. bs = write_varint j @ rest \<and> n = (read + 1) + int (length (write_varint j))
      \<and> unat v = unat ?w + unat j * 2 ^ (shift + 7) \<and> (j \<noteq> 0 \<or> shift + 7 = 0)"
      using Cons.prems(2,3,7) w_lt lt \<open>n \<noteq> read + 1\<close> idx
      by (intro Cons.IH [OF rec]) simp_all
    then obtain j :: "'a word" where j: "bs = write_varint j @ rest"
      "n = (read + 1) + int (length (write_varint j))" "unat v = unat ?w + unat j * 2 ^ (shift + 7)" "j \<noteq> 0"
      by auto
    define k where "k = unat b mod 128 + 128 * unat j"
    have v: "unat v = unat w + k * 2 ^ shift"
      unfolding j(3) w k_def pow by (simp add: algebra_simps)
    then have "k * 2 ^ shift < 2 ^ ?L" using unat_lt_size [of v] by linarith
    then have "k < 2 ^ ?L" by (rule le_less_trans [rotated]) simp
    then have k: "unat (of_nat k :: 'a word) = k" by (simp add: unat_of_nat)
    have "0 < unat j" using j(4) by (simp add: unat_gt_0)
    then have "128 \<le> k" unfolding k_def by simp
    then have big: "128 \<le> unat (of_nat k :: 'a word)" unfolding k .
    have "drop_bit 7 (of_nat k) = j"
      by (rule word_unat_eq_iff [THEN iffD2], unfold unat_drop_bit k) (simp add: k_def)
    moreover have "(ucast (of_nat k :: 'a word) AND 0x7f) OR 0x80 = b"
    proof (rule word_unat_eq_iff [THEN iffD2])
      have "unat b = 128 + unat b mod 128"
        using False byte_hi [of b] div_mult_mod_eq [of "unat b" 128] by simp
      then show "unat ((ucast (of_nat k :: 'a word) AND 0x7f) OR (0x80 :: byte)) = unat b"
        unfolding unat_cont_byte unat_ucast_byte k by (simp add: k_def mod_mod_cancel)
    qed
    ultimately have "write_varint (of_nat k :: 'a word) = b # write_varint j"
      using write_varint_big [OF big] by simp
    with j v k big have "b # bs = write_varint (of_nat k :: 'a word) @ rest
      \<and> n = read + int (length (write_varint (of_nat k :: 'a word)))
      \<and> unat v = unat w + unat (of_nat k :: 'a word) * 2 ^ shift
      \<and> ((of_nat k :: 'a word) \<noteq> 0 \<or> shift = 0)"
      by auto
    then show ?thesis by (rule exI)
  qed
qed

lemma read_varint_canonical:
  fixes v :: "'a::len word"
  assumes "read_varint bs = (n, v, rest)" and "0 < n" and "unat (bs ! (nat n - 1)) < 128"
  shows "bs = get_varint_data v @ rest"
proof -
  have "\<exists>j :: 'a word. bs = write_varint j @ rest \<and> n = 0 + int (length (write_varint j))
    \<and> unat v = unat (0 :: 'a word) + unat j * 2 ^ 0 \<and> (j \<noteq> 0 \<or> 0 = (0 :: nat))"
    using assms unfolding read_varint_def read_varint_bits_def
    by (intro canonical_loop) (simp_all add: nat_diff_distrib)
  then obtain j :: "'a word" where "bs = write_varint j @ rest" "unat v = unat j" by auto
  then show ?thesis by (simp add: get_varint_data_def word_unat_eq_iff [symmetric])
qed

lemma length_varint_u64: "length (get_varint_data (i :: u64)) \<le> 10"
  using length_write_varint [of i 64] by (simp add: get_varint_data_def)

text \<open>A buffer that ends inside an integer is not an error: the bytes read so far are the result.\<close>

lemma read_varint_truncated: "read_varint [0x80] = (1, 0 :: u64, [])"
  by (simp add: read_varint_def read_varint_bits_def)

lemma read_varint_loop_rest:
  assumes "read_varint_loop bits shift read w bs = (n, v, rest)" and "0 \<le> read" "0 \<le> n"
  shows "rest = drop (nat (n - read)) bs \<and> (rest \<noteq> [] \<longrightarrow> read < n \<and> unat (bs ! nat (n - read - 1)) < 128)"
  using assms
proof (induction bits shift read w bs rule: read_varint_loop.induct)
  case (2 bits shift read w b bs)
  show ?case
  proof (cases "b AND 0x80 = 0")
    case True
    with 2 show ?thesis
      by (auto simp: EVARINT_OVERFLOW_def EVARINT_REPRESENT_def and_80 split: if_splits)
  next
    case False
    with 2 have rec: "read_varint_loop bits (shift + 7) (read + 1)
        (w OR push_bit shift (ucast (b AND 0x7f))) bs = (n, v, rest)"
      by (auto simp: EVARINT_OVERFLOW_def EVARINT_REPRESENT_def Let_def split: if_splits)
    with 2 False have IH: "rest = drop (nat (n - (read + 1))) bs \<and>
        (rest \<noteq> [] \<longrightarrow> read + 1 < n \<and> unat (bs ! nat (n - (read + 1) - 1)) < 128)"
      by (auto simp: EVARINT_OVERFLOW_def EVARINT_REPRESENT_def Let_def split: if_splits)
    have "read + 1 \<le> n" using read_varint_loop_ge [OF rec] 2 by simp
    then have n: "nat (n - read) = Suc (nat (n - (read + 1)))" by simp
    show ?thesis
    proof (intro conjI impI)
      show "rest = drop (nat (n - read)) (b # bs)" using IH by (simp add: n)
      assume "rest \<noteq> []"
      with IH have "read + 1 < n" and *: "unat (bs ! nat (n - (read + 1) - 1)) < 128" by auto
      then show "read < n" by simp
      from \<open>read + 1 < n\<close> have "nat (n - read - 1) = Suc (nat (n - (read + 1) - 1))" by simp
      with * show "unat ((b # bs) ! nat (n - read - 1)) < 128" by simp
    qed
  qed
qed auto

lemma read_varint_complete:
  fixes v :: "'a::len word"
  assumes "read_varint bs = (n, v, rest)" and "0 < n" and "drop (nat n) bs \<noteq> []"
  shows "bs = get_varint_data v @ drop (nat n) bs"
proof -
  have "rest = drop (nat n) bs" "unat (bs ! (nat n - 1)) < 128"
    using read_varint_loop_rest [of "LENGTH('a)" 0 0 0 bs n v rest] assms
    by (auto simp: read_varint_def read_varint_bits_def nat_diff_distrib)
  with read_varint_canonical [OF assms(1,2)] show ?thesis by simp
qed

section \<open>The integer as a stream element\<close>

interpretation varint: prefix_codec "\<lambda>v. Some (get_varint_data v)"
  "\<lambda>bs. case read_varint bs of (n, v, rest) \<Rightarrow> if 0 < n then Some (v, rest) else None"
proof
  fix v :: "'a::len word" and bs r
  assume "Some (get_varint_data v) = Some bs"
  moreover have "0 < length (get_varint_data v)"
    unfolding get_varint_data_def by (subst write_varint.simps) simp
  ultimately show "(case read_varint (bs @ r) of
      (n, v, rest) \<Rightarrow> if 0 < n then Some (v, rest) else None) = Some (v, r)"
    by (auto simp: varint_roundtrip)
qed

lemma varint_prefix_free: "prefix (get_varint_data v) (get_varint_data w) \<longleftrightarrow> v = w"
  using varint.put_prefix_free by auto

section \<open>Properties\<close>

text \<open>C6. Reading the bytes that \<open>write_varint\<close> produced, followed by anything, gives back the
integer, the number of bytes written and the untouched rest; it holds at every width.\<close>

theorem read_write_varint:
  "read_varint (get_varint_data i @ rest) = (int (length (get_varint_data i)), i, rest)"
  by (rule varint_roundtrip)

text \<open>C7. The reader accepts only the canonical form: when it succeeds and did not run off the end
of the buffer inside the integer, the bytes it consumed are the ones \<open>write_varint\<close> produces for the
value it returns. So no integer has two accepted encodings.\<close>

theorem read_varint_only_canonical:
  fixes v :: "'a::len word"
  assumes "read_varint bs = (n, v, rest)" and "0 < n" and "unat (bs ! (nat n - 1)) < 128"
  shows "bs = get_varint_data v @ rest"
  using assms by (rule read_varint_canonical)

theorem read_varint_only_canonical_witness:
  "[0x80, 0x01, 0x07] = get_varint_data (128 :: u64) @ [0x07]"
  by (rule read_varint_only_canonical [of _ 2])
    (simp_all add: read_varint_def read_varint_bits_def)

end
