(* ===== verification/Keccak.thy ===== *)
theory Keccak
  imports Prelude
begin

text \<open>
  The Keccak permutation and sponge of \<open>src/crypto/keccak.c\<close>, and the fast hash of
  \<open>src/crypto/hash.c\<close> that addresses, transactions and Merkle trees are hashed with. The
  state is the list of its 25 lanes; every loop of the source is a fold over its index
  range, with the arrays updated in place. The lemmas show that the routine is the sponge
  over the padded message, and that a hash has its fixed length.
\<close>

section \<open>Definitions\<close>

definition keccakf_rndc :: "u64 list" where
  "keccakf_rndc =
   [0x0000000000000001, 0x0000000000008082, 0x800000000000808a,
    0x8000000080008000, 0x000000000000808b, 0x0000000080000001,
    0x8000000080008081, 0x8000000000008009, 0x000000000000008a,
    0x0000000000000088, 0x0000000080008009, 0x000000008000000a,
    0x000000008000808b, 0x800000000000008b, 0x8000000000008089,
    0x8000000000008003, 0x8000000000008002, 0x8000000000000080,
    0x000000000000800a, 0x800000008000000a, 0x8000000080008081,
    0x8000000000008080, 0x0000000080000001, 0x8000000080008008]"

definition keccakf_rotc :: "nat list" where
  "keccakf_rotc =
   [1, 3, 6, 10, 15, 21, 28, 36, 45, 55, 2, 14,
    27, 41, 56, 8, 25, 43, 62, 18, 39, 61, 20, 44]"

definition keccakf_piln :: "nat list" where
  "keccakf_piln =
   [10, 7, 11, 17, 18, 3, 5, 16, 8, 21, 24, 4,
    15, 23, 19, 13, 12, 2, 20, 14, 22, 9, 6, 1]"

definition KECCAK_ROUNDS :: nat where
  "KECCAK_ROUNDS = 24"

definition ROTL64 :: "u64 \<Rightarrow> nat \<Rightarrow> u64" where
  "ROTL64 x y = push_bit y x OR drop_bit (64 - y) x"

definition keccakf_theta :: "u64 list \<Rightarrow> u64 list" where
  "keccakf_theta st =
    (let bc = map (\<lambda>i. st ! i XOR st ! (i + 5) XOR st ! (i + 10) XOR st ! (i + 15) XOR st ! (i + 20)) [0..<5]
     in fold (\<lambda>i st.
          let t = bc ! ((i + 4) mod 5) XOR ROTL64 (bc ! ((i + 1) mod 5)) 1
          in fold (\<lambda>j st. st[j + i := st ! (j + i) XOR t]) [0, 5, 10, 15, 20] st) [0..<5] st)"

definition keccakf_rho_pi :: "u64 list \<Rightarrow> u64 list" where
  "keccakf_rho_pi st =
    snd (fold (\<lambda>i (t, st).
          let j = keccakf_piln ! i
          in (st ! j, st[j := ROTL64 t (keccakf_rotc ! i)])) [0..<24] (st ! 1, st))"

definition keccakf_chi :: "u64 list \<Rightarrow> u64 list" where
  "keccakf_chi st =
    fold (\<lambda>j st.
      let bc = map (\<lambda>i. st ! (j + i)) [0..<5]
      in fold (\<lambda>i st.
           st[j + i := st ! (j + i) XOR (NOT (bc ! ((i + 1) mod 5)) AND bc ! ((i + 2) mod 5))]) [0..<5] st)
      [0, 5, 10, 15, 20] st"

definition keccakf_iota :: "nat \<Rightarrow> u64 list \<Rightarrow> u64 list" where
  "keccakf_iota round st = st[0 := st ! 0 XOR keccakf_rndc ! round]"

definition keccakf :: "u64 list \<Rightarrow> nat \<Rightarrow> u64 list" where
  "keccakf st rounds =
    fold (\<lambda>round st. keccakf_iota round (keccakf_chi (keccakf_rho_pi (keccakf_theta st)))) [0..<rounds] st"

definition HASH_DATA_AREA :: nat where
  "HASH_DATA_AREA = 136"

definition HASH_SIZE :: nat where
  "HASH_SIZE = 32"

definition keccak_rsiz :: "nat \<Rightarrow> nat" where
  "keccak_rsiz mdlen = (if mdlen = 200 then HASH_DATA_AREA else 200 - 2 * mdlen)"

text \<open>The 64-bit lanes of a block as the cast \<open>(uint64_t *) in\<close> reads them, xored into the state.\<close>

definition xor_block :: "nat \<Rightarrow> u64 list \<Rightarrow> byte list \<Rightarrow> u64 list" where
  "xor_block rsizw st blk =
    fold (\<lambda>i st. st[i := st ! i XOR le_word (take 8 (drop (8 * i) blk))]) [0..<rsizw] st"

text \<open>
  The absorbing loop. Every caller passes \<open>mdlen\<close> 32 or 200, for which \<open>rsiz\<close> is 136; for
  \<open>rsiz = 0\<close>, which no caller can produce, the C loop would not end and the model stops.
\<close>

function keccak_absorb :: "nat \<Rightarrow> u64 list \<Rightarrow> byte list \<Rightarrow> u64 list \<times> byte list" where
  "keccak_absorb rsiz st inp =
    (if 0 < rsiz \<and> rsiz \<le> length inp
     then keccak_absorb rsiz (keccakf (xor_block (rsiz div 8) st inp) KECCAK_ROUNDS) (drop rsiz inp)
     else (st, inp))"
  by pat_completeness auto
termination
  by (relation "measure (\<lambda>(rsiz, st, inp). length inp)") auto

declare keccak_absorb.simps [simp del]

definition keccak_last_block :: "nat \<Rightarrow> byte list \<Rightarrow> byte list" where
  "keccak_last_block rsiz inp =
    (let temp = inp @ [1] @ replicate (rsiz - (length inp + 1)) 0
     in temp[rsiz - 1 := temp ! (rsiz - 1) OR 0x80])"

definition state_bytes :: "u64 list \<Rightarrow> byte list" where
  "state_bytes st = concat (map (le_bytes 8) st)"

definition keccak :: "byte list \<Rightarrow> nat \<Rightarrow> byte list" where
  "keccak inp mdlen =
    (let rsiz = keccak_rsiz mdlen;
         rsizw = rsiz div 8;
         (st, inp) = keccak_absorb rsiz (replicate 25 0) inp;
         temp = keccak_last_block rsiz inp;
         st = keccakf (xor_block rsizw st temp) KECCAK_ROUNDS
     in take mdlen (state_bytes st))"

definition keccak1600 :: "byte list \<Rightarrow> byte list" where
  "keccak1600 inp = keccak inp 200"

definition hash_process :: "byte list \<Rightarrow> byte list" where
  "hash_process buf = keccak1600 buf"

definition cn_fast_hash :: "byte list \<Rightarrow> byte list" where
  "cn_fast_hash data = take HASH_SIZE (hash_process data)"

section \<open>Sizes\<close>

lemma length_fold:
  assumes "\<And>x ys. length (f x ys) = length ys"
  shows "length (fold f xs ys) = length ys"
  using assms by (induction xs arbitrary: ys) auto

lemma length_theta [simp]: "length (keccakf_theta st) = length st"
  by (simp add: keccakf_theta_def Let_def length_fold)

lemma length_rho_pi [simp]: "length (keccakf_rho_pi st) = length st"
proof -
  have "length (snd (fold (\<lambda>i (t, st). let j = keccakf_piln ! i in (st ! j, st[j := ROTL64 t (keccakf_rotc ! i)])) xs ts))
      = length (snd ts)" for xs ts
    by (induction xs arbitrary: ts) (auto simp: Let_def split: prod.splits)
  then show ?thesis by (simp add: keccakf_rho_pi_def)
qed

lemma length_chi [simp]: "length (keccakf_chi st) = length st"
  by (simp add: keccakf_chi_def Let_def length_fold)

lemma length_keccakf [simp]: "length (keccakf st n) = length st"
  by (simp add: keccakf_def keccakf_iota_def length_fold)

lemma length_xor_block [simp]: "length (xor_block n st blk) = length st"
  by (simp add: xor_block_def length_fold)

lemma length_absorb: "length (fst (keccak_absorb rsiz st inp)) = length st"
  by (induction rsiz st inp rule: keccak_absorb.induct) (simp add: keccak_absorb.simps)

lemma length_state_bytes [simp]: "length (state_bytes st) = 8 * length st"
  by (induction st) (simp_all add: state_bytes_def)

lemma length_keccak: "mdlen \<le> 200 \<Longrightarrow> length (keccak inp mdlen) = mdlen"
  using length_absorb [of "keccak_rsiz mdlen" "replicate 25 0" inp]
  by (auto simp: keccak_def Let_def split: prod.split)

lemma length_cn_fast_hash [simp]: "length (cn_fast_hash data) = 32"
  by (simp add: cn_fast_hash_def HASH_SIZE_def hash_process_def keccak1600_def length_keccak)

section \<open>The sponge\<close>

text \<open>
  The reference: the message is padded with a byte 1, zeros, and the top bit of the last
  byte of the block; the state absorbs the padded message block by block.
\<close>

definition sponge_pad :: "nat \<Rightarrow> byte list \<Rightarrow> byte list" where
  "sponge_pad rsiz msg =
    (let k = rsiz - length msg mod rsiz
     in msg @ (if k = 1 then [0x81] else [1] @ replicate (k - 2) 0 @ [0x80]))"

definition sponge :: "nat \<Rightarrow> byte list \<Rightarrow> u64 list" where
  "sponge rsiz msg =
    fold (\<lambda>blk st. keccakf (xor_block (rsiz div 8) st blk) KECCAK_ROUNDS)
      (chunks rsiz (sponge_pad rsiz msg)) (replicate 25 0)"

lemma xor_block_take: "8 * n \<le> m \<Longrightarrow> xor_block n st (take m blk) = xor_block n st blk"
  unfolding xor_block_def
proof (rule fold_cong)
  fix i assume "i \<in> set [0..<n]" "8 * n \<le> m"
  then have "8 + 8 * i \<le> m" by auto
  then have "take 8 (drop (8 * i) (take m blk)) = take 8 (drop (8 * i) blk)"
    by (simp add: drop_take min_def)
  then show "(\<lambda>st. st[i := st ! i XOR le_word (take 8 (drop (8 * i) (take m blk)))])
      = (\<lambda>st. st[i := st ! i XOR le_word (take 8 (drop (8 * i) blk))])" by simp
qed simp_all

lemma last_block_pad:
  assumes "length inp < rsiz"
  shows "inp @ (if rsiz - length inp = 1 then [0x81] else [1] @ replicate (rsiz - length inp - 2) 0 @ [0x80])
       = keccak_last_block rsiz inp"
proof (cases "rsiz - length inp = 1")
  case True
  then have "rsiz - 1 = length inp" "rsiz - (length inp + 1) = 0" by simp_all
  with True show ?thesis by (simp add: keccak_last_block_def)
next
  case False
  define k where "k = rsiz - length inp - 2"
  have r: "rsiz = length inp + k + 2" using False assms by (simp add: k_def)
  have "replicate (Suc k) (0 :: byte) = replicate k 0 @ [0]" by (simp add: replicate_append_same)
  then show ?thesis by (simp add: keccak_last_block_def Let_def r nth_append list_update_append del: replicate.simps)
qed

lemma sponge_pad_drop:
  assumes "rsiz \<le> length msg" "0 < rsiz"
  shows "sponge_pad rsiz msg = take rsiz msg @ sponge_pad rsiz (drop rsiz msg)"
proof -
  have "(length msg - rsiz) mod rsiz = length msg mod rsiz"
    using assms by (simp add: le_mod_geq)
  then show ?thesis by (simp add: sponge_pad_def Let_def)
qed

lemma absorb_sponge:
  assumes "0 < rsiz" and "8 * (rsiz div 8) \<le> rsiz"
  shows "(case keccak_absorb rsiz st msg of (st', rest) \<Rightarrow>
            keccakf (xor_block (rsiz div 8) st' (keccak_last_block rsiz rest)) KECCAK_ROUNDS)
       = fold (\<lambda>blk st. keccakf (xor_block (rsiz div 8) st blk) KECCAK_ROUNDS)
           (chunks rsiz (sponge_pad rsiz msg)) st"
  using assms(1)
proof (induction rsiz st msg rule: keccak_absorb.induct)
  case (1 rsiz st inp)
  show ?case
  proof (cases "rsiz \<le> length inp")
    case True
    with "1.prems" have "chunks rsiz (sponge_pad rsiz inp)
        = take rsiz inp # chunks rsiz (sponge_pad rsiz (drop rsiz inp))"
      by (simp add: sponge_pad_drop chunks_append)
    with True 1 show ?thesis
      by (subst keccak_absorb.simps) (simp add: xor_block_take)
  next
    case False
    then have "sponge_pad rsiz inp = keccak_last_block rsiz inp"
      using last_block_pad [of inp rsiz] by (simp add: sponge_pad_def Let_def)
    moreover have "length (keccak_last_block rsiz inp) = rsiz" "keccak_last_block rsiz inp \<noteq> []"
      using False by (auto simp: keccak_last_block_def Let_def)
    ultimately show ?thesis
      using False by (subst keccak_absorb.simps) (simp add: chunks_single)
  qed
qed

lemma keccak_sponge:
  assumes "0 < keccak_rsiz mdlen"
  shows "keccak inp mdlen = take mdlen (state_bytes (sponge (keccak_rsiz mdlen) inp))"
  using absorb_sponge [OF assms, of "replicate 25 0" inp]
  by (simp add: keccak_def sponge_def Let_def split: prod.splits)

lemma cn_fast_hash_sponge: "cn_fast_hash data = take 32 (state_bytes (sponge 136 data))"
proof -
  have "keccak data 200 = take 200 (state_bytes (sponge 136 data))"
    by (subst keccak_sponge) (simp_all add: keccak_rsiz_def HASH_DATA_AREA_def)
  then show ?thesis
    by (simp add: cn_fast_hash_def HASH_SIZE_def hash_process_def keccak1600_def)
qed

lemma cn_fast_hash_keccak: "cn_fast_hash data = keccak data 32"
  by (subst keccak_sponge) (simp_all add: keccak_rsiz_def cn_fast_hash_sponge)

section \<open>Properties\<close>

text \<open>C14. The hash of the program is the 256-bit squeeze of the Keccak sponge with rate 136: the
message is padded with \<open>1 0* 1\<close> bits to whole blocks, which are absorbed one after the other. The
block-at-a-time loop over the caller's buffer with its separate last block computes exactly this.\<close>

theorem cn_fast_hash_is_sponge: "cn_fast_hash data = take 32 (state_bytes (sponge 136 data))"
  by (rule cn_fast_hash_sponge)

end
