(* ===== verification/Base58.thy ===== *)
theory Base58
  imports Int_Util Varint Keccak
begin

text \<open>
  The block-wise base-58 encoding of \<open>src/common/base58.cpp\<close> and the checksummed,
  tagged encoding of addresses built on it. Binary data is a byte list; encoded text is a
  \<open>string\<close>. A pointer into the result buffer is modelled by the slice of the buffer that the
  callee may write, which it returns updated. The lemmas show that \<open>decode\<close> accepts exactly
  the image of \<open>encode\<close> and inverts it, and the same for addresses.
\<close>

section \<open>Definitions\<close>

definition alphabet :: string where
  "alphabet = ''123456789ABCDEFGHJKLMNPQRSTUVWXYZabcdefghijkmnopqrstuvwxyz''"

definition alphabet_size :: nat where
  "alphabet_size = 58"

definition encoded_block_sizes :: "nat list" where
  "encoded_block_sizes = [0, 2, 3, 5, 6, 7, 9, 10, 11]"

definition full_block_size :: nat where
  "full_block_size = 8"

definition full_encoded_block_size :: nat where
  "full_encoded_block_size = encoded_block_sizes ! full_block_size"

definition addr_checksum_size :: nat where
  "addr_checksum_size = 4"

text \<open>The value of a \<open>char\<close>, which is a signed byte on the targets of the program.\<close>

definition char_val :: "char \<Rightarrow> int" where
  "char_val c = (if of_char c < (128 :: int) then of_char c else of_char c - 256)"

definition reverse_alphabet_data :: "int list" where
  "reverse_alphabet_data =
    fold (\<lambda>i m_data. m_data[nat (char_val (alphabet ! i) - char_val (alphabet ! 0)) := int i])
      [0..<alphabet_size]
      (replicate (nat (char_val (alphabet ! (alphabet_size - 1)) - char_val (alphabet ! 0) + 1)) (- 1))"

definition reverse_alphabet :: "char \<Rightarrow> int" where
  "reverse_alphabet letter =
    (let idx = word_of_int (char_val letter - char_val (alphabet ! 0)) :: size_t
     in if unat idx < length reverse_alphabet_data then reverse_alphabet_data ! unat idx else - 1)"

definition decoded_block_sizes_data :: "int list" where
  "decoded_block_sizes_data =
    fold (\<lambda>i m_data. m_data[encoded_block_sizes ! i := int i])
      [0..<full_block_size + 1]
      (replicate (encoded_block_sizes ! full_block_size + 1) (- 1))"

definition decoded_block_sizes :: "nat \<Rightarrow> int" where
  "decoded_block_sizes encoded_block_size = decoded_block_sizes_data ! encoded_block_size"

definition uint_8be_to_64 :: "byte list \<Rightarrow> u64" where
  "uint_8be_to_64 data = fold (\<lambda>b res. push_bit 8 res OR ucast b) data 0"

definition uint_64_to_8be :: "u64 \<Rightarrow> nat \<Rightarrow> byte list" where
  "uint_64_to_8be num sz = take sz (drop (8 - sz) (le_bytes 8 (SWAP64 num)))"

text \<open>The loop of \<open>encode_block\<close>: \<open>num\<close>, \<open>i\<close> and the result buffer \<open>res\<close>.\<close>

function encode_block_loop :: "u64 \<Rightarrow> int \<Rightarrow> string \<Rightarrow> string" where
  "encode_block_loop num i res =
    (if 0 < num
     then
       let remainder = num mod of_nat alphabet_size;
           num = num div of_nat alphabet_size
       in encode_block_loop num (i - 1) (res[nat i := alphabet ! unat remainder])
     else res)"
  by pat_completeness auto
termination
  by (relation "measure (\<lambda>(num, i, res). unat num)")
    (auto simp: alphabet_size_def unat_div word_gt_0 unat_gt_0)

declare encode_block_loop.simps [simp del]

definition encode_block :: "byte list \<Rightarrow> nat \<Rightarrow> string \<Rightarrow> string" where
  "encode_block block sz res =
    encode_block_loop (uint_8be_to_64 block) (int (encoded_block_sizes ! sz) - 1) res"

text \<open>The loop of \<open>decode_block\<close> runs from the last character to the first.\<close>

fun decode_block_loop :: "string \<Rightarrow> u64 \<Rightarrow> u64 \<Rightarrow> u64 option" where
  "decode_block_loop [] res_num order = Some res_num"
| "decode_block_loop (c # cs) res_num order =
    (let digit = reverse_alphabet c
     in if digit < 0 then None
        else
          let (product_lo, product_hi) = mul128 order (word_of_int digit);
              tmp = res_num + product_lo
          in if tmp < res_num \<or> product_hi \<noteq> 0 then None
             else decode_block_loop cs tmp (order * of_nat alphabet_size))"

definition decode_block :: "string \<Rightarrow> nat \<Rightarrow> byte list option" where
  "decode_block block sz =
    (let res_size = decoded_block_sizes sz
     in if res_size \<le> 0 then None
        else case decode_block_loop (rev block) 0 1 of
          None \<Rightarrow> None
        | Some res_num \<Rightarrow>
            if nat res_size < full_block_size \<and> push_bit (8 * nat res_size) 1 \<le> res_num then None
            else Some (uint_64_to_8be res_num (nat res_size)))"

definition encode :: "byte list \<Rightarrow> string" where
  "encode data =
    (if data = [] then []
     else
       let full_block_count = length data div full_block_size;
           last_block_size = length data mod full_block_size
       in concat (map (\<lambda>i. encode_block (take full_block_size (drop (i * full_block_size) data)) full_block_size
                     (replicate full_encoded_block_size (alphabet ! 0))) [0..<full_block_count]) @
          (if 0 < last_block_size
           then encode_block (drop (full_block_count * full_block_size) data) last_block_size
                  (replicate (encoded_block_sizes ! last_block_size) (alphabet ! 0))
           else []))"

text \<open>\<open>decode\<close> fills the slices of \<open>data\<close> block by block and stops at the first bad block.\<close>

fun decode_blocks :: "string list \<Rightarrow> byte list option" where
  "decode_blocks [] = Some []"
| "decode_blocks (b # bs) =
    (case decode_block b full_encoded_block_size of
       None \<Rightarrow> None
     | Some r \<Rightarrow> (case decode_blocks bs of None \<Rightarrow> None | Some rs \<Rightarrow> Some (r @ rs)))"

definition decode :: "string \<Rightarrow> byte list option" where
  "decode enc =
    (if enc = [] then Some []
     else
       let full_block_count = length enc div full_encoded_block_size;
           last_block_size = length enc mod full_encoded_block_size;
           last_block_decoded_size = decoded_block_sizes last_block_size
       in if last_block_decoded_size < 0 then None
          else
            case decode_blocks (map (\<lambda>i. take full_encoded_block_size (drop (i * full_encoded_block_size) enc))
                                  [0..<full_block_count]) of
              None \<Rightarrow> None
            | Some data \<Rightarrow>
                if 0 < last_block_size
                then (case decode_block (drop (full_block_count * full_encoded_block_size) enc) last_block_size of
                        None \<Rightarrow> None
                      | Some r \<Rightarrow> Some (data @ r))
                else Some data)"

definition encode_addr :: "u64 \<Rightarrow> byte list \<Rightarrow> string" where
  "encode_addr tag data =
    (let buf = get_varint_data tag;
         buf = buf @ data;
         hash = cn_fast_hash buf;
         buf = buf @ take addr_checksum_size hash
     in encode buf)"

definition decode_addr :: "string \<Rightarrow> (u64 \<times> byte list) option" where
  "decode_addr addr =
    (case decode addr of
       None \<Rightarrow> None
     | Some addr_data \<Rightarrow>
         if length addr_data \<le> addr_checksum_size then None
         else
           let checksum = drop (length addr_data - addr_checksum_size) addr_data;
               addr_data = take (length addr_data - addr_checksum_size) addr_data;
               expected_checksum = take addr_checksum_size (cn_fast_hash addr_data)
           in if expected_checksum \<noteq> checksum then None
              else
                let (read, tag, rest) = read_varint addr_data
                in if read \<le> 0 then None else Some (tag, drop (nat read) addr_data))"

section \<open>The tables\<close>

lemma length_alphabet [simp]: "length alphabet = 58"
  by (simp add: alphabet_def)

lemma reverse_alphabet_data_eq: "reverse_alphabet_data =
  [0, 1, 2, 3, 4, 5, 6, 7, 8, - 1, - 1, - 1, - 1, - 1, - 1, - 1, 9, 10, 11, 12, 13, 14, 15, 16, - 1, 17, 18,
   19, 20, 21, - 1, 22, 23, 24, 25, 26, 27, 28, 29, 30, 31, 32, - 1, - 1, - 1, - 1, - 1, - 1, 33, 34, 35, 36,
   37, 38, 39, 40, 41, 42, 43, - 1, 44, 45, 46, 47, 48, 49, 50, 51, 52, 53, 54, 55, 56, 57]"
  by code_simp

lemma decoded_block_sizes_data_eq:
  "decoded_block_sizes_data = [0, - 1, 1, 2, - 1, 3, 4, 5, - 1, 6, 7, 8]"
  by code_simp

lemma size_t_of_nonneg: "0 \<le> k \<Longrightarrow> k < 2 ^ 64 \<Longrightarrow> unat (word_of_int k :: size_t) = nat k"
  by (simp add: unsigned_of_int take_bit_int_eq_self)

lemma size_t_of_neg:
  assumes "- (2 ^ 63) \<le> k" "k < 0"
  shows "2 ^ 63 \<le> unat (word_of_int k :: size_t)"
proof -
  have "k mod 2 ^ 64 = k + 2 ^ 64"
    using assms by (intro mod_pos_pos_trivial [of "k + 2 ^ 64" "2 ^ 64", simplified mod_add_self2]) simp_all
  with assms show ?thesis
    by (simp add: unsigned_of_int take_bit_eq_mod nat_le_iff)
qed

lemma reverse_alphabet_eq:
  "reverse_alphabet c = (if 49 \<le> (of_char c :: nat) \<and> (of_char c :: nat) \<le> 122
    then reverse_alphabet_data ! (of_char c - 49) else - 1)"
proof -
  define n where "n = (of_char c :: nat)"
  define k where "k = char_val c - char_val (alphabet ! 0)"
  have n: "n < 256" by (simp add: n_def)
  have "(of_char c :: int) = int n" by (simp add: n_def of_nat_of_char)
  then have k: "k = (if n < 128 then int n else int n - 256) - 49"
    by (simp add: k_def char_val_def alphabet_def)
  have len: "length reverse_alphabet_data = 74" by (simp add: reverse_alphabet_data_eq)
  have ra: "reverse_alphabet c = (if unat (word_of_int k :: size_t) < 74
      then reverse_alphabet_data ! unat (word_of_int k :: size_t) else - 1)"
    by (simp only: reverse_alphabet_def Let_def len k_def)
  show ?thesis
  proof (cases "49 \<le> n \<and> n < 128")
    case True
    then have "unat (word_of_int k :: size_t) = n - 49"
      by (subst size_t_of_nonneg) (simp_all add: k)
    with True show ?thesis unfolding ra n_def [symmetric] by auto
  next
    case False
    with n have "2 ^ 63 \<le> unat (word_of_int k :: size_t)"
      by (intro size_t_of_neg) (auto simp: k)
    with False show ?thesis unfolding ra n_def [symmetric] by auto
  qed
qed

lemma reverse_alphabet_table:
  "list_all (\<lambda>n. let d = reverse_alphabet_data ! (n - 49)
     in d = - 1 \<or> 0 \<le> d \<and> d < 58 \<and> of_char (alphabet ! nat d) = n) [49..<123]"
  unfolding reverse_alphabet_data_eq by code_simp

lemma alphabet_table:
  "list_all (\<lambda>d. 49 \<le> (of_char (alphabet ! d) :: nat) \<and> (of_char (alphabet ! d) :: nat) \<le> 122 \<and>
     reverse_alphabet_data ! (of_char (alphabet ! d) - 49) = int d) [0..<58]"
  unfolding reverse_alphabet_data_eq by code_simp

lemma reverse_alphabet_nth: "d < 58 \<Longrightarrow> reverse_alphabet (alphabet ! d) = int d"
  using alphabet_table by (simp add: list_all_iff reverse_alphabet_eq)

lemma reverse_alphabet_inv:
  assumes "0 \<le> reverse_alphabet c"
  shows "nat (reverse_alphabet c) < 58 \<and> alphabet ! nat (reverse_alphabet c) = c"
proof -
  have n: "49 \<le> (of_char c :: nat)" "(of_char c :: nat) < 123"
    and d: "reverse_alphabet c = reverse_alphabet_data ! (of_char c - 49)"
    using assms by (auto simp: reverse_alphabet_eq split: if_splits)
  from n have "(of_char c :: nat) \<in> set [49..<123]" by (simp only: set_upt atLeastLessThan_iff)
  with reverse_alphabet_table
  have "reverse_alphabet c = - 1 \<or> 0 \<le> reverse_alphabet c \<and> reverse_alphabet c < 58 \<and>
      (of_char (alphabet ! nat (reverse_alphabet c)) :: nat) = of_char c"
    unfolding d by (simp only: list_all_iff Let_def)
  with assms show ?thesis by (auto simp: of_char_eq_iff)
qed

section \<open>Blocks as numbers\<close>

text \<open>The big-endian value of a block.\<close>

definition be_val :: "byte list \<Rightarrow> nat" where
  "be_val bs = undigits 256 (rev (map unat bs))"

lemma byte_digit: "d \<in> set (rev (map unat (bs :: byte list))) \<Longrightarrow> d < 256"
  by auto

lemma be_val_less: "be_val bs < 256 ^ length bs"
  unfolding be_val_def using undigits_less [of "rev (map unat bs)" 256, OF byte_digit] by simp

lemma uint_8be_to_64_val:
  assumes "length bs \<le> 8"
  shows "unat (uint_8be_to_64 bs) = be_val bs"
  using assms
proof (induction bs rule: rev_induct)
  case Nil
  then show ?case by (simp add: uint_8be_to_64_def be_val_def)
next
  case (snoc b bs)
  then have IH: "unat (uint_8be_to_64 bs) = be_val bs" by simp
  have "be_val bs < 256 ^ 7"
  proof (rule order.strict_trans2 [OF be_val_less])
    show "(256::nat) ^ length bs \<le> 256 ^ 7" using snoc.prems by (intro power_increasing) simp_all
  qed
  then have "unat (push_bit 8 (uint_8be_to_64 bs)) = be_val bs * 2 ^ 8"
    by (subst unat_push_bit_small) (simp_all add: IH)
  moreover have ub: "unat (ucast b :: u64) = unat b"
    by (rule unat_ucast_small) (rule order.strict_trans [OF unat_byte_lt], simp)
  moreover have "unat (ucast b OR push_bit 8 (uint_8be_to_64 bs))
      = unat (ucast b :: u64) + unat (push_bit 8 (uint_8be_to_64 bs))"
    by (rule unat_or_disjoint) (simp add: ub)
  ultimately show ?case
    by (simp add: uint_8be_to_64_def be_val_def or.commute)
qed

lemma le_bytes_nth: "i < n \<Longrightarrow> le_bytes n w ! i = ucast (drop_bit (8 * i) w)"
proof (induction n arbitrary: w i)
  case (Suc n)
  then show ?case by (cases i) (simp_all add: add.commute)
qed simp

lemma le_bytes_SWAP64: "le_bytes 8 (SWAP64 x) = rev (le_bytes 8 x)"
proof (rule nth_equalityI)
  fix i assume "i < length (le_bytes 8 (SWAP64 x))"
  then have i: "i < 8" by simp
  have "(ucast (drop_bit (8 * i) (SWAP64 x)) :: byte) = ucast (drop_bit (8 * (7 - i)) x)"
  proof (rule bit_word_eqI)
    fix r assume "r < LENGTH(8)"
    then show "bit (ucast (drop_bit (8 * i) (SWAP64 x)) :: byte) r = bit (ucast (drop_bit (8 * (7 - i)) x) :: byte) r"
      using bit_SWAP64 [OF i, of r x] by (simp add: bit_ucast_iff bit_drop_bit_eq)
  qed
  with i show "le_bytes 8 (SWAP64 x) ! i = rev (le_bytes 8 x) ! i"
    by (simp only: le_bytes_nth rev_nth length_le_bytes) (simp add: le_bytes_nth)
qed simp

lemma uint_64_to_8be_val:
  assumes "1 \<le> sz" "sz \<le> 8"
  shows "rev (map unat (uint_64_to_8be num sz)) = digits 256 sz (unat num)"
proof -
  have "uint_64_to_8be num sz = rev (take sz (le_bytes 8 num))"
    using assms by (simp add: uint_64_to_8be_def le_bytes_SWAP64 drop_rev)
  moreover have "map unat (take sz (le_bytes 8 num)) = take sz (digits 256 8 (unat num))"
    by (simp add: take_map [symmetric] map_unat_le_bytes)
  moreover have "take sz (digits 256 8 (unat num)) = digits 256 sz (unat num)"
    using assms digits_append [of 256 sz "8 - sz" "unat num"] by simp
  ultimately show ?thesis by (simp add: rev_map)
qed

lemma uint_64_to_8be_be_val:
  assumes "1 \<le> length bs" "length bs \<le> 8"
  shows "uint_64_to_8be (uint_8be_to_64 bs) (length bs) = bs"
proof -
  have "rev (map unat (uint_64_to_8be (uint_8be_to_64 bs) (length bs))) = rev (map unat bs)"
    using assms digits_undigits [of "rev (map unat bs)" 256, OF byte_digit]
    by (simp add: uint_64_to_8be_val uint_8be_to_64_val be_val_def)
  then show ?thesis by (simp add: map_unat_inject)
qed

section \<open>Digits of a block\<close>

lemma encode_block_loop_0: "encode_block_loop 0 i res = res"
  by (simp add: encode_block_loop.simps)

lemma encode_block_loop_digits:
  assumes "unat num < 58 ^ m" "m \<le> length res" "take m res = replicate m (alphabet ! 0)"
  shows "encode_block_loop num (int m - 1) res = rev (map (nth alphabet) (digits 58 m (unat num))) @ drop m res"
  using assms
proof (induction m arbitrary: num res)
  case 0
  then have "num = 0" by (simp add: unat_eq_0)
  then show ?case by (simp add: encode_block_loop.simps)
next
  case (Suc m)
  show ?case
  proof (cases "num = 0")
    case True
    have "res = replicate (Suc m) (alphabet ! 0) @ drop (Suc m) res"
      unfolding Suc.prems(3) [symmetric] by (rule append_take_drop_id [symmetric])
    then show ?thesis
      unfolding True encode_block_loop_0 unat_0 digits_0 map_replicate rev_replicate .
  next
    case False
    define res' where "res' = res[m := alphabet ! (unat num mod 58)]"
    have "unat (num mod 58) = unat num mod 58" "unat (num div 58) = unat num div 58"
      by (simp_all add: unat_mod unat_div)
    moreover have "unat num div 58 < 58 ^ m"
      using Suc.prems(1) by (simp add: less_mult_imp_div_less mult.commute)
    moreover have "take m res' = replicate m (alphabet ! 0)"
    proof -
      have "take m res = take m (take (Suc m) res)" by simp
      also have "\<dots> = replicate m (alphabet ! 0)" unfolding Suc.prems(3) take_replicate by simp
      finally show ?thesis by (simp add: res'_def)
    qed
    moreover have "drop m res' = alphabet ! (unat num mod 58) # drop (Suc m) res"
      using Suc.prems(2) by (simp add: res'_def Cons_nth_drop_Suc [symmetric])
    ultimately show ?thesis
      using False Suc.IH [of "num div 58" res'] Suc.prems(2)
      by (subst encode_block_loop.simps) (simp add: alphabet_size_def res'_def word_gt_0)
  qed
qed


lemma decode_block_loop_valid:
  "decode_block_loop cs r q = Some v \<Longrightarrow>
   \<exists>ds. cs = map (nth alphabet) ds \<and> (\<forall>d \<in> set ds. d < 58)"
proof (induction cs arbitrary: r q)
  case (Cons c cs)
  then obtain r' q' where c: "0 \<le> reverse_alphabet c" and rec: "decode_block_loop cs r' q' = Some v"
    by (auto simp: Let_def split: if_splits prod.splits)
  from Cons.IH [OF rec] obtain ds where "cs = map (nth alphabet) ds" "\<forall>d \<in> set ds. d < 58" by auto
  moreover from reverse_alphabet_inv [OF c] have "c = alphabet ! nat (reverse_alphabet c)" "nat (reverse_alphabet c) < 58"
    by auto
  ultimately show ?case
    by (intro exI [of _ "nat (reverse_alphabet c) # ds"]) auto
qed simp

lemma mul128_pair:
  assumes "mul128 x y = (lo, hi)"
  shows "hi = 0 \<longleftrightarrow> unat x * unat y < 2 ^ 64" and "unat x * unat y < 2 ^ 64 \<Longrightarrow> unat lo = unat x * unat y"
proof -
  have m: "unat hi * 2 ^ 64 + unat lo = unat x * unat y" using assms by (rule mul128_correct)
  show hi: "hi = 0 \<longleftrightarrow> unat x * unat y < 2 ^ 64"
  proof
    assume "hi = 0"
    with m show "unat x * unat y < 2 ^ 64" using unat_u64_lt [of lo] by simp
  next
    assume "unat x * unat y < 2 ^ 64"
    with m have "unat hi = 0" by (cases "unat hi") auto
    then show "hi = 0" by (simp add: unat_eq_0)
  qed
  then show "unat x * unat y < 2 ^ 64 \<Longrightarrow> unat lo = unat x * unat y" using m by simp
qed

text \<open>The loop computes the value of the digits, and fails exactly when it does not fit a word.\<close>

lemma decode_block_loop_value:
  assumes "\<forall>d \<in> set ds. d < 58" and "j + length ds \<le> 11" and "ds \<noteq> [] \<Longrightarrow> unat q = 58 ^ j"
  shows "decode_block_loop (map (nth alphabet) ds) r q =
    (let t = unat r + 58 ^ j * undigits 58 ds in if t < 2 ^ 64 then Some (of_nat t) else None)"
  using assms
proof (induction ds arbitrary: j q r)
  case Nil
  then show ?case by simp
next
  case (Cons d ds)
  have d: "d < 58" and q: "unat q = 58 ^ j" using Cons.prems by auto
  obtain lo hi where m: "mul128 q (of_nat d) = (lo, hi)" by fastforce
  have ud: "unat (of_nat d :: u64) = d" using d by (simp add: unat_of_nat)
  let ?s = "unat r + 58 ^ j * d"
  have t: "unat r + 58 ^ j * undigits 58 (d # ds) = ?s + 58 ^ (j + 1) * undigits 58 ds"
    by (simp add: algebra_simps)
  have guard: "r + lo < r \<or> hi \<noteq> 0 \<longleftrightarrow> 2 ^ 64 \<le> ?s"
  proof (cases "58 ^ j * d < 2 ^ 64")
    case True
    with mul128_pair [OF m] have "hi = 0" "unat lo = 58 ^ j * d" by (simp_all add: q ud)
    then show ?thesis by (simp add: carry_iff)
  next
    case False
    with mul128_pair(1) [OF m] have "hi \<noteq> 0" by (simp add: q ud)
    with False show ?thesis by simp
  qed
  show ?case
  proof (cases "2 ^ 64 \<le> ?s")
    case True
    then have "\<not> ?s + 58 ^ (j + 1) * undigits 58 ds < 2 ^ 64" by simp
    with True guard m d show ?thesis
      unfolding t by (simp add: reverse_alphabet_nth Let_def)
  next
    case False
    with guard have "\<not> r + lo < r" "hi = 0" by auto
    then have lo: "unat lo = 58 ^ j * d" using mul128_pair [OF m] by (simp add: q ud)
    have r': "unat (r + lo) = ?s" using False by (subst unat_add_no_wrap) (simp_all add: lo)
    have "unat (q * 58) = 58 ^ (j + 1)" if "ds \<noteq> []"
    proof -
      have "j + 1 \<le> 10" using that Cons.prems(2) by (cases ds) auto
      then have "(58::nat) ^ (j + 1) \<le> 58 ^ 10" by (intro power_increasing) auto
      then have "58 ^ j * 58 < (2::nat) ^ 64" by simp
      then show ?thesis using unat_mult_no_wrap [of q 58] by (simp add: q)
    qed
    then have "decode_block_loop (map (nth alphabet) ds) (r + lo) (q * 58) =
      (let t = unat (r + lo) + 58 ^ (j + 1) * undigits 58 ds in if t < 2 ^ 64 then Some (of_nat t) else None)"
      using Cons.prems(1,2) by (intro Cons.IH) auto
    with False guard m d show ?thesis
      unfolding t r' by (simp add: reverse_alphabet_nth Let_def alphabet_size_def)
  qed
qed

section \<open>Blocks decode to what was encoded\<close>

lemma block_sizes:
  assumes "1 \<le> n" "n \<le> 8"
  shows "(256::nat) ^ n \<le> 58 ^ (encoded_block_sizes ! n)" and "encoded_block_sizes ! n \<le> 11"
    and "1 \<le> encoded_block_sizes ! n" and "decoded_block_sizes (encoded_block_sizes ! n) = int n"
proof -
  have "n \<in> {1, 2, 3, 4, 5, 6, 7, 8}" using assms by auto
  then show "(256::nat) ^ n \<le> 58 ^ (encoded_block_sizes ! n)" and "encoded_block_sizes ! n \<le> 11"
    and "1 \<le> encoded_block_sizes ! n" and "decoded_block_sizes (encoded_block_sizes ! n) = int n"
    by (auto simp: encoded_block_sizes_def decoded_block_sizes_def decoded_block_sizes_data_eq)
qed

lemma decoded_block_sizes_pos:
  assumes "sz \<le> 11" "0 < decoded_block_sizes sz"
  obtains n where "1 \<le> n" "n \<le> 8" "sz = encoded_block_sizes ! n" "decoded_block_sizes sz = int n"
proof -
  have "sz = 0 \<or> sz = 1 \<or> sz = 2 \<or> sz = 3 \<or> sz = 4 \<or> sz = 5 \<or> sz = 6 \<or> sz = 7 \<or> sz = 8 \<or>
    sz = 9 \<or> sz = 10 \<or> sz = 11" using assms(1) by presburger
  then have "1 \<le> nat (decoded_block_sizes sz) \<and> nat (decoded_block_sizes sz) \<le> 8 \<and>
      sz = encoded_block_sizes ! nat (decoded_block_sizes sz)"
    using assms(2) by (auto simp: encoded_block_sizes_def decoded_block_sizes_def decoded_block_sizes_data_eq)
  then show thesis using that [of "nat (decoded_block_sizes sz)"] assms(2) by simp
qed

text \<open>The encoding of one block in a fresh slice of the result.\<close>

abbreviation block_text :: "byte list \<Rightarrow> nat \<Rightarrow> string" where
  "block_text bs n \<equiv> encode_block bs n (replicate (encoded_block_sizes ! n) (alphabet ! 0))"

lemma block_text_digits:
  assumes "1 \<le> n" "n \<le> 8" "length bs = n"
  shows "block_text bs n = rev (map (nth alphabet) (digits 58 (encoded_block_sizes ! n) (be_val bs)))"
proof -
  have v: "unat (uint_8be_to_64 bs) = be_val bs" using assms by (simp add: uint_8be_to_64_val)
  have "be_val bs < 58 ^ (encoded_block_sizes ! n)"
    using be_val_less [of bs] block_sizes(1) [OF assms(1,2)] assms(3) by simp
  then show ?thesis
    unfolding encode_block_def by (subst encode_block_loop_digits) (simp_all add: v)
qed

lemma decode_block_digits:
  assumes n: "1 \<le> n" "n \<le> 8" and ds: "\<forall>d \<in> set ds. d < 58" "length ds = encoded_block_sizes ! n"
  shows "decode_block (rev (map (nth alphabet) ds)) (encoded_block_sizes ! n) =
    (if undigits 58 ds < 256 ^ n then Some (uint_64_to_8be (of_nat (undigits 58 ds)) n) else None)"
proof -
  let ?t = "undigits 58 ds"
  have le: "0 + length ds \<le> 11" using block_sizes(2) [OF n] ds(2) by simp
  have loop: "decode_block_loop (map (nth alphabet) ds) 0 1 = (if ?t < 2 ^ 64 then Some (of_nat ?t) else None)"
    using decode_block_loop_value [OF ds(1) le, of 1 0] by simp
  have p: "(256::nat) ^ n = 2 ^ (8 * n)" by (simp add: power_mult)
  show ?thesis
  proof (cases "n < 8")
    case True
    have lt: "(2::nat) ^ (8 * n) \<le> 2 ^ 56" using True by (intro power_increasing) simp_all
    then have "unat (push_bit (8 * n) (1 :: u64)) = 2 ^ (8 * n)"
      by (subst unat_push_bit_small) simp_all
    with lt have "push_bit (8 * n) (1 :: u64) \<le> of_nat ?t \<longleftrightarrow> 2 ^ (8 * n) \<le> ?t" if "?t < 2 ^ 64"
      using that by (simp add: word_le_nat_alt unat_of_nat)
    with True n lt show ?thesis
      unfolding p by (auto simp: decode_block_def loop block_sizes(4) full_block_size_def)
  next
    case False
    then have "n = 8" using n by simp
    then show ?thesis
      using block_sizes(4) [of 8] by (simp add: decode_block_def loop full_block_size_def)
  qed
qed

lemma length_uint_64_to_8be: "1 \<le> n \<Longrightarrow> n \<le> 8 \<Longrightarrow> length (uint_64_to_8be v n) = n"
  by (simp add: uint_64_to_8be_def)

lemma decode_block_iff:
  assumes n: "1 \<le> n" "n \<le> 8" and len: "length s = encoded_block_sizes ! n"
  shows "decode_block s (encoded_block_sizes ! n) = Some bs \<longleftrightarrow> length bs = n \<and> s = block_text bs n"
proof
  assume dec: "decode_block s (encoded_block_sizes ! n) = Some bs"
  then obtain v where "decode_block_loop (rev s) 0 1 = Some v"
    by (auto simp: decode_block_def Let_def split: if_splits option.splits)
  from decode_block_loop_valid [OF this] obtain ds where
    ds: "rev s = map (nth alphabet) ds" "\<forall>d \<in> set ds. d < 58" by auto
  then have s: "s = rev (map (nth alphabet) ds)" by (simp add: rev_swap)
  with len have lds: "length ds = encoded_block_sizes ! n" by simp
  have t: "undigits 58 ds < 256 ^ n" and bs: "bs = uint_64_to_8be (of_nat (undigits 58 ds)) n"
    using dec unfolding s decode_block_digits [OF n ds(2) lds] by (auto split: if_splits)
  have lbs: "length bs = n" using n by (simp add: bs length_uint_64_to_8be)
  have "(256::nat) ^ n \<le> 256 ^ 8" using n by (intro power_increasing) simp_all
  with t have "unat (of_nat (undigits 58 ds) :: u64) = undigits 58 ds" by (simp add: unat_of_nat)
  then have "be_val bs = undigits 58 ds"
    using n t by (simp add: be_val_def bs uint_64_to_8be_val undigits_digits)
  moreover have "digits 58 (length ds) (undigits 58 ds) = ds"
    using ds(2) by (intro digits_undigits) auto
  ultimately show "length bs = n \<and> s = block_text bs n"
    using lbs lds by (simp add: block_text_digits [OF n lbs] s)
next
  assume "length bs = n \<and> s = block_text bs n"
  then have lbs: "length bs = n" and s: "s = rev (map (nth alphabet) (digits 58 (encoded_block_sizes ! n) (be_val bs)))"
    by (simp_all add: block_text_digits [OF n])
  have "be_val bs < 256 ^ n" using be_val_less [of bs] lbs by simp
  moreover from this have "be_val bs mod 58 ^ (encoded_block_sizes ! n) = be_val bs"
    using block_sizes(1) [OF n] by simp
  moreover have "of_nat (be_val bs) = uint_8be_to_64 bs"
    using n lbs by (simp flip: uint_8be_to_64_val)
  ultimately show "decode_block s (encoded_block_sizes ! n) = Some bs"
    unfolding s using lbs n uint_64_to_8be_be_val [of bs]
    by (subst decode_block_digits [OF n]) (auto dest: digits_less [rotated] simp: undigits_digits)
qed

section \<open>Whole buffers\<close>

lemma full_blocks_step:
  assumes "0 < n" "n \<le> length xs"
  shows "map (\<lambda>i. f (take n (drop (i * n) xs))) [0..<length xs div n] =
    f (take n xs) # map (\<lambda>i. f (take n (drop (i * n) (drop n xs)))) [0..<length (drop n xs) div n]"
proof -
  have "length xs div n = Suc (length (drop n xs) div n)"
    using assms by (simp add: le_div_geq)
  then show ?thesis
    by (simp add: upt_conv_Cons map_Suc_upt [symmetric] add.commute del: upt_Suc)
qed

lemma last_block_step:
  assumes "0 < n" "n \<le> length xs"
  shows "drop (length (drop n xs) div n * n) (drop n xs) = drop (length xs div n * n) xs"
    "length (drop n xs) mod n = length xs mod n"
  using assms by (simp_all add: le_div_geq [of n "length xs"] le_mod_geq [of n "length xs"] add.commute)

lemmas block_step = full_blocks_step last_block_step

lemma full_encoded_11: "full_encoded_block_size = 11"
  by (simp add: full_block_size_def full_encoded_block_size_def encoded_block_sizes_def)

lemma encoded_8: "encoded_block_sizes ! 8 = 11"
  by (simp add: encoded_block_sizes_def)

lemma encode_alt: "encode d =
  concat (map (\<lambda>i. block_text (take 8 (drop (i * 8) d)) 8) [0..<length d div 8]) @
  (if 0 < length d mod 8 then block_text (drop (length d div 8 * 8) d) (length d mod 8) else [])"
  by (simp add: encode_def full_encoded_11 full_block_size_def encoded_8 Let_def)

lemma encode_Nil: "encode [] = []"
  by (simp add: encode_def)

lemma encode_step:
  assumes "8 \<le> length d"
  shows "encode d = block_text (take 8 d) 8 @ encode (drop 8 d)"
  unfolding encode_alt block_step(1) [OF zero_less_numeral assms, of "\<lambda>b. block_text b 8"]
  using assms by (simp only: block_step(2,3) concat.simps append_assoc zero_less_numeral)

lemma encode_small:
  "d \<noteq> [] \<Longrightarrow> length d < 8 \<Longrightarrow> encode d = block_text d (length d)"
  by (simp add: encode_alt)

lemma decode_Nil: "decode [] = Some []"
  by (simp add: decode_def)

lemma decode_alt: "decode s =
  (if decoded_block_sizes (length s mod 11) < 0 then None else
   case decode_blocks (map (\<lambda>i. id (take 11 (drop (i * 11) s))) [0..<length s div 11]) of
     None \<Rightarrow> None
   | Some data \<Rightarrow> if 0 < length s mod 11
       then map_option ((@) data) (decode_block (drop (length s div 11 * 11) s) (length s mod 11))
       else Some data)"
proof -
  have z: "decoded_block_sizes 0 = 0" by (simp add: decoded_block_sizes_def decoded_block_sizes_data_eq)
  show ?thesis
    by (auto simp: decode_def full_encoded_11 z Let_def map_option_case split: option.splits)
qed

lemma decode_step:
  assumes "11 \<le> length s"
  shows "decode s = (case decode_block (take 11 s) 11 of None \<Rightarrow> None
    | Some r \<Rightarrow> map_option ((@) r) (decode (drop 11 s)))"
proof -
  let ?rest = "decode_blocks (map (\<lambda>i. id (take 11 (drop (i * 11) (drop 11 s)))) [0..<length (drop 11 s) div 11])"
  define n where "n = length s mod 11"
  define l where "l = drop (length s div 11 * 11) s"
  have 1: "decode s = (if decoded_block_sizes n < 0 then None else
    case decode_blocks (take 11 s # map (\<lambda>i. id (take 11 (drop (i * 11) (drop 11 s)))) [0..<length (drop 11 s) div 11]) of
     None \<Rightarrow> None
   | Some data \<Rightarrow> if 0 < n then map_option ((@) data) (decode_block l n) else Some data)"
    unfolding decode_alt [of s] n_def l_def
    by (subst block_step(1) [OF _ assms]) (simp_all only: id_apply zero_less_numeral)
  have 2: "decode (drop 11 s) = (if decoded_block_sizes n < 0 then None else
    case ?rest of None \<Rightarrow> None
   | Some data \<Rightarrow> if 0 < n then map_option ((@) data) (decode_block l n) else Some data)"
    unfolding decode_alt [of "drop 11 s"] n_def l_def
    using assms by (simp only: block_step(2,3) zero_less_numeral)
  show ?thesis
    unfolding 1 2 decode_blocks.simps full_encoded_11
    by (cases "decode_block (take 11 s) 11"; cases ?rest)
      (simp_all add: option.map_comp o_def cong: option.map_cong)
qed

lemma decode_small:
  "s \<noteq> [] \<Longrightarrow> length s < 11 \<Longrightarrow> decode s = decode_block s (length s)"
  by (auto simp: decode_alt decode_block_def Let_def append_Nil [abs_def] option.map_ident)

lemma length_block_text:
  "1 \<le> length bs \<Longrightarrow> length bs \<le> 8 \<Longrightarrow> length (block_text bs (length bs)) = encoded_block_sizes ! length bs"
  by (simp add: block_text_digits)

lemma decode_encode: "decode (encode d) = Some d"
proof (induction d rule: length_induct)
  case (1 d)
  consider "d = []" | "d \<noteq> []" "length d < 8" | "8 \<le> length d" by linarith
  then show ?case
  proof cases
    case 2
    then have n: "1 \<le> length d" "length d \<le> 8" by (cases d; simp)+
    have "encoded_block_sizes ! length d < 11"
      using 2 n by (auto simp: encoded_block_sizes_def nth_Cons' )
    then have "decode (block_text d (length d)) = decode_block (block_text d (length d)) (encoded_block_sizes ! length d)"
      using n block_sizes(3) [OF n] length_block_text [OF n] by (subst decode_small) auto
    also have "\<dots> = Some d"
      using n length_block_text [OF n] by (subst decode_block_iff) simp_all
    finally show ?thesis using 2 by (simp add: encode_small)
  next
    case 3
    let ?b = "take 8 d"
    have lb: "length ?b = 8" using 3 by simp
    have e: "encoded_block_sizes ! 8 = 11" by (simp add: encoded_block_sizes_def)
    have lt: "length (block_text ?b 8) = 11" using length_block_text [of ?b] 3 by (simp add: e lb)
    have blk: "decode_block (block_text ?b 8) 11 = Some ?b"
      using decode_block_iff [of 8 "block_text ?b 8" ?b] lt lb by (simp add: e)
    have "length (drop 8 d) < length d" using 3 by simp
    with 1 have "decode (encode (drop 8 d)) = Some (drop 8 d)" by blast
    then show ?thesis
      using lt blk by (simp add: encode_step [OF 3] decode_step)
  qed (simp add: encode_Nil decode_Nil)
qed

lemma decode_Some_encode: "decode s = Some d \<Longrightarrow> encode d = s"
proof (induction s arbitrary: d rule: length_induct)
  case (1 s)
  consider "s = []" | "s \<noteq> []" "length s < 11" | "11 \<le> length s" by linarith
  then show ?case
  proof cases
    case 1
    with "1.prems" show ?thesis by (simp add: decode_Nil encode_Nil)
  next
    case 2
    with "1.prems" have dec: "decode_block s (length s) = Some d" by (simp add: decode_small)
    then have "0 < decoded_block_sizes (length s)"
      by (auto simp: decode_block_def Let_def split: if_splits)
    then obtain n where n: "1 \<le> n" "n \<le> 8" "length s = encoded_block_sizes ! n"
      using decoded_block_sizes_pos [of "length s"] less_imp_le_nat [OF 2(2)] by metis
    with 2 have "n \<noteq> 8" by (auto simp: encoded_block_sizes_def)
    from dec n have "length d = n" "s = block_text d n" by (simp_all add: decode_block_iff)
    with n \<open>n \<noteq> 8\<close> show ?thesis by (subst encode_small) auto
  next
    case 3
    have e: "encoded_block_sizes ! 8 = 11" by (simp add: encoded_block_sizes_def)
    from "1.prems" 3 obtain r rs where r: "decode_block (take 11 s) 11 = Some r"
      and rs: "decode (drop 11 s) = Some rs" and d: "d = r @ rs"
      by (auto simp: decode_step split: option.splits)
    have l: "length r = 8" and t: "block_text r 8 = take 11 s"
      using decode_block_iff [of 8 "take 11 s" r] r 3 by (simp_all add: e)
    have "length (drop 11 s) < length s" using 3 by simp
    with "1.IH" rs have "encode rs = drop 11 s" by blast
    moreover have "encode d = block_text r 8 @ encode rs"
      using l encode_step [of d] by (simp add: d)
    ultimately show ?thesis by (simp only: t append_take_drop_id)
  qed
qed

lemma decode_iff: "decode s = Some d \<longleftrightarrow> s = encode d"
  using decode_encode decode_Some_encode by blast

section \<open>Addresses\<close>

lemma get_varint_data_nonempty: "get_varint_data v \<noteq> []"
  unfolding get_varint_data_def by (subst write_varint.simps) simp

lemma decode_addr_encode_addr: "decode_addr (encode_addr tag data) = Some (tag, data)"
proof -
  define buf where "buf = get_varint_data tag @ data"
  have "buf \<noteq> []" by (simp add: buf_def get_varint_data_nonempty)
  moreover have "read_varint buf = (int (length (get_varint_data tag)), tag, data)"
    by (simp add: buf_def varint_roundtrip)
  ultimately show ?thesis
    using get_varint_data_nonempty [of tag]
    by (simp add: decode_addr_def encode_addr_def Let_def decode_encode addr_checksum_size_def
        flip: buf_def) (simp add: buf_def)
qed

lemma decode_addr_split:
  assumes "decode_addr s = Some (tag, data)"
  obtains buf rest n where "decode s = Some (buf @ take 4 (cn_fast_hash buf))"
    "read_varint buf = (n, tag, rest)" "0 < n" "data = drop (nat n) buf"
proof -
  from assms obtain a where a: "decode s = Some a" "4 < length a"
      and h: "take 4 (cn_fast_hash (take (length a - 4) a)) = drop (length a - 4) a"
      and r: "(case read_varint (take (length a - 4) a) of (read, tag, rest) \<Rightarrow>
        if read \<le> 0 then None else Some (tag, drop (nat read) (take (length a - 4) a))) = Some (tag, data)"
    by (auto simp: decode_addr_def addr_checksum_size_def Let_def split: option.splits if_splits)
  define buf where "buf = take (length a - 4) a"
  have "a = buf @ take 4 (cn_fast_hash buf)"
    using h by (simp only: buf_def append_take_drop_id)
  with a r that [of buf] show thesis
    unfolding buf_def [symmetric] by (auto split: prod.splits if_splits)
qed

lemma decode_addr_sound:
  assumes "decode_addr s = Some (tag, data)" and "data \<noteq> []"
  shows "s = encode_addr tag data"
proof -
  obtain buf rest n where d: "decode s = Some (buf @ take 4 (cn_fast_hash buf))"
      and r: "read_varint buf = (n, tag, rest)" "0 < n" and data: "data = drop (nat n) buf"
    using decode_addr_split [OF assms(1)] .
  have "buf = get_varint_data tag @ data"
    using read_varint_complete [OF r] assms(2) by (simp add: data)
  with d show ?thesis
    by (simp add: decode_iff encode_addr_def Let_def addr_checksum_size_def)
qed

text \<open>A tag whose last byte is missing is still accepted when the payload is empty.\<close>

lemma decode_addr_iff:
  assumes "data \<noteq> []"
  shows "decode_addr s = Some (tag, data) \<longleftrightarrow> s = encode_addr tag data"
  using assms decode_addr_sound decode_addr_encode_addr by blast

section \<open>The encodings as codecs\<close>

interpretation base58: canonical_codec encode decode
  by unfold_locales (simp_all add: decode_iff)

interpretation address: codec "\<lambda>(tag, data). encode_addr tag data" decode_addr
  by unfold_locales (auto simp: decode_addr_encode_addr)

lemma encode_addr_inject: "encode_addr tag data = encode_addr tag' data' \<longleftrightarrow> tag = tag' \<and> data = data'"
  using address.enc_eq_iff [of "(tag, data)" "(tag', data')"] by simp

section \<open>Properties\<close>

text \<open>C1. Base-58 is a canonical codec: \<open>decode\<close> succeeds on a text exactly when the text is the
encoding of the data it returns. So decoding inverts encoding, no data has two accepted texts, and
every text that overflows a block, has a bad length or a character outside the alphabet is refused.\<close>

theorem base58_canonical: "decode s = Some d \<longleftrightarrow> s = encode d"
  by (rule base58.dec_iff)

text \<open>C2. An address read back gives the tag and the payload it was built from, for every tag and
payload.\<close>

theorem decode_encode_addr: "decode_addr (encode_addr tag data) = Some (tag, data)"
  by (rule decode_addr_encode_addr)

text \<open>C3. The only text accepted for a tag and a non-empty payload is the one \<open>encode_addr\<close> produces:
a text with a wrong checksum, a non-canonical tag or any other change is refused.\<close>

theorem decode_addr_only_encoded:
  "decode_addr s = Some (tag, b # data) \<longleftrightarrow> s = encode_addr tag (b # data)"
  by (rule decode_addr_iff) simp

end
