(* ===== verification/Difficulty.thy ===== *)
theory Difficulty
  imports Int_Util "HOL-Library.Multiset"
begin

text \<open>
  Proof-of-work difficulty: \<open>src/cryptonote_core/difficulty.cpp\<close> with the \<open>median\<close> of
  \<open>contrib/epee/include/misc_language.h\<close> and the window constants of
  \<open>src/cryptonote_config.h\<close>. Timestamps, difficulties and spans are 64-bit words with their
  wrap-around; positions in the vectors, which have at most 29 elements after the first resize, are
  natural numbers. A failing \<open>assert\<close> is the value \<open>None\<close>. The lemmas show that the hash test is a
  256-bit comparison, that the two multiplication routines agree, and what the next difficulty is
  when no intermediate product wraps.
\<close>

section \<open>Definitions\<close>

definition DIFFICULTY_TARGET :: u64 where
  "DIFFICULTY_TARGET = 60"

definition DIFFICULTY_WINDOW :: nat where
  "DIFFICULTY_WINDOW = 17"

definition DIFFICULTY_CUT :: nat where
  "DIFFICULTY_CUT = 6"

definition DIFFICULTY_BLOCKS_COUNT :: nat where
  "DIFFICULTY_BLOCKS_COUNT = DIFFICULTY_WINDOW + DIFFICULTY_CUT * 2"

definition MAX_AVERAGE_TIMESPAN :: u64 where
  "MAX_AVERAGE_TIMESPAN = DIFFICULTY_TARGET * 6"

definition MIN_AVERAGE_TIMESPAN :: u64 where
  "MIN_AVERAGE_TIMESPAN = DIFFICULTY_TARGET div 24"

text \<open>The two variants of \<open>mul\<close>; both return the pair of the \<open>low\<close> and the \<open>high\<close> word.\<close>

definition mul :: "u64 \<Rightarrow> u64 \<Rightarrow> u64 \<times> u64" where
  "mul a b = mul128 a b"

definition mul_portable :: "u64 \<Rightarrow> u64 \<Rightarrow> u64 \<times> u64" where
  "mul_portable a b =
    (let aLow = a AND 0xFFFFFFFF;
         aHigh = drop_bit 32 a;
         bLow = b AND 0xFFFFFFFF;
         bHigh = drop_bit 32 b;
         res = aLow * bLow;
         lowRes1 = res AND 0xFFFFFFFF;
         carry = drop_bit 32 res;
         res = aHigh * bLow + carry;
         highResHigh1 = drop_bit 32 res;
         highResLow1 = res AND 0xFFFFFFFF;
         res = aLow * bHigh;
         lowRes2 = res AND 0xFFFFFFFF;
         carry = drop_bit 32 res;
         res = aHigh * bHigh + carry;
         highResHigh2 = drop_bit 32 res;
         highResLow2 = res AND 0xFFFFFFFF;
         r = highResLow1 + lowRes2;
         carry = drop_bit 32 r;
         low = push_bit 32 r OR lowRes1;
         r = highResHigh1 + highResLow2 + carry;
         d3 = r AND 0xFFFFFFFF;
         carry = drop_bit 32 r;
         r = highResHigh2 + carry;
         high = d3 OR push_bit 32 r
     in (low, high))"

definition cadd :: "u64 \<Rightarrow> u64 \<Rightarrow> bool" where
  "cadd a b \<longleftrightarrow> a + b < a"

definition cadc :: "u64 \<Rightarrow> u64 \<Rightarrow> bool \<Rightarrow> bool" where
  "cadc a b c \<longleftrightarrow> a + b < a \<or> (c \<and> a + b = - 1)"

text \<open>The \<open>i\<close>-th 64-bit word of a hash; \<open>swap64le\<close> is the identity on a little-endian machine.\<close>

definition hash_word :: "blob \<Rightarrow> nat \<Rightarrow> u64" where
  "hash_word hash i = le_word (take 8 (drop (8 * i) hash))"

definition check_hash :: "blob \<Rightarrow> u64 \<Rightarrow> bool" where
  "check_hash hash difficulty =
    (let (top, high) = mul (hash_word hash 3) difficulty
     in if high \<noteq> 0 then False
        else
          let (low, cur) = mul (hash_word hash 0) difficulty;
              (low, high) = mul (hash_word hash 1) difficulty;
              carry = cadd cur low;
              cur = high;
              (low, high) = mul (hash_word hash 2) difficulty;
              carry = cadc cur low carry;
              carry = cadc high top carry
          in \<not> carry)"

text \<open>\<open>epee::misc_utils::median\<close> at \<open>uint64_t\<close>.\<close>

definition median :: "u64 list \<Rightarrow> u64" where
  "median v =
    (if v = [] then 0
     else if length v = 1 then v ! 0
     else
       let n = length v div 2;
           v = sort v
       in if length v mod 2 = 1 then v ! n else (v ! (n - 1) + v ! n) div 2)"

text \<open>\<open>std::vector::resize\<close>.\<close>

definition resize :: "nat \<Rightarrow> u64 list \<Rightarrow> u64 list" where
  "resize n v = take n v @ replicate (n - length v) 0"

definition cut_window :: "nat \<Rightarrow> nat \<times> nat" where
  "cut_window n =
    (if n \<le> DIFFICULTY_BLOCKS_COUNT - 2 * DIFFICULTY_CUT then (0, n)
     else
       let cut_begin = (n - (DIFFICULTY_BLOCKS_COUNT - 2 * DIFFICULTY_CUT) + 1) div 2
       in (cut_begin, cut_begin + (DIFFICULTY_BLOCKS_COUNT - 2 * DIFFICULTY_CUT)))"

definition timespan_median :: "u64 list \<Rightarrow> nat \<Rightarrow> u64" where
  "timespan_median timestamps cut_begin =
    (let n = length timestamps
     in if 0 < cut_begin \<and> cut_begin * 2 + 3 \<le> n
        then median (map (\<lambda>i. let time_span = timestamps ! (i + 1) - timestamps ! i
                              in if time_span = 0 then 1 else time_span)
                       [n - cut_begin * 2 - 3..<n - 1])
        else 0)"

definition adjust_timespan :: "u64 \<Rightarrow> u64 \<Rightarrow> u64 \<Rightarrow> u64" where
  "adjust_timespan total_timespan span_median timespan_length =
    (let total_timespan_median =
           (if 0 < span_median then span_median * timespan_length else total_timespan * 7 div 10);
         adjusted = (total_timespan * 8 + total_timespan_median * 3) div 10;
         adjusted = (if MAX_AVERAGE_TIMESPAN * timespan_length < adjusted
                     then MAX_AVERAGE_TIMESPAN * timespan_length else adjusted)
     in if adjusted < MIN_AVERAGE_TIMESPAN * timespan_length
        then MIN_AVERAGE_TIMESPAN * timespan_length else adjusted)"

definition next_difficulty :: "u64 list \<Rightarrow> u64 list \<Rightarrow> u64 \<Rightarrow> u64 option" where
  "next_difficulty timestamps cumulative_difficulties target_seconds =
    (let (timestamps, cumulative_difficulties) =
           (if DIFFICULTY_BLOCKS_COUNT < length timestamps
            then (resize DIFFICULTY_BLOCKS_COUNT timestamps, resize DIFFICULTY_BLOCKS_COUNT cumulative_difficulties)
            else (timestamps, cumulative_difficulties));
         n = length timestamps
     in if n \<noteq> length cumulative_difficulties then None
        else if n \<le> 1 then Some 1
        else
          let timestamps = sort timestamps;
              (cut_begin, cut_end) = cut_window n
          in if \<not> (cut_begin + 2 \<le> cut_end \<and> cut_end \<le> n) then None
             else
               let total_timespan = timestamps ! (cut_end - 1) - timestamps ! cut_begin;
                   total_timespan = (if total_timespan = 0 then 1 else total_timespan);
                   timespan_length = of_nat (n - cut_begin * 2 - 1);
                   adjusted_total_timespan =
                     adjust_timespan total_timespan (timespan_median timestamps cut_begin) timespan_length;
                   total_work = cumulative_difficulties ! (cut_end - 1) - cumulative_difficulties ! cut_begin
               in if total_work = 0 then None
                  else
                    let (low, high) = mul total_work target_seconds
                    in if high \<noteq> 0 then Some 0
                       else
                         let next_diff = (low + adjusted_total_timespan - 1) div max adjusted_total_timespan 1
                         in Some (if next_diff < 1 then 1 else next_diff))"

section \<open>Multiplication\<close>

lemma low_half: "unat (x AND 0xFFFFFFFF :: u64) = unat x mod 2 ^ 32"
  using unat_and_mask [of x 32] by (simp add: mask_eq_exp_minus_1)

lemma two_words_unique:
  assumes "h * B + l = h' * B + l'" "l < B" "l' < (B :: nat)"
  shows "h = h' \<and> l = l'"
proof -
  have "(h * B + l) div B = h" "(h' * B + l') div B = h'" using assms(2,3) by simp_all
  with assms(1) show ?thesis by simp
qed

lemma mul_pairI:
  assumes "unat hi * 2 ^ 64 + unat lo = unat a * unat b"
  shows "mul128 a b = (lo, hi)"
proof -
  obtain l h where m: "mul128 a b = (l, h)" by fastforce
  have "unat h * 2 ^ 64 + unat l = unat hi * 2 ^ 64 + unat lo"
    using mul128_correct [OF m] assms by simp
  then have "unat h = unat hi \<and> unat l = unat lo" by (rule two_words_unique) simp_all
  then show ?thesis using m by (simp add: word_unat_eq_iff)
qed

lemma half_mult_add:
  assumes "x < (2 :: nat) ^ 32" "y < 2 ^ 32" "c < 2 ^ 32"
  shows "x * y + c < 2 ^ 64"
proof -
  have "x * y \<le> (2 ^ 32 - 1) * (2 ^ 32 - 1)" using assms by (intro mult_le_mono) simp_all
  with assms show ?thesis by simp
qed

lemma unat_half_mult_add:
  fixes x y c :: u64
  assumes "unat x < 2 ^ 32" "unat y < 2 ^ 32" "unat c < 2 ^ 32"
  shows "unat (x * y + c) = unat x * unat y + unat c"
proof -
  have "unat (x * y) = unat x * unat y"
    using half_mult_add [OF assms(1,2), of 0] by (intro unat_mult_no_wrap) simp
  with half_mult_add [OF assms] show ?thesis by (subst unat_add_no_wrap) simp_all
qed

lemma portable_sum:
  fixes B :: nat
  assumes "al * bl = c0 * B + l1" "ah * bl + c0 = hh1 * B + hl1" "al * bh = c2 * B + l2"
    "ah * bh + c2 = hh2 * B + hl2" "hl1 + l2 = c4 * B + m4" "hh1 + hl2 + c4 = c5 * B + d3"
  shows "(ah * B + al) * (bh * B + bl) = ((hh2 + c5) * B + d3) * (B * B) + (m4 * B + l1)"
proof -
  have "(ah * B + al) * (bh * B + bl) + (c0 * B + c2 * (B * B)) =
      al * bl + (ah * bl + c0) * B + al * bh * B + (ah * bh + c2) * (B * B)"
    by (simp add: algebra_simps)
  also have "\<dots> = c0 * B + l1 + (hh1 * B + hl1) * B + (c2 * B + l2) * B + (hh2 * B + hl2) * (B * B)"
    unfolding assms(1-4) ..
  also have "\<dots> = c0 * B + c2 * (B * B) + (l1 + (hl1 + l2) * B + hh1 * (B * B) + hl2 * (B * B) + hh2 * (B * B * B))"
    by (simp add: algebra_simps)
  also have "l1 + (hl1 + l2) * B + hh1 * (B * B) + hl2 * (B * B) + hh2 * (B * B * B) =
     l1 + m4 * B + (hh1 + hl2 + c4) * (B * B) + hh2 * (B * B * B)"
    unfolding assms(5) by (simp add: algebra_simps)
  also have "\<dots> = ((hh2 + c5) * B + d3) * (B * B) + (m4 * B + l1)"
    unfolding assms(6) by (simp add: algebra_simps)
  finally show ?thesis by simp
qed

lemma mul_portable_eq: "mul_portable a b = mul a b"
proof -
  let ?B = "2 ^ 32 :: nat"
  let ?lo = "\<lambda>x :: u64. x AND 0xFFFFFFFF" and ?hi = "\<lambda>x :: u64. drop_bit 32 x"
  have lo: "unat (?lo x) < ?B" and hi: "unat (?hi x) < ?B" and split: "unat x = unat (?hi x) * ?B + unat (?lo x)"
    for x using unat_u64_lt [of x] by (simp_all add: low_half unat_drop_bit less_mult_imp_div_less)
  define r0 where "r0 = ?lo a * ?lo b"
  define r1 where "r1 = ?hi a * ?lo b + ?hi r0"
  define r2 where "r2 = ?lo a * ?hi b"
  define r3 where "r3 = ?hi a * ?hi b + ?hi r2"
  define r4 where "r4 = ?lo r1 + ?lo r2"
  define r5 where "r5 = ?hi r1 + ?lo r3 + ?hi r4"
  define r6 where "r6 = ?hi r3 + ?hi r5"
  have u0: "unat r0 = unat (?lo a) * unat (?lo b)" and u2: "unat r2 = unat (?lo a) * unat (?hi b)"
    using unat_half_mult_add [OF lo lo, of 0 a b] unat_half_mult_add [OF lo hi, of 0 a b] by (simp_all add: r0_def r2_def)
  have u1: "unat r1 = unat (?hi a) * unat (?lo b) + unat (?hi r0)"
    and u3: "unat r3 = unat (?hi a) * unat (?hi b) + unat (?hi r2)"
    unfolding r1_def r3_def by (rule unat_half_mult_add hi lo)+
  have u4: "unat r4 = unat (?lo r1) + unat (?lo r2)"
    unfolding r4_def using lo [of r1] lo [of r2] by (intro unat_add_no_wrap) simp
  have "unat (?hi r1 + ?lo r3) = unat (?hi r1) + unat (?lo r3)"
    using hi [of r1] lo [of r3] by (intro unat_add_no_wrap) simp
  then have u5: "unat r5 = unat (?hi r1) + unat (?lo r3) + unat (?hi r4)"
    unfolding r5_def using hi [of r1] lo [of r3] hi [of r4] by (subst unat_add_no_wrap) simp_all
  have u6: "unat r6 = unat (?hi r3) + unat (?hi r5)"
    unfolding r6_def using hi [of r3] hi [of r5] by (intro unat_add_no_wrap) simp
  have total: "unat a * unat b = (unat r6 * ?B + unat (?lo r5)) * (?B * ?B) + (unat (?lo r4) * ?B + unat (?lo r0))"
    unfolding split [of a] split [of b] u6
    by (rule portable_sum [where ?c0.0 = "unat (?hi r0)" and ?c2.0 = "unat (?hi r2)" and ?c4.0 = "unat (?hi r4)"
          and ?hh1.0 = "unat (?hi r1)" and ?hl1.0 = "unat (?lo r1)" and ?l2.0 = "unat (?lo r2)"
          and ?hl2.0 = "unat (?lo r3)"])
      (simp_all only: u0 [symmetric] u1 [symmetric] u2 [symmetric] u3 [symmetric]
        u4 [symmetric] u5 [symmetric] split [symmetric])
  have r6: "unat r6 < ?B"
  proof (rule ccontr)
    assume "\<not> unat r6 < ?B"
    then have "?B * ?B * (?B * ?B) \<le> unat r6 * ?B * (?B * ?B)" by simp
    also have "\<dots> \<le> unat a * unat b" unfolding total by (simp add: algebra_simps)
    also have "\<dots> < 2 ^ 64 * 2 ^ 64" by (intro mult_strict_mono) simp_all
    finally show False by simp
  qed
  have "unat (push_bit 32 r4 OR ?lo r0) = unat (?lo r4) * ?B + unat (?lo r0)"
  proof -
    have "unat (push_bit 32 r4) = take_bit LENGTH(64) (push_bit 32 (unat r4))"
      by (rule unsigned_push_bit_eq)
    then have "unat (push_bit 32 r4) = unat (?lo r4) * ?B"
      by (simp add: low_half push_bit_eq_mult [of 32 "unat r4"] take_bit_eq_mod mult_mod_left)
    then show ?thesis using unat_or_disjoint [OF lo, of r0 r4] by (simp add: or.commute)
  qed
  moreover have "unat (?lo r5 OR push_bit 32 r6) = unat r6 * ?B + unat (?lo r5)"
    using unat_or_disjoint [OF lo, of r5 r6] unat_push_bit_small [of r6 32] r6 by simp
  ultimately have "mul128 a b = (push_bit 32 r4 OR ?lo r0, ?lo r5 OR push_bit 32 r6)"
    using total by (intro mul_pairI) simp
  then show ?thesis
    by (simp only: mul_def mul_portable_def Let_def r6_def r5_def r4_def r3_def r2_def r1_def r0_def)
qed

section \<open>The hash test\<close>

lemma cadd_iff: "cadd a b \<longleftrightarrow> 2 ^ 64 \<le> unat a + unat b"
  by (simp add: cadd_def carry_iff)

lemma cadc_iff: "cadc a b c \<longleftrightarrow> 2 ^ 64 \<le> unat a + unat b + of_bool c"
proof (cases "unat a + unat b < 2 ^ 64")
  case True
  then have "unat (a + b) = unat a + unat b" by (intro unat_add_no_wrap) simp
  moreover have "a + b = - 1 \<longleftrightarrow> unat (a + b) = 2 ^ 64 - 1"
    by (simp add: word_unat_eq_iff unsigned_minus_1_eq_mask mask_eq_exp_minus_1)
  moreover have "\<not> a + b < a" using True by (simp add: carry_iff)
  ultimately show ?thesis using True by (auto simp: cadc_def)
next
  case False
  then show ?thesis by (simp add: cadc_def carry_iff)
qed

text \<open>The hash as the 256-bit little-endian number it stands for.\<close>

definition hash_number :: "blob \<Rightarrow> nat" where
  "hash_number hash = (\<Sum>i < 4. unat (hash_word hash i) * 2 ^ (64 * i))"

lemma carry_chain:
  fixes B :: nat
  assumes "0 < B" "l0 < B" "l1 < B" "l2 < B" "l3 < B" "h0 < B" "h1 < B" "h2 < B"
    and c1: "c1 \<longleftrightarrow> B \<le> h0 + l1" and c2: "c2 \<longleftrightarrow> B \<le> h1 + l2 + of_bool c1"
  shows "(h0 * B + l0) + (h1 * B + l1) * B + (h2 * B + l2) * B ^ 2 + (h3 * B + l3) * B ^ 3 < B ^ 4 \<longleftrightarrow>
    h3 = 0 \<and> h2 + l3 + of_bool c2 < B"
proof -
  define m1 where "m1 = h0 + l1 - of_bool c1 * B"
  define m2 where "m2 = h1 + l2 + of_bool c1 - of_bool c2 * B"
  have m1: "h0 + l1 = of_bool c1 * B + m1" "m1 < B" using assms by (auto simp: m1_def)
  have m2: "h1 + l2 + of_bool c1 = of_bool c2 * B + m2" "m2 < B" using assms by (auto simp: m2_def)
  have B4: "B ^ 4 = B * B ^ 3" by (simp add: eval_nat_numeral)
  define L where "L = l0 + m1 * B + m2 * B ^ 2"
  have "m2 * B ^ 2 + B ^ 2 \<le> B ^ 3" "m1 * B + B \<le> B ^ 2"
    using mult_le_mono1 [of "m2 + 1" B "B ^ 2"] mult_le_mono1 [of "m1 + 1" B B] m1 m2
    by (simp_all add: algebra_simps power2_eq_square power3_eq_cube)
  with \<open>l0 < B\<close> have L: "L < B ^ 3" unfolding L_def by linarith
  have "(h0 * B + l0) + (h1 * B + l1) * B + (h2 * B + l2) * B ^ 2 + (h3 * B + l3) * B ^ 3 =
      l0 + (h0 + l1) * B + (h1 + l2) * B ^ 2 + (h2 + l3 + h3 * B) * B ^ 3"
    by (simp add: algebra_simps power2_eq_square power3_eq_cube)
  also have "\<dots> = l0 + m1 * B + (h1 + l2 + of_bool c1) * B ^ 2 + (h2 + l3 + h3 * B) * B ^ 3"
    unfolding m1 by (simp add: algebra_simps power2_eq_square)
  also have "\<dots> = L + (h2 + l3 + of_bool c2 + h3 * B) * B ^ 3"
    unfolding m2 L_def by (simp add: algebra_simps power2_eq_square power3_eq_cube)
  also have "\<dots> < B ^ 4 \<longleftrightarrow> h2 + l3 + of_bool c2 + h3 * B < B"
  proof
    assume "L + (h2 + l3 + of_bool c2 + h3 * B) * B ^ 3 < B ^ 4"
    then have "(h2 + l3 + of_bool c2 + h3 * B) * B ^ 3 < B * B ^ 3"
      unfolding B4 by (rule le_less_trans [OF le_add2])
    then show "h2 + l3 + of_bool c2 + h3 * B < B" by (simp only: mult_less_cancel2)
  next
    assume "h2 + l3 + of_bool c2 + h3 * B < B"
    then have "(h2 + l3 + of_bool c2 + h3 * B + 1) * B ^ 3 \<le> B * B ^ 3" by (intro mult_le_mono1) simp
    then show "L + (h2 + l3 + of_bool c2 + h3 * B) * B ^ 3 < B ^ 4"
      using L unfolding B4 distrib_right [of _ 1] mult_1_left by linarith
  qed
  also have "\<dots> \<longleftrightarrow> h3 = 0 \<and> h2 + l3 + of_bool c2 < B" by (cases h3) auto
  finally show ?thesis .
qed

lemma sum4: "(\<Sum>i < 4. f i) = f 0 + f 1 + f 2 + (f 3 :: nat)" for f :: "nat \<Rightarrow> nat"
  by (simp add: eval_nat_numeral)

lemma check_hash_iff: "check_hash hash d \<longleftrightarrow> hash_number hash * unat d < 2 ^ 256"
proof -
  define h where "h i = hash_word hash i" for i
  obtain l0 h0 l1 h1 l2 h2 l3 h3 where m: "mul128 (h 0) d = (l0, h0)" "mul128 (h 1) d = (l1, h1)"
    "mul128 (h 2) d = (l2, h2)" "mul128 (h 3) d = (l3, h3)" by fastforce
  note p = m [THEN mul128_correct, symmetric]
  let ?c1 = "cadd h0 l1"
  let ?c2 = "cadc h1 l2 ?c1"
  have "hash_number hash * unat d = unat (h 0) * unat d + unat (h 1) * unat d * 2 ^ 64
      + unat (h 2) * unat d * (2 ^ 64) ^ 2 + unat (h 3) * unat d * (2 ^ 64) ^ 3"
    unfolding hash_number_def sum4 h_def by (simp add: algebra_simps)
  also have "\<dots> < (2 ^ 64) ^ 4 \<longleftrightarrow> unat h3 = 0 \<and> unat h2 + unat l3 + of_bool ?c2 < 2 ^ 64"
    unfolding p by (rule carry_chain) (simp_all add: cadd_iff cadc_iff)
  also have "\<dots> \<longleftrightarrow> check_hash hash d"
    using m by (auto simp: check_hash_def mul_def h_def cadc_iff unat_eq_0 not_le)
  finally show ?thesis by simp
qed

section \<open>The next difficulty\<close>

lemmas window_defs = DIFFICULTY_BLOCKS_COUNT_def DIFFICULTY_WINDOW_def DIFFICULTY_CUT_def

lemma cut_window_bounds:
  assumes "2 \<le> n" "n \<le> 29" "cut_window n = (b, e)"
  shows "b + 2 \<le> e" "e \<le> n" "b * 2 + 2 \<le> n" "n - b * 2 - 1 \<le> 16"
  using assms by (auto simp: cut_window_def window_defs Let_def split: if_splits)

lemma unat_avg_timespan:
  assumes "unat l \<le> 16"
  shows "unat (MAX_AVERAGE_TIMESPAN * l) = 360 * unat l" "unat (MIN_AVERAGE_TIMESPAN * l) = 2 * unat l"
  using assms
  by (simp_all add: unat_mult_no_wrap MAX_AVERAGE_TIMESPAN_def MIN_AVERAGE_TIMESPAN_def DIFFICULTY_TARGET_def
      unat_word_ariths unat_div)

lemma adjust_timespan_bounds:
  assumes "unat l \<le> 16"
  shows "2 * unat l \<le> unat (adjust_timespan t m l)" "unat (adjust_timespan t m l) \<le> 360 * unat l"
  by (simp_all add: adjust_timespan_def Let_def word_less_nat_alt unat_avg_timespan [OF assms])

text \<open>Rounded-up division as the code writes it.\<close>

lemma unat_div_up:
  fixes low a :: u64
  assumes "0 < unat a" "unat low + unat a \<le> 2 ^ 64"
  shows "unat ((low + a - 1) div max a 1) = (unat low + unat a - 1) div unat a"
proof -
  have "max a 1 = a" using assms(1) by (intro max_absorb1) (simp add: word_le_nat_alt)
  moreover have "unat (low + a - 1) = unat low + unat a - 1"
  proof -
    have "unat (a - 1) = unat a - 1" using assms(1) by (simp add: unat_sub word_le_nat_alt)
    moreover have "unat (low + (a - 1)) = unat low + unat (a - 1)"
      using assms calculation by (intro unat_add_no_wrap) simp
    ultimately show ?thesis using assms(1) by (simp add: add_diff_eq)
  qed
  ultimately show ?thesis by (simp add: unat_div)
qed

lemma div_up_bounds:
  fixes w a :: nat
  assumes "0 < a" "d = max 1 ((w + a - 1) div a)"
  shows "w \<le> d * a" "(d - 1) * a \<le> w"
proof -
  define q where "q = (w + a - 1) div a"
  have q: "q * a \<le> w + a - 1" "w + a - 1 < q * a + a"
    using assms(1) div_mult_mod_eq [of "w + a - 1" a] mod_less_divisor [of a "w + a - 1"]
    unfolding q_def by linarith+
  have "w \<le> q * a" using q assms(1) by linarith
  also have "\<dots> \<le> d * a" using assms(2) by (simp add: q_def)
  finally show "w \<le> d * a" .
  show "(d - 1) * a \<le> w"
  proof (cases "q = 0")
    case True
    then show ?thesis using assms(2) by (simp add: q_def)
  next
    case False
    then have "d = q" using assms(2) by (simp add: q_def)
    moreover have "(q - 1) * a = q * a - a" by (simp add: diff_mult_distrib)
    ultimately show ?thesis using q assms(1) by simp
  qed
qed

lemma next_difficulty_eq:
  assumes n: "length ts = n" "length cds = n" "2 \<le> n" "n \<le> 29"
    and w: "cut_window n = (b, e)" "cds ! b < cds ! (e - 1)"
    and W: "W = unat (cds ! (e - 1)) - unat (cds ! b)" "W * unat T + 5760 \<le> 2 ^ 64"
  obtains a d where "next_difficulty ts cds T = Some d" "2 * (n - b * 2 - 1) \<le> a" "a \<le> 360 * (n - b * 2 - 1)"
    "unat d = max 1 ((W * unat T + a - 1) div a)"
proof -
  note cut = cut_window_bounds [OF n(3,4) w(1)]
  define work where "work = cds ! (e - 1) - cds ! b"
  have work: "unat work = W" "work \<noteq> 0" 
    using w(2) unat_sub [OF less_imp_le [OF w(2)]] by (auto simp: work_def W)
  define sts where "sts = sort ts"
  define span where "span = (if sts ! (e - 1) - sts ! b = 0 then 1 else sts ! (e - 1) - sts ! b)"
  define L :: u64 where "L = of_nat (n - b * 2 - 1)"
  define adj where "adj = adjust_timespan span (timespan_median sts b) L"
  have L: "unat L = n - b * 2 - 1" unfolding L_def using n(4) by (subst unat_of_nat) simp
  then have adj: "2 * (n - b * 2 - 1) \<le> unat adj" "unat adj \<le> 360 * (n - b * 2 - 1)"
    using adjust_timespan_bounds [of L] cut unfolding adj_def by metis+
  define low :: u64 where "low = of_nat (W * unat T)"
  have low: "unat low = W * unat T" unfolding low_def using W(2) by (subst unat_of_nat) simp
  have mul: "mul work T = (low, 0)" unfolding mul_def by (rule mul_pairI) (simp add: low work)
  define d where "d = (low + adj - 1) div max adj 1"
  have d: "unat d = (W * unat T + unat adj - 1) div unat adj"
    unfolding d_def using adj cut W(2) by (subst unat_div_up) (simp_all add: low)
  have "next_difficulty ts cds T = Some (if d < 1 then 1 else d)"
    using n w cut work mul
    by (simp add: next_difficulty_def window_defs Let_def sts_def span_def L_def work_def adj_def d_def)
  moreover have "unat (if d < 1 then 1 else d) = max 1 (unat d)"
    by (simp add: word_less_nat_alt)
  ultimately show ?thesis using that adj d by metis
qed

lemma next_difficulty_take:
  assumes "length cds = length ts"
  shows "next_difficulty ts cds T = next_difficulty (take 29 ts) (take 29 cds) T"
proof (cases "29 < length ts")
  case True
  then have "resize 29 ts = take 29 ts" "resize 29 cds = take 29 cds" using assms by (simp_all add: resize_def)
  with True show ?thesis by (simp add: next_difficulty_def window_defs)
next
  case False
  with assms show ?thesis by simp
qed

lemma next_difficulty_overflow:
  assumes n: "length ts = n" "length cds = n" "2 \<le> n" "n \<le> 29"
    and w: "cut_window n = (b, e)" "cds ! b < cds ! (e - 1)"
    and W: "W = unat (cds ! (e - 1)) - unat (cds ! b)" "2 ^ 64 \<le> W * unat T"
  shows "next_difficulty ts cds T = Some 0"
proof -
  note cut = cut_window_bounds [OF n(3,4) w(1)]
  define work where "work = cds ! (e - 1) - cds ! b"
  have work: "unat work = W" "work \<noteq> 0"
    using w(2) unat_sub [OF less_imp_le [OF w(2)]] by (auto simp: work_def W)
  obtain lo hi where m: "mul work T = (lo, hi)" by fastforce
  have "hi \<noteq> 0"
  proof
    assume "hi = 0"
    then have "unat lo = W * unat T" using mul128_correct [OF m [unfolded mul_def]] work by simp
    with W(2) unat_lt_size [of lo] show False by simp
  qed
  with n w cut work(2) m show ?thesis
    by (simp add: next_difficulty_def window_defs Let_def work_def)
qed

section \<open>Properties\<close>


text \<open>The portable 64 by 64 bit multiplication computes the same two words as the one used on
x86-64, so the proof-of-work test does not depend on the platform.\<close>

lemma mul_portable_equiv: "mul_portable a b = mul a b"
  by (rule mul_portable_eq)



text \<open>The difficulty depends on the collection of timestamps in the window and not on their
order, so a block cannot change the result by swapping timestamps with its neighbours.\<close>

lemma next_difficulty_perm:
  assumes "mset ts = mset ts'" and "length ts \<le> DIFFICULTY_BLOCKS_COUNT"
  shows "next_difficulty ts cds T = next_difficulty ts' cds T"
proof -
  have "sort ts = sort ts'" using assms(1) by (metis properties_for_sort sorted_sort mset_sort)
  moreover have "length ts = length ts'" using assms(1) by (rule mset_eq_length)
  moreover from this assms(2) have "(DIFFICULTY_BLOCKS_COUNT < length ts) = False"
    "(DIFFICULTY_BLOCKS_COUNT < length ts') = False" by simp_all
  ultimately show ?thesis by (simp only: next_difficulty_def Let_def if_False prod.case)
qed

lemma next_difficulty_perm_witness:
  "next_difficulty [100, 160, 130] [5, 1005, 3005] 60 = next_difficulty [160, 130, 100] [5, 1005, 3005] 60"
  by (rule next_difficulty_perm) (simp_all add: window_defs)

text \<open>The rounding sum wraps when the work product is within one timespan of \<open>2 ^ 64\<close>: the difficulty
collapses to one instead of the zero that reports an overflow.\<close>

lemma next_difficulty_wraps: "next_difficulty [0, 60] [0, 307445734561825860] 60 = Some 1"
  by code_simp

end
