(* ===== verification/Serialization.thy ===== *)
theory Serialization
  imports Varint "HOL-Library.Monad_Syntax"
begin

text \<open>
  The binary archive: \<open>src/serialization/binary_archive.h\<close>, \<open>vector.h\<close>, \<open>string.h\<close>,
  \<open>crypto.h\<close> and the \<open>FIELD\<close> macros of \<open>serialization.h\<close>.

  A saving archive appends to the stream; a writer is a function to the bytes appended, \<open>None\<close> when
  the C++ writer returns \<open>false\<close>. A loading archive is the list of the bytes not yet read. Reading
  past the end clears \<open>good()\<close>, every macro tests it and every caller propagates the \<open>false\<close>, so
  a reader returns \<open>None\<close> there. The one exception is the varint: it is read through a stream-buffer
  iterator, which leaves \<open>good()\<close> alone, and its error code is dropped.
\<close>

section \<open>Definitions\<close>

text \<open>\<open>serialize_uint\<close>, little-endian, at the width of the word.\<close>

definition put_uint :: "'a::len word \<Rightarrow> byte list" where
  "put_uint v = le_bytes (LENGTH('a) div 8) v"

definition get_blob :: "nat \<Rightarrow> byte list \<Rightarrow> (byte list \<times> byte list) option" where
  "get_blob len bs = (if length bs < len then None else Some (take len bs, drop len bs))"

definition get_uint :: "byte list \<Rightarrow> ('a::len word \<times> byte list) option" where
  "get_uint bs = do { (b, bs) \<leftarrow> get_blob (LENGTH('a) div 8) bs; Some (le_word b, bs) }"

definition put_uvarint :: "'a::len word \<Rightarrow> byte list" where
  "put_uvarint v = get_varint_data v"

text \<open>The number of bytes or the error that \<open>read_varint\<close> returns is ignored.\<close>

definition get_uvarint :: "byte list \<Rightarrow> ('a::len word \<times> byte list) option" where
  "get_uvarint bs = (let (read, v, rest) = read_varint bs in Some (v, rest))"

text \<open>
  \<open>do_serialize\<close> of a vector. A vector of \<open>2 ^ 64\<close> elements does not exist on the targets.
\<close>

definition put_vector :: "('a \<Rightarrow> byte list option) \<Rightarrow> 'a list \<Rightarrow> byte list option" where
  "put_vector put v =
    (if length v < 2 ^ 64
     then do { es \<leftarrow> those (map put v); Some (put_uvarint (of_nat (length v) :: size_t) @ concat es) }
     else None)"

definition get_vector ::
  "(byte list \<Rightarrow> ('a \<times> byte list) option) \<Rightarrow> byte list \<Rightarrow> ('a list \<times> byte list) option" where
  "get_vector get bs =
    do { (cnt :: size_t, bs) \<leftarrow> get_uvarint bs;
         if length bs < unat cnt then None else get_n get (unat cnt) bs }"

text \<open>Elements of a fixed count whose size prefix is not written.\<close>

definition put_array :: "('a \<Rightarrow> 'b list option) \<Rightarrow> nat \<Rightarrow> 'a list \<Rightarrow> 'b list option" where
  "put_array put n v = (if length v = n then map_option concat (those (map put v)) else None)"

text \<open>\<open>do_serialize\<close> of a \<open>std::string\<close>.\<close>

definition put_string :: "byte list \<Rightarrow> byte list option" where
  "put_string s = (if length s < 2 ^ 64 then Some (put_uvarint (of_nat (length s) :: size_t) @ s) else None)"

definition get_string :: "byte list \<Rightarrow> (byte list \<times> byte list) option" where
  "get_string bs = do { (sz :: size_t, bs) \<leftarrow> get_uvarint bs; get_blob (unat sz) bs }"

text \<open>
  \<open>serialization::serialize\<close> at the top of a message: the whole input has to be consumed
  (\<open>check_stream_state\<close>).
\<close>

definition parse_binary :: "(byte list \<Rightarrow> ('a \<times> byte list) option) \<Rightarrow> byte list \<Rightarrow> 'a option" where
  "parse_binary get blob = (case get blob of Some (v, []) \<Rightarrow> Some v | _ \<Rightarrow> None)"

text \<open>Keys, hashes, key images and signatures are fixed-size blobs.\<close>

type_synonym key = "256 word"
type_synonym hash = "256 word"

record signature =
  sig_c :: key
  sig_r :: key

definition put_key :: "key \<Rightarrow> byte list" where
  "put_key k = put_uint k"

definition get_key :: "byte list \<Rightarrow> (key \<times> byte list) option" where
  "get_key bs = get_uint bs"

definition put_signature :: "signature \<Rightarrow> byte list" where
  "put_signature s = put_key (sig_c s) @ put_key (sig_r s)"

definition get_signature :: "byte list \<Rightarrow> (signature \<times> byte list) option" where
  "get_signature bs = do { (k, bs) \<leftarrow> get_key bs; (k', bs) \<leftarrow> get_key bs; Some (\<lparr>sig_c = k, sig_r = k'\<rparr>, bs) }"

lemma bind_SomeE:
  assumes "Option.bind x f = Some y"
  obtains z where "x = Some z" "f z = Some y"
  using assms by (auto simp: bind_eq_Some_conv)

section \<open>Every reader undoes its writer\<close>

lemma le_word_le_bytes: "unat (w :: 'a::len word) < 256 ^ n \<Longrightarrow> le_word (le_bytes n w) = w"
proof (induction n arbitrary: w)
  case (Suc n)
  have "unat (drop_bit 8 w) < 256 ^ n"
    using Suc.prems by (simp add: unat_drop_bit less_mult_imp_div_less mult.commute)
  then have "le_word (le_bytes n (drop_bit 8 w)) = drop_bit 8 w" by (rule Suc.IH)
  moreover have "ucast (ucast w :: byte) = take_bit 8 w"
    by (rule bit_word_eqI) (auto simp: bit_simps)
  moreover have "take_bit 8 w OR push_bit 8 (drop_bit 8 w) = w"
  proof (rule bit_word_eqI)
    fix i assume "i < LENGTH('a)"
    then show "bit (take_bit 8 w OR push_bit 8 (drop_bit 8 w)) i = bit w i"
      by (cases "i < 8") (simp_all add: bit_simps)
  qed
  ultimately show ?case by simp
qed (simp add: unat_eq_0)

lemma get_blob_append [simp]: "length b = n \<Longrightarrow> get_blob n (b @ bs) = Some (b, bs)"
  by (simp add: get_blob_def)

lemma get_uint_put [simp]:
  assumes "8 dvd LENGTH('a)"
  shows "get_uint (put_uint (v :: 'a::len word) @ bs) = Some (v, bs)"
proof -
  obtain k where k: "LENGTH('a) = 8 * k" using assms ..
  have "unat v < 2 ^ (8 * k)" using unat_lt_size [of v] unfolding k .
  then have "unat v < 256 ^ (LENGTH('a) div 8)" unfolding k power_mult by simp
  then show ?thesis by (simp add: get_uint_def put_uint_def le_word_le_bytes)
qed

lemma get_byte_Cons [simp]: "get_uint (b # bs) = Some (b :: byte, bs)"
  using get_uint_put [of b bs] by (simp add: put_uint_def)

lemma put_byte_nonempty [simp]: "put_uint (v :: byte) \<noteq> []"
  by (simp add: put_uint_def)

lemma get_uvarint_put [simp]: "get_uvarint (put_uvarint v @ bs) = Some (v, bs)"
  by (simp add: get_uvarint_def put_uvarint_def varint_roundtrip)

lemma put_uvarint_nonempty [simp]: "put_uvarint v \<noteq> []"
  unfolding put_uvarint_def get_varint_data_def by (subst write_varint.simps) simp

lemma get_key_put [simp]: "get_key (put_key k @ bs) = Some (k, bs)"
  by (simp add: get_key_def put_key_def)

lemma length_put_key [simp]: "length (put_key k) = 32"
  by (simp add: put_key_def put_uint_def)

lemma put_key_nonempty [simp]: "put_key k \<noteq> []"
  using length_put_key [of k] by (metis list.size(3) zero_neq_numeral)

lemma get_signature_put [simp]: "get_signature (put_signature s @ bs) = Some (s, bs)"
  by (simp add: get_signature_def put_signature_def)

lemma put_signature_nonempty [simp]: "put_signature s \<noteq> []"
  by (simp add: put_signature_def)

lemma get_string_put:
  assumes "put_string s = Some b"
  shows "get_string (b @ bs) = Some (s, bs)"
  using assms by (auto simp: put_string_def get_string_def unat_of_nat split: if_splits)

section \<open>Vectors and arrays\<close>

text \<open>An element of a vector: its bytes identify it and there is at least one.\<close>

locale archive_element = nonempty_codec put get
  for put :: "'a \<Rightarrow> byte list option" and get :: "byte list \<Rightarrow> ('a \<times> byte list) option"
begin

lemma get_vector_put:
  assumes "put_vector put v = Some b"
  shows "get_vector get (b @ rest) = Some (v, rest)"
proof -
  from assms obtain es where es: "those (map put v) = Some es" "length v < 2 ^ 64"
      and b: "b = put_uvarint (of_nat (length v) :: size_t) @ concat es"
    by (auto simp: put_vector_def bind_eq_Some_conv split: if_splits)
  have "unat (of_nat (length v) :: size_t) = length v" using es(2) by (simp add: unat_of_nat)
  moreover have "length v \<le> length (concat es)" by (rule length_put_list [OF es(1)])
  ultimately show ?thesis by (simp add: get_vector_def b get_n_put [OF es(1)])
qed

end

context prefix_codec
begin

lemma get_array_put:
  "put_array put n v = Some b \<Longrightarrow> get_n get n (b @ rest) = Some (v, rest)"
  by (auto simp: put_array_def get_n_put split: if_splits)

end

lemma put_vector_nonempty: "put_vector put v = Some b \<Longrightarrow> b \<noteq> []"
  by (auto simp: put_vector_def bind_eq_Some_conv split: if_splits)

interpretation byte_codec: archive_element "\<lambda>v :: byte. Some (put_uint v)" get_uint
  by unfold_locales auto

interpretation uvarint_codec: archive_element "\<lambda>v :: u64. Some (put_uvarint v)" get_uvarint
  by unfold_locales auto

interpretation key_codec: archive_element "\<lambda>k. Some (put_key k)" get_key
  by unfold_locales auto

interpretation signature_codec: archive_element "\<lambda>s. Some (put_signature s)" get_signature
  by unfold_locales auto

interpretation string_codec: archive_element put_string get_string
  by unfold_locales (auto simp: get_string_put put_string_def split: if_splits)

text \<open>Reading a whole message back.\<close>

lemma parse_binary_put:
  assumes "\<And>r. get (b @ r) = Some (x, r)"
  shows "parse_binary get b = Some x"
  using assms [of "[]"] by (simp add: parse_binary_def)

text \<open>
  Dropping the error code of \<open>read_varint\<close> lets non-canonical and missing integers through.
\<close>

lemma get_uvarint_lenient:
  "get_uvarint [] = Some (0 :: u64, [])"
  "get_uvarint [0x80, 0x00] = Some (0 :: u64, [])"
  by (simp_all add: get_uvarint_def read_varint_def read_varint_bits_def)

end
