(* ===== verification/Cryptonote_Basic.thy ===== *)
theory Cryptonote_Basic
  imports Serialization
begin

text \<open>
  The transaction and block types of \<open>src/cryptonote_core/cryptonote_basic.h\<close> with the RingCT
  signature containers of \<open>src/ringct/rctTypes.h\<close>, and their binary serialization.

  The fields \<open>message\<close>, \<open>mixRing\<close>, \<open>senderPk\<close>, \<open>II\<close> and the \<open>dest\<close> half of \<open>outPk\<close> are not carried by
  the archive (the code reconstructs them) and are not fields of the records. A reader fills a
  default-constructed transaction. The lemmas show that what is written is read back, up to the
  fields the chosen version and signature type leave out.
\<close>

section \<open>Data\<close>

record txout_to_script =
  script_keys :: "key list"
  script :: "byte list"

datatype txout_target_v =
    Txout_to_script txout_to_script
  | Txout_to_scripthash hash
  | Txout_to_key key

record tx_out =
  out_amount :: u64
  out_target :: txout_target_v

datatype txin_v =
    Txin_gen (gen_height: size_t)
  | Txin_to_script hash size_t "byte list"
  | Txin_to_scripthash hash size_t txout_to_script "byte list"
  | Txin_to_key (in_amount: u64) (key_offsets: "u64 list") (k_image: key)

record transaction_prefix =
  version :: size_t
  unlock_time :: u64
  vin :: "txin_v list"
  vout :: "tx_out list"
  extra :: "byte list"

record ecdhTuple =
  ecdh_mask :: key
  ecdh_amount :: key

record boroSig =
  boro_s0 :: "key list"
  boro_s1 :: "key list"
  boro_ee :: key

record rangeSig =
  asig :: boroSig
  range_Ci :: "key list"

record mgSig =
  mg_ss :: "key list list"
  mg_cc :: key

definition RCTTypeNull :: byte where
  "RCTTypeNull = 0"

definition RCTTypeFull :: byte where
  "RCTTypeFull = 1"

definition RCTTypeSimple :: byte where
  "RCTTypeSimple = 2"

record rctSigPrunable =
  rangeSigs :: "rangeSig list"
  MGs :: "mgSig list"

record rctSig =
  rct_type :: byte
  pseudoOuts :: "key list"
  ecdhInfo :: "ecdhTuple list"
  outPk :: "key list"
  txnFee :: u64
  prunable :: rctSigPrunable

definition rct_null :: rctSig where
  "rct_null = \<lparr>rct_type = RCTTypeNull, pseudoOuts = [], ecdhInfo = [], outPk = [], txnFee = 0,
    prunable = \<lparr>rangeSigs = [], MGs = []\<rparr>\<rparr>"

record transaction = transaction_prefix +
  signatures :: "signature list list"
  rct_signatures :: rctSig

record block_header =
  major_version :: u8
  minor_version :: u8
  timestamp :: u64
  prev_id :: hash
  nonce :: u32

record block = block_header +
  miner_tx :: transaction
  tx_hashes :: "hash list"

definition CURRENT_TRANSACTION_VERSION :: size_t where
  "CURRENT_TRANSACTION_VERSION = 2"

section \<open>Inputs and outputs\<close>

definition put_bytes :: "byte list \<Rightarrow> byte list option" where
  "put_bytes = put_vector (\<lambda>v :: byte. Some (put_uint v))"

definition get_bytes :: "byte list \<Rightarrow> (byte list \<times> byte list) option" where
  "get_bytes = get_vector get_uint"

definition put_keys :: "key list \<Rightarrow> byte list option" where
  "put_keys = put_vector (\<lambda>k. Some (put_key k))"

definition get_keys :: "byte list \<Rightarrow> (key list \<times> byte list) option" where
  "get_keys = get_vector get_key"

definition put_txout_to_script :: "txout_to_script \<Rightarrow> byte list option" where
  "put_txout_to_script s = do { a \<leftarrow> put_keys (script_keys s); b \<leftarrow> put_bytes (script s); Some (a @ b) }"

definition get_txout_to_script :: "byte list \<Rightarrow> (txout_to_script \<times> byte list) option" where
  "get_txout_to_script bs =
    do { (ks, bs) \<leftarrow> get_keys bs; (sc, bs) \<leftarrow> get_bytes bs; Some (\<lparr>script_keys = ks, script = sc\<rparr>, bs) }"

fun put_target :: "txout_target_v \<Rightarrow> byte list option" where
  "put_target (Txout_to_script s) = map_option (\<lambda>b. 0x0 # b) (put_txout_to_script s)"
| "put_target (Txout_to_scripthash h) = Some (0x1 # put_key h)"
| "put_target (Txout_to_key k) = Some (0x2 # put_key k)"

definition get_target :: "byte list \<Rightarrow> (txout_target_v \<times> byte list) option" where
  "get_target bs =
    do { (t :: byte, bs) \<leftarrow> get_uint bs;
         if t = 0x0 then do { (s, bs) \<leftarrow> get_txout_to_script bs; Some (Txout_to_script s, bs) }
         else if t = 0x1 then do { (h, bs) \<leftarrow> get_key bs; Some (Txout_to_scripthash h, bs) }
         else if t = 0x2 then do { (k, bs) \<leftarrow> get_key bs; Some (Txout_to_key k, bs) }
         else None }"

definition put_tx_out :: "tx_out \<Rightarrow> byte list option" where
  "put_tx_out out = do { b \<leftarrow> put_target (out_target out); Some (put_uvarint (out_amount out) @ b) }"

definition get_tx_out :: "byte list \<Rightarrow> (tx_out \<times> byte list) option" where
  "get_tx_out bs =
    do { (a, bs) \<leftarrow> get_uvarint bs; (t, bs) \<leftarrow> get_target bs; Some (\<lparr>out_amount = a, out_target = t\<rparr>, bs) }"

fun put_txin :: "txin_v \<Rightarrow> byte list option" where
  "put_txin (Txin_gen h) = Some (0xff # put_uvarint h)"
| "put_txin (Txin_to_script h n s) = do { b \<leftarrow> put_bytes s; Some (0x0 # put_key h @ put_uvarint n @ b) }"
| "put_txin (Txin_to_scripthash h n sc s) =
    do { a \<leftarrow> put_txout_to_script sc; b \<leftarrow> put_bytes s; Some (0x1 # put_key h @ put_uvarint n @ a @ b) }"
| "put_txin (Txin_to_key a offs k) =
    do { b \<leftarrow> put_vector (\<lambda>v. Some (put_uvarint v)) offs; Some (0x2 # put_uvarint a @ b @ put_key k) }"

definition get_txin :: "byte list \<Rightarrow> (txin_v \<times> byte list) option" where
  "get_txin bs =
    do { (t :: byte, bs) \<leftarrow> get_uint bs;
         if t = 0xff then do { (h, bs) \<leftarrow> get_uvarint bs; Some (Txin_gen h, bs) }
         else if t = 0x0 then
           do { (h, bs) \<leftarrow> get_key bs; (n, bs) \<leftarrow> get_uvarint bs; (s, bs) \<leftarrow> get_bytes bs;
                Some (Txin_to_script h n s, bs) }
         else if t = 0x1 then
           do { (h, bs) \<leftarrow> get_key bs; (n, bs) \<leftarrow> get_uvarint bs; (sc, bs) \<leftarrow> get_txout_to_script bs;
                (s, bs) \<leftarrow> get_bytes bs; Some (Txin_to_scripthash h n sc s, bs) }
         else if t = 0x2 then
           do { (a, bs) \<leftarrow> get_uvarint bs; (offs, bs) \<leftarrow> get_vector get_uvarint bs; (k, bs) \<leftarrow> get_key bs;
                Some (Txin_to_key a offs k, bs) }
         else None }"

section \<open>The transaction prefix\<close>

definition valid_version :: "size_t \<Rightarrow> bool" where
  "valid_version v \<longleftrightarrow> \<not> (v = 0 \<or> CURRENT_TRANSACTION_VERSION < v)"

definition put_transaction_prefix :: "('a) transaction_prefix_scheme \<Rightarrow> byte list option" where
  "put_transaction_prefix tx =
    (if \<not> valid_version (version tx) then None
     else do { i \<leftarrow> put_vector put_txin (vin tx); out \<leftarrow> put_vector put_tx_out (vout tx); e \<leftarrow> put_bytes (extra tx);
               Some (put_uvarint (version tx) @ put_uvarint (unlock_time tx) @ i @ out @ e) })"

definition get_transaction_prefix :: "byte list \<Rightarrow> (transaction_prefix \<times> byte list) option" where
  "get_transaction_prefix bs =
    do { (v, bs) \<leftarrow> get_uvarint bs;
         if \<not> valid_version v then None
         else do { (u, bs) \<leftarrow> get_uvarint bs; (i, bs) \<leftarrow> get_vector get_txin bs; (out, bs) \<leftarrow> get_vector get_tx_out bs;
                   (e, bs) \<leftarrow> get_bytes bs;
                   Some (\<lparr>version = v, unlock_time = u, vin = i, vout = out, extra = e\<rparr>, bs) } }"

section \<open>RingCT signatures\<close>

text \<open>A \<open>key64\<close> is an array of 64 keys.\<close>

definition put_key64 :: "key list \<Rightarrow> byte list option" where
  "put_key64 = put_array (\<lambda>k. Some (put_key k)) 64"

definition get_key64 :: "byte list \<Rightarrow> (key list \<times> byte list) option" where
  "get_key64 = get_n get_key 64"

definition put_boroSig :: "boroSig \<Rightarrow> byte list option" where
  "put_boroSig b = do { x \<leftarrow> put_key64 (boro_s0 b); y \<leftarrow> put_key64 (boro_s1 b); Some (x @ y @ put_key (boro_ee b)) }"

definition get_boroSig :: "byte list \<Rightarrow> (boroSig \<times> byte list) option" where
  "get_boroSig bs =
    do { (x, bs) \<leftarrow> get_key64 bs; (y, bs) \<leftarrow> get_key64 bs; (e, bs) \<leftarrow> get_key bs; Some (\<lparr>boro_s0 = x, boro_s1 = y, boro_ee = e\<rparr>, bs) }"

definition put_rangeSig :: "rangeSig \<Rightarrow> byte list option" where
  "put_rangeSig s = do { a \<leftarrow> put_boroSig (asig s); b \<leftarrow> put_key64 (range_Ci s); Some (a @ b) }"

definition get_rangeSig :: "byte list \<Rightarrow> (rangeSig \<times> byte list) option" where
  "get_rangeSig bs = do { (a, bs) \<leftarrow> get_boroSig bs; (c, bs) \<leftarrow> get_key64 bs; Some (\<lparr>asig = a, range_Ci = c\<rparr>, bs) }"

definition put_ecdhTuple :: "ecdhTuple \<Rightarrow> byte list" where
  "put_ecdhTuple e = put_key (ecdh_mask e) @ put_key (ecdh_amount e)"

definition get_ecdhTuple :: "byte list \<Rightarrow> (ecdhTuple \<times> byte list) option" where
  "get_ecdhTuple bs =
    do { (m, bs) \<leftarrow> get_key bs; (a, bs) \<leftarrow> get_key bs; Some (\<lparr>ecdh_mask = m, ecdh_amount = a\<rparr>, bs) }"

definition serialize_rctsig_base_put :: "rctSig \<Rightarrow> nat \<Rightarrow> nat \<Rightarrow> byte list option" where
  "serialize_rctsig_base_put rv inputs outputs =
    (if rct_type rv = RCTTypeNull then Some (put_uint (rct_type rv))
     else if rct_type rv \<noteq> RCTTypeFull \<and> rct_type rv \<noteq> RCTTypeSimple then None
     else do { po \<leftarrow> (if rct_type rv = RCTTypeSimple then put_array (\<lambda>k. Some (put_key k)) inputs (pseudoOuts rv) else Some []);
               ec \<leftarrow> put_array (\<lambda>e. Some (put_ecdhTuple e)) outputs (ecdhInfo rv);
               pk \<leftarrow> put_array (\<lambda>k. Some (put_key k)) outputs (outPk rv);
               Some (put_uint (rct_type rv) @ put_uvarint (txnFee rv) @ po @ ec @ pk) })"

definition serialize_rctsig_base_get :: "nat \<Rightarrow> nat \<Rightarrow> byte list \<Rightarrow> (rctSig \<times> byte list) option" where
  "serialize_rctsig_base_get inputs outputs bs =
    do { (t, bs) \<leftarrow> get_uint bs;
         if t = RCTTypeNull then Some (rct_null, bs)
         else if t \<noteq> RCTTypeFull \<and> t \<noteq> RCTTypeSimple then None
         else do { (fee, bs) \<leftarrow> get_uvarint bs;
                   (po, bs) \<leftarrow> (if t = RCTTypeSimple then get_n get_key inputs bs else Some ([], bs));
                   (ec, bs) \<leftarrow> get_n get_ecdhTuple outputs bs;
                   (pk, bs) \<leftarrow> get_n get_key outputs bs;
                   Some (rct_null\<lparr>rct_type := t, pseudoOuts := po, ecdhInfo := ec, outPk := pk, txnFee := fee\<rparr>, bs) } }"

definition mg_elements :: "byte \<Rightarrow> nat \<Rightarrow> nat" where
  "mg_elements t inputs = (if t = RCTTypeSimple then inputs else 1)"

definition mg_ss2_elements :: "byte \<Rightarrow> nat \<Rightarrow> nat" where
  "mg_ss2_elements t inputs = (if t = RCTTypeSimple then 1 else inputs) + 1"

definition put_mgSig :: "nat \<Rightarrow> nat \<Rightarrow> mgSig \<Rightarrow> byte list option" where
  "put_mgSig rows cols m =
    do { s \<leftarrow> put_array (put_array (\<lambda>k. Some (put_key k)) cols) rows (mg_ss m); Some (s @ put_key (mg_cc m)) }"

definition get_mgSig :: "nat \<Rightarrow> nat \<Rightarrow> byte list \<Rightarrow> (mgSig \<times> byte list) option" where
  "get_mgSig rows cols bs =
    do { (s, bs) \<leftarrow> get_n (get_n get_key cols) rows bs; (c, bs) \<leftarrow> get_key bs; Some (\<lparr>mg_ss = s, mg_cc = c\<rparr>, bs) }"

text \<open>\<open>mixin + 1\<close> is computed at the width of \<open>size_t\<close>.\<close>

definition serialize_rctsig_prunable_put :: "rctSigPrunable \<Rightarrow> byte \<Rightarrow> nat \<Rightarrow> nat \<Rightarrow> size_t \<Rightarrow> byte list option" where
  "serialize_rctsig_prunable_put p t inputs outputs mixin =
    (if t = RCTTypeNull then Some []
     else if t \<noteq> RCTTypeFull \<and> t \<noteq> RCTTypeSimple then None
     else do { rs \<leftarrow> put_array put_rangeSig outputs (rangeSigs p);
               ms \<leftarrow> put_array (put_mgSig (unat (mixin + 1)) (mg_ss2_elements t inputs)) (mg_elements t inputs) (MGs p);
               Some (rs @ ms) })"

definition serialize_rctsig_prunable_get :: "byte \<Rightarrow> nat \<Rightarrow> nat \<Rightarrow> size_t \<Rightarrow> byte list \<Rightarrow> (rctSigPrunable \<times> byte list) option" where
  "serialize_rctsig_prunable_get t inputs outputs mixin bs =
    (if t = RCTTypeNull then Some (\<lparr>rangeSigs = [], MGs = []\<rparr>, bs)
     else if t \<noteq> RCTTypeFull \<and> t \<noteq> RCTTypeSimple then None
     else do { (rs, bs) \<leftarrow> get_n get_rangeSig outputs bs;
               (ms, bs) \<leftarrow> get_n (get_mgSig (unat (mixin + 1)) (mg_ss2_elements t inputs)) (mg_elements t inputs) bs;
               Some (\<lparr>rangeSigs = rs, MGs = ms\<rparr>, bs) })"

section \<open>Transactions\<close>

fun get_signature_size :: "txin_v \<Rightarrow> nat" where
  "get_signature_size (Txin_to_key a offs k) = length offs"
| "get_signature_size _ = 0"

definition tx_mixin :: "txin_v list \<Rightarrow> size_t" where
  "tx_mixin ins = (case ins of Txin_to_key a offs k # _ \<Rightarrow> of_nat (length offs) - 1 | _ \<Rightarrow> 0)"

definition put_tx_signatures :: "txin_v list \<Rightarrow> signature list list \<Rightarrow> byte list option" where
  "put_tx_signatures ins sigs =
    (if sigs = [] then (if \<forall>i \<in> set ins. get_signature_size i = 0 then Some [] else None)
     else if length ins \<noteq> length sigs then None
     else map_option concat (those (map (\<lambda>(i, s). put_array (\<lambda>x. Some (put_signature x)) (get_signature_size i) s) (zip ins sigs))))"

fun get_tx_signatures :: "txin_v list \<Rightarrow> byte list \<Rightarrow> (signature list list \<times> byte list) option" where
  "get_tx_signatures [] bs = Some ([], bs)"
| "get_tx_signatures (i # ins) bs =
    do { (s, bs) \<leftarrow> get_n get_signature (get_signature_size i) bs; (sigs, bs) \<leftarrow> get_tx_signatures ins bs; Some (s # sigs, bs) }"

definition put_tx_rct :: "txin_v list \<Rightarrow> nat \<Rightarrow> rctSig \<Rightarrow> byte list option" where
  "put_tx_rct ins outputs rv =
    (if ins = [] then Some []
     else do { a \<leftarrow> serialize_rctsig_base_put rv (length ins) outputs;
               b \<leftarrow> (if rct_type rv \<noteq> RCTTypeNull
                    then serialize_rctsig_prunable_put (prunable rv) (rct_type rv) (length ins) outputs (tx_mixin ins)
                    else Some []);
               Some (a @ b) })"

definition get_tx_rct :: "txin_v list \<Rightarrow> nat \<Rightarrow> byte list \<Rightarrow> (rctSig \<times> byte list) option" where
  "get_tx_rct ins outputs bs =
    (if ins = [] then Some (rct_null, bs)
     else do { (rv, bs) \<leftarrow> serialize_rctsig_base_get (length ins) outputs bs;
               if rct_type rv \<noteq> RCTTypeNull
               then do { (p, bs) \<leftarrow> serialize_rctsig_prunable_get (rct_type rv) (length ins) outputs (tx_mixin ins) bs;
                         Some (rv\<lparr>prunable := p\<rparr>, bs) }
               else Some (rv, bs) })"

definition put_transaction :: "transaction \<Rightarrow> byte list option" where
  "put_transaction tx =
    do { p \<leftarrow> put_transaction_prefix tx;
         s \<leftarrow> (if version tx = 1 then put_tx_signatures (vin tx) (signatures tx)
              else put_tx_rct (vin tx) (length (vout tx)) (rct_signatures tx));
         Some (p @ s) }"

definition get_transaction :: "byte list \<Rightarrow> (transaction \<times> byte list) option" where
  "get_transaction bs =
    do { (p, bs) \<leftarrow> get_transaction_prefix bs;
         if version p = 1
         then do { (sigs, bs) \<leftarrow> get_tx_signatures (vin p) bs;
                   Some (transaction_prefix.extend p \<lparr>signatures = sigs, rct_signatures = rct_null\<rparr>, bs) }
         else do { (rv, bs) \<leftarrow> get_tx_rct (vin p) (length (vout p)) bs;
                   Some (transaction_prefix.extend p \<lparr>signatures = [], rct_signatures = rv\<rparr>, bs) } }"

section \<open>Blocks\<close>

definition put_block_header :: "('a) block_header_scheme \<Rightarrow> byte list" where
  "put_block_header b = put_uvarint (major_version b) @ put_uvarint (minor_version b) @ put_uvarint (timestamp b) @
    put_key (prev_id b) @ put_uint (nonce b)"

definition get_block_header :: "byte list \<Rightarrow> (block_header \<times> byte list) option" where
  "get_block_header bs =
    do { (ma, bs) \<leftarrow> get_uvarint bs; (mi, bs) \<leftarrow> get_uvarint bs; (t, bs) \<leftarrow> get_uvarint bs;
         (p, bs) \<leftarrow> get_key bs; (n, bs) \<leftarrow> get_uint bs;
         Some (\<lparr>major_version = ma, minor_version = mi, timestamp = t, prev_id = p, nonce = n\<rparr>, bs) }"

definition put_block :: "block \<Rightarrow> byte list option" where
  "put_block b = do { t \<leftarrow> put_transaction (miner_tx b); h \<leftarrow> put_keys (tx_hashes b); Some (put_block_header b @ t @ h) }"

definition get_block :: "byte list \<Rightarrow> (block \<times> byte list) option" where
  "get_block bs =
    do { (h, bs) \<leftarrow> get_block_header bs; (t, bs) \<leftarrow> get_transaction bs; (hs, bs) \<leftarrow> get_keys bs;
         Some (block_header.extend h \<lparr>miner_tx = t, tx_hashes = hs\<rparr>, bs) }"

section \<open>What is written is read back\<close>

lemmas bytes_defs = put_bytes_def get_bytes_def put_keys_def get_keys_def

lemma get_bytes_put: "put_bytes v = Some b \<Longrightarrow> get_bytes (b @ r) = Some (v, r)"
  by (simp add: bytes_defs byte_codec.get_vector_put)

lemma get_keys_put: "put_keys v = Some b \<Longrightarrow> get_keys (b @ r) = Some (v, r)"
  by (simp add: bytes_defs key_codec.get_vector_put)

lemma get_txout_to_script_put:
  "put_txout_to_script s = Some b \<Longrightarrow> get_txout_to_script (b @ r) = Some (s, r)"
  by (auto simp: put_txout_to_script_def get_txout_to_script_def get_keys_put get_bytes_put elim!: bind_SomeE)

interpretation target_codec: archive_element put_target get_target
proof
  fix x b r
  assume "put_target x = Some b"
  then show "get_target (b @ r) = Some (x, r)" "b \<noteq> []"
    by (cases x; auto simp: get_target_def get_txout_to_script_put)+
qed

interpretation tx_out_codec: archive_element put_tx_out get_tx_out
  by unfold_locales (auto simp: put_tx_out_def get_tx_out_def target_codec.get_put elim!: bind_SomeE)

interpretation txin_codec: archive_element put_txin get_txin
proof
  fix x b r
  assume "put_txin x = Some b"
  then show "get_txin (b @ r) = Some (x, r)" "b \<noteq> []"
    by (cases x; auto simp: get_txin_def get_bytes_put get_txout_to_script_put
        uvarint_codec.get_vector_put elim!: bind_SomeE)+
qed

lemma get_transaction_prefix_put:
  assumes "put_transaction_prefix tx = Some b"
  shows "get_transaction_prefix (b @ r) = Some (transaction_prefix.truncate tx, r)"
  using assms
  by (auto simp: put_transaction_prefix_def get_transaction_prefix_def
      transaction_prefix.truncate_def txin_codec.get_vector_put tx_out_codec.get_vector_put get_bytes_put
      elim!: bind_SomeE split: if_splits)

interpretation key_row: prefix_codec "put_array (\<lambda>k. Some (put_key k)) n" "get_n get_key n" for n
  by unfold_locales (rule key_codec.get_array_put)

interpretation boroSig_codec: prefix_codec put_boroSig get_boroSig
  by unfold_locales (auto simp: put_boroSig_def get_boroSig_def put_key64_def get_key64_def
      key_codec.get_array_put elim!: bind_SomeE)

interpretation rangeSig_codec: prefix_codec put_rangeSig get_rangeSig
  by unfold_locales (auto simp: put_rangeSig_def get_rangeSig_def put_key64_def get_key64_def
      key_codec.get_array_put boroSig_codec.get_put elim!: bind_SomeE)

interpretation ecdhTuple_codec: prefix_codec "\<lambda>e. Some (put_ecdhTuple e)" get_ecdhTuple
  by unfold_locales (auto simp: put_ecdhTuple_def get_ecdhTuple_def)

interpretation mgSig_codec: prefix_codec "put_mgSig rows cols" "get_mgSig rows cols" for rows cols
  by unfold_locales (auto simp: put_mgSig_def get_mgSig_def key_row.get_array_put elim!: bind_SomeE)

text \<open>The part of the signatures that the archive carries.\<close>

definition archived_rct :: "rctSig \<Rightarrow> rctSig" where
  "archived_rct rv =
    (if rct_type rv = RCTTypeNull then rct_null
     else if rct_type rv = RCTTypeFull then rv\<lparr>pseudoOuts := []\<rparr> else rv)"

definition archived :: "transaction \<Rightarrow> transaction" where
  "archived tx =
    (if version tx = 1
     then tx\<lparr>signatures := (if signatures tx = [] then replicate (length (vin tx)) [] else signatures tx),
             rct_signatures := rct_null\<rparr>
     else tx\<lparr>signatures := [],
             rct_signatures := (if vin tx = [] then rct_null else archived_rct (rct_signatures tx))\<rparr>)"

lemmas rct_type_defs = RCTTypeNull_def RCTTypeFull_def RCTTypeSimple_def

lemma rctsig_base_put:
  assumes "serialize_rctsig_base_put rv i n = Some b"
  shows "serialize_rctsig_base_get i n (b @ r) = Some ((archived_rct rv)\<lparr>prunable := prunable rct_null\<rparr>, r)"
  using assms
  by (auto simp: serialize_rctsig_base_put_def serialize_rctsig_base_get_def archived_rct_def
      rct_type_defs rct_null_def key_codec.get_array_put ecdhTuple_codec.get_array_put elim!: bind_SomeE split: if_splits)

lemma rctsig_prunable_put:
  assumes "serialize_rctsig_prunable_put p t i n m = Some b" and "t \<noteq> RCTTypeNull"
  shows "serialize_rctsig_prunable_get t i n m (b @ r) = Some (p, r)"
  using assms
  by (auto simp: serialize_rctsig_prunable_put_def serialize_rctsig_prunable_get_def
      rangeSig_codec.get_array_put mgSig_codec.get_array_put elim!: bind_SomeE split: if_splits)

lemma get_tx_rct_put:
  assumes "put_tx_rct ins n rv = Some b"
  shows "get_tx_rct ins n (b @ r) = Some (if ins = [] then rct_null else archived_rct rv, r)"
  using assms
  by (auto simp: put_tx_rct_def get_tx_rct_def rctsig_base_put rctsig_prunable_put archived_rct_def
      elim!: bind_SomeE split: if_splits) (auto simp: rct_null_def)

lemma get_tx_signatures_none:
  "\<forall>i \<in> set ins. get_signature_size i = 0 \<Longrightarrow> get_tx_signatures ins r = Some (replicate (length ins) [], r)"
  by (induction ins) auto

lemma get_tx_signatures_some:
  assumes "length ins = length sigs"
    "those (map (\<lambda>(i, s). put_array (\<lambda>x. Some (put_signature x)) (get_signature_size i) s) (zip ins sigs)) = Some bss"
  shows "get_tx_signatures ins (concat bss @ r) = Some (sigs, r)"
  using assms
  by (induction ins sigs arbitrary: bss rule: list_induct2)
    (auto simp: signature_codec.get_array_put split: option.splits)

lemma get_tx_signatures_put:
  assumes "put_tx_signatures ins sigs = Some b"
  shows "get_tx_signatures ins (b @ r) = Some (if sigs = [] then replicate (length ins) [] else sigs, r)"
  using assms
  by (auto simp: put_tx_signatures_def get_tx_signatures_none get_tx_signatures_some split: if_splits)

lemma get_transaction_put:
  assumes "put_transaction tx = Some b"
  shows "get_transaction (b @ r) = Some (archived tx, r)"
  using assms
  by (auto simp: put_transaction_def get_transaction_def get_transaction_prefix_put
      get_tx_signatures_put get_tx_rct_put archived_def transaction_prefix.truncate_def transaction_prefix.extend_def
      elim!: bind_SomeE split: if_splits)
    (simp add: put_tx_signatures_def)

definition archived_block :: "block \<Rightarrow> block" where
  "archived_block b = b\<lparr>miner_tx := archived (miner_tx b)\<rparr>"

lemma get_block_put:
  assumes "put_block b = Some bs"
  shows "get_block (bs @ r) = Some (archived_block b, r)"
  using assms
  by (auto simp: put_block_def get_block_def put_block_header_def get_block_header_def
      get_transaction_put get_keys_put archived_block_def block_header.extend_def elim!: bind_SomeE)


lemma rctsig_base_archived:
  "serialize_rctsig_base_put (archived_rct rv) i n = serialize_rctsig_base_put rv i n"
  by (auto simp: serialize_rctsig_base_put_def archived_rct_def rct_null_def rct_type_defs)

lemma those_no_signatures:
  "\<forall>i \<in> set ins. get_signature_size i = 0 \<Longrightarrow>
   those (map (\<lambda>(i, s). put_array (\<lambda>x. Some (put_signature x)) (get_signature_size i) s)
     (zip ins (replicate (length ins) []))) = Some (replicate (length ins) [])"
  by (induction ins) (auto simp: put_array_def)

text \<open>The signature data that the format leaves out does not change the bytes.\<close>

lemma put_transaction_archived:
  assumes "put_transaction tx = Some b"
  shows "put_transaction (archived tx) = Some b"
proof -
  have "put_transaction_prefix (archived tx) = put_transaction_prefix tx"
    by (simp add: put_transaction_prefix_def archived_def)
  moreover have "put_tx_signatures (vin tx) (if signatures tx = [] then replicate (length (vin tx)) [] else signatures tx)
      = put_tx_signatures (vin tx) (signatures tx)"
    if "put_tx_signatures (vin tx) (signatures tx) \<noteq> None"
  proof (cases "signatures tx = []")
    case True
    with that have "\<forall>i \<in> set (vin tx). get_signature_size i = 0"
      by (auto simp: put_tx_signatures_def split: if_splits)
    with True show ?thesis by (simp add: put_tx_signatures_def those_no_signatures)
  qed simp
  moreover have "put_tx_rct (vin tx) n (if vin tx = [] then rct_null else archived_rct rv) = put_tx_rct (vin tx) n rv" for n rv
    unfolding put_tx_rct_def rctsig_base_archived
    by (auto simp: archived_rct_def rct_null_def serialize_rctsig_base_put_def rct_type_defs)
  ultimately show ?thesis
    using assms by (auto simp: put_transaction_def archived_def elim!: bind_SomeE split: if_splits)
qed

end
