(* ===== verification/Amounts.thy ===== *)
theory Amounts
  imports Cryptonote_Basic
begin

text \<open>
  Amounts: \<open>src/cryptonote_core/cryptonote_format_utils.cpp\<close> and \<open>.h\<close> as far as they compute
  with amounts, offsets and their texts. Decomposition into decimal digits with a dust threshold, the table
  of valid denominations, the overflow checks of inputs and outputs, the delta coding of key offsets,
  printing and parsing of amounts, and the normal form of aliases.

  The lemmas show that a decomposition is complete and consists of valid denominations, that the overflow
  checks are exact, and that the two pairs of conversions are inverse to each other.
\<close>

section \<open>Decomposition\<close>

text \<open>The calls of the two handlers, in their order.\<close>

datatype handler_call = Chunk u64 | Dust u64

fun call_amount :: "handler_call \<Rightarrow> u64" where
  "call_amount (Chunk a) = a"
| "call_amount (Dust a) = a"

function decompose_loop :: "u64 \<Rightarrow> u64 \<Rightarrow> bool \<Rightarrow> u64 \<Rightarrow> u64 \<Rightarrow> handler_call list" where
  "decompose_loop amount dust_threshold is_dust_handled dust order =
    (if 0 \<noteq> amount then
       let chunk = (amount mod 10) * order;
           amount = amount div 10;
           order = order * 10
       in if dust + chunk \<le> dust_threshold
          then decompose_loop amount dust_threshold is_dust_handled (dust + chunk) order
          else
            (if \<not> is_dust_handled \<and> 0 \<noteq> dust then [Dust dust] else []) @
            (if 0 \<noteq> chunk then [Chunk chunk] else []) @
            decompose_loop amount dust_threshold (is_dust_handled \<or> 0 \<noteq> dust) dust order
     else if \<not> is_dust_handled \<and> 0 \<noteq> dust then [Dust dust] else [])"
  by pat_completeness auto
termination
proof (relation "measure (\<lambda>(amount, _). unat amount)", goal_cases)
  case (2 amount)
  then show ?case by (simp add: unat_div unat_gt_0 div_less_dividend)
next
  case (3 amount)
  then show ?case by (simp add: unat_div unat_gt_0 div_less_dividend)
qed simp

declare decompose_loop.simps [simp del]

definition decompose_amount_into_digits :: "u64 \<Rightarrow> u64 \<Rightarrow> handler_call list" where
  "decompose_amount_into_digits amount dust_threshold =
    (if 0 = amount then [] else decompose_loop amount dust_threshold False 0 1)"

definition valid_decomposed_outputs :: "u64 list" where
  "valid_decomposed_outputs = [
    1, 2, 3, 4, 5, 6, 7, 8, 9,
    10, 20, 30, 40, 50, 60, 70, 80, 90,
    100, 200, 300, 400, 500, 600, 700, 800, 900,
    1000, 2000, 3000, 4000, 5000, 6000, 7000, 8000, 9000,
    10000, 20000, 30000, 40000, 50000, 60000, 70000, 80000, 90000,
    100000, 200000, 300000, 400000, 500000, 600000, 700000, 800000, 900000,
    1000000, 2000000, 3000000, 4000000, 5000000, 6000000, 7000000, 8000000, 9000000,
    10000000, 20000000, 30000000, 40000000, 50000000, 60000000, 70000000, 80000000, 90000000,
    100000000, 200000000, 300000000, 400000000, 500000000, 600000000, 700000000, 800000000, 900000000,
    1000000000, 2000000000, 3000000000, 4000000000, 5000000000, 6000000000, 7000000000, 8000000000, 9000000000,
    10000000000, 20000000000, 30000000000, 40000000000, 50000000000, 60000000000, 70000000000, 80000000000, 90000000000,
    100000000000, 200000000000, 300000000000, 400000000000, 500000000000, 600000000000, 700000000000, 800000000000, 900000000000,
    1000000000000, 2000000000000, 3000000000000, 4000000000000, 5000000000000, 6000000000000, 7000000000000, 8000000000000, 9000000000000,
    10000000000000, 20000000000000, 30000000000000, 40000000000000, 50000000000000, 60000000000000, 70000000000000, 80000000000000, 90000000000000,
    100000000000000, 200000000000000, 300000000000000, 400000000000000, 500000000000000, 600000000000000, 700000000000000, 800000000000000, 900000000000000,
    1000000000000000, 2000000000000000, 3000000000000000, 4000000000000000, 5000000000000000, 6000000000000000, 7000000000000000, 8000000000000000, 9000000000000000,
    10000000000000000, 20000000000000000, 30000000000000000, 40000000000000000, 50000000000000000, 60000000000000000, 70000000000000000, 80000000000000000, 90000000000000000,
    100000000000000000, 200000000000000000, 300000000000000000, 400000000000000000, 500000000000000000, 600000000000000000, 700000000000000000, 800000000000000000, 900000000000000000,
    1000000000000000000, 2000000000000000000, 3000000000000000000, 4000000000000000000, 5000000000000000000, 6000000000000000000, 7000000000000000000, 8000000000000000000, 9000000000000000000,
    10000000000000000000]"

text \<open>\<open>std::binary_search\<close> on the table, which is sorted.\<close>

definition is_valid_decomposed_amount :: "u64 \<Rightarrow> bool" where
  "is_valid_decomposed_amount amount \<longleftrightarrow> amount \<in> set valid_decomposed_outputs"

function power_integral_loop :: "u64 \<Rightarrow> u64 \<Rightarrow> u64 \<Rightarrow> u64 \<Rightarrow> u64" where
  "power_integral_loop a b i tot =
    (if i \<noteq> b then power_integral_loop a b (i + 1) (tot * a) else tot)"
  by pat_completeness auto
termination
proof (relation "measure (\<lambda>(a, b, i, tot). unat (b - i))", goal_cases)
  case (2 a b i tot)
  then have "b - i \<noteq> 0" by simp
  then have "unat (b - i - 1) < unat (b - i)" by (rule measure_unat)
  then show ?case by (simp add: algebra_simps)
qed simp

declare power_integral_loop.simps [simp del]

definition power_integral :: "u64 \<Rightarrow> u64 \<Rightarrow> u64" where
  "power_integral a b = (if b = 0 then 1 else power_integral_loop a b 1 a)"

section \<open>Sums\<close>

fun check_outs_overflow_loop :: "u64 \<Rightarrow> tx_out list \<Rightarrow> bool" where
  "check_outs_overflow_loop money [] = True"
| "check_outs_overflow_loop money (out # outs) =
    (if out_amount out + money < money then False else check_outs_overflow_loop (money + out_amount out) outs)"

definition check_outs_overflow :: "'a transaction_prefix_scheme \<Rightarrow> bool" where
  "check_outs_overflow tx = check_outs_overflow_loop 0 (vout tx)"

fun check_inputs_overflow_loop :: "u64 \<Rightarrow> txin_v list \<Rightarrow> bool" where
  "check_inputs_overflow_loop money [] = True"
| "check_inputs_overflow_loop money (Txin_to_key amount offs k # ins) =
    (if amount + money < money then False else check_inputs_overflow_loop (money + amount) ins)"
| "check_inputs_overflow_loop money (_ # ins) = False"

definition check_inputs_overflow :: "'a transaction_prefix_scheme \<Rightarrow> bool" where
  "check_inputs_overflow tx = check_inputs_overflow_loop 0 (vin tx)"

definition check_money_overflow :: "'a transaction_prefix_scheme \<Rightarrow> bool" where
  "check_money_overflow tx \<longleftrightarrow> check_inputs_overflow tx \<and> check_outs_overflow tx"

fun get_inputs_money_loop :: "u64 \<Rightarrow> txin_v list \<Rightarrow> u64 option" where
  "get_inputs_money_loop money [] = Some money"
| "get_inputs_money_loop money (Txin_to_key amount offs k # ins) = get_inputs_money_loop (money + amount) ins"
| "get_inputs_money_loop money (_ # ins) = None"

definition get_inputs_money_amount :: "'a transaction_prefix_scheme \<Rightarrow> u64 option" where
  "get_inputs_money_amount tx = get_inputs_money_loop 0 (vin tx)"

definition get_outs_money_amount :: "'a transaction_prefix_scheme \<Rightarrow> u64" where
  "get_outs_money_amount tx = foldl (\<lambda>outputs_amount out. outputs_amount + out_amount out) 0 (vout tx)"

definition get_tx_fee :: "transaction \<Rightarrow> u64" where
  "get_tx_fee tx = txnFee (rct_signatures tx)"

section \<open>Offsets\<close>

definition relative_output_offsets_to_absolute :: "u64 list \<Rightarrow> u64 list" where
  "relative_output_offsets_to_absolute off =
    fold (\<lambda>i res. res[i := res ! i + res ! (i - 1)]) [1..<length off] off"

definition absolute_output_offsets_to_relative :: "u64 list \<Rightarrow> u64 list" where
  "absolute_output_offsets_to_relative off =
    (if off = [] then off
     else
       let res = sort off
       in fold (\<lambda>i res. res[i := res ! i - res ! (i - 1)]) (rev [1..<length res]) res)"

section \<open>Decomposition is complete\<close>

lemma decompose_step_bounds:
  assumes "unat (amount :: u64) \<noteq> 0" and "unat order = 10 ^ k" and "unat amount * 10 ^ k + d < 2 ^ 64"
  shows "unat ((amount mod 10) * order) = unat amount mod 10 * 10 ^ k"
    and "unat amount div 10 * 10 ^ Suc k + unat amount mod 10 * 10 ^ k = unat amount * 10 ^ k"
    and "unat amount div 10 \<noteq> 0 \<Longrightarrow> unat (order * 10) = 10 ^ Suc k"
proof -
  define q r where "q = unat amount div 10" and "r = unat amount mod 10"
  have "unat amount = 10 * q + r" by (simp add: q_def r_def)
  then have "unat amount * 10 ^ k = q * 10 ^ Suc k + r * 10 ^ k" by (simp add: distrib_right)
  then show eq: "unat amount div 10 * 10 ^ Suc k + unat amount mod 10 * 10 ^ k = unat amount * 10 ^ k"
    by (simp add: q_def r_def)
  have "unat amount mod 10 * 10 ^ k < 2 ^ LENGTH(64)" using eq assms(3) by simp
  then show "unat ((amount mod 10) * order) = unat amount mod 10 * 10 ^ k"
    using assms(2) by (subst unat_mult_no_wrap) (simp_all add: unat_mod)
  assume "unat amount div 10 \<noteq> 0"
  then have "10 ^ Suc k \<le> unat amount div 10 * 10 ^ Suc k" by simp
  also have "\<dots> < 2 ^ 64" using eq assms(3) by linarith
  finally have "10 ^ Suc k < (2 :: nat) ^ LENGTH(64)" by simp
  then show "unat (order * 10) = 10 ^ Suc k"
    using assms(2) by (subst unat_mult_no_wrap) (simp_all add: mult.commute)
qed


text \<open>What the calls sum up to, over the naturals.\<close>

abbreviation calls_sum :: "handler_call list \<Rightarrow> nat" where
  "calls_sum cs \<equiv> (\<Sum>c\<leftarrow>cs. unat (call_amount c))"

lemma decompose_loop_sum:
  assumes "unat amount \<noteq> 0 \<Longrightarrow> unat order = 10 ^ k"
    and "unat amount * 10 ^ k + unat dust < 2 ^ 64"
    and "handled \<Longrightarrow> unat thr < unat dust + 10 ^ k"
  shows "calls_sum (decompose_loop amount thr handled dust order) =
    unat amount * 10 ^ k + (if handled then 0 else unat dust)"
  using assms
proof (induction amount thr handled dust order arbitrary: k rule: decompose_loop.induct)
  case (1 amount thr handled dust order)
  note IH1 = "1.IH"(1) [OF _ refl refl refl, where k = "Suc k"]
  note IH2 = "1.IH"(2) [OF _ refl refl refl, where k = "Suc k"]
  show ?case
  proof (cases "amount = 0")
    case True
    then show ?thesis by (subst decompose_loop.simps) simp
  next
    case False
    then have nz: "unat amount \<noteq> 0" by (simp add: unat_eq_0)
    define chunk where "chunk = (amount mod 10) * order"
    have chunk: "unat chunk = unat amount mod 10 * 10 ^ k"
      and rest: "unat amount div 10 * 10 ^ Suc k + unat amount mod 10 * 10 ^ k = unat amount * 10 ^ k"
      and ord: "unat (amount div 10) \<noteq> 0 \<Longrightarrow> unat (order * 10) = 10 ^ Suc k"
      using decompose_step_bounds [OF nz "1.prems"(1) [OF nz] "1.prems"(2)] by (simp_all add: chunk_def unat_div)
    have sum: "unat (dust + chunk) = unat dust + unat chunk"
      using rest chunk "1.prems"(2) by (intro unat_add_no_wrap) simp
    have less: "unat chunk < 10 ^ Suc k" by (simp add: chunk)
    have cz: "unat amount mod 10 = 0" if "chunk = 0" using chunk that by simp
    show ?thesis
    proof (cases "dust + chunk \<le> thr")
      case True
      then have le: "unat dust + unat chunk \<le> unat thr" by (simp add: word_le_nat_alt sum)
      have z: "unat amount mod 10 = 0" if handled
        using le "1.prems"(3) [OF that] by (cases "unat amount mod 10") (simp_all add: chunk)
      have "calls_sum (decompose_loop (amount div 10) thr handled (dust + chunk) (order * 10)) =
        unat (amount div 10) * 10 ^ Suc k + (if handled then 0 else unat (dust + chunk))"
      proof (rule IH1 [folded chunk_def])
        show "0 \<noteq> amount" using False by simp
        show "dust + chunk \<le> thr" by (rule True)
        show "unat (order * 10) = 10 ^ Suc k" if "unat (amount div 10) \<noteq> 0" using ord that by blast
        show "unat (amount div 10) * 10 ^ Suc k + unat (dust + chunk) < 2 ^ 64"
          using rest chunk sum "1.prems"(2) by (simp add: unat_div)
        show "unat thr < unat (dust + chunk) + 10 ^ Suc k" if handled
          using "1.prems"(3) [OF that] by (simp add: sum)
      qed
      with False True show ?thesis
        by (subst decompose_loop.simps) (auto simp: Let_def chunk_def [symmetric] sum z unat_div chunk rest [symmetric])
    next
      case big: False
      then have gt: "unat thr < unat dust + unat chunk" by (simp add: word_le_nat_alt sum)
      have "calls_sum (decompose_loop (amount div 10) thr (handled \<or> 0 \<noteq> dust) dust (order * 10)) =
        unat (amount div 10) * 10 ^ Suc k + (if handled \<or> 0 \<noteq> dust then 0 else unat dust)"
      proof (rule IH2 [folded chunk_def])
        show "0 \<noteq> amount" using False by simp
        show "\<not> dust + chunk \<le> thr" by (rule big)
        show "unat (order * 10) = 10 ^ Suc k" if "unat (amount div 10) \<noteq> 0" using ord that by blast
        show "unat (amount div 10) * 10 ^ Suc k + unat dust < 2 ^ 64"
          using rest "1.prems"(2) by (simp add: unat_div)
        show "unat thr < unat dust + 10 ^ Suc k" using gt less by simp
      qed
      with False big show ?thesis
        by (subst decompose_loop.simps) (auto simp: Let_def chunk_def [symmetric] unat_div chunk rest [symmetric] unat_eq_0 cz)
    qed
  qed
qed


lemma decompose_sum: "calls_sum (decompose_amount_into_digits amount thr) = unat amount"
  using decompose_loop_sum [of amount 1 0 0 False thr]
  by (simp add: decompose_amount_into_digits_def)

subsection \<open>Valid denominations\<close>

lemma valid_decomposed_eq:
  "valid_decomposed_outputs = concat (map (\<lambda>k. map (\<lambda>d. of_nat (d * 10 ^ k)) [1..<10]) [0..<19]) @ [10 ^ 19]"
  by (simp add: valid_decomposed_outputs_def upt_rec)

lemma is_valid_decomposed_iff:
  "is_valid_decomposed_amount a \<longleftrightarrow> (\<exists>d k. 0 < d \<and> d < 10 \<and> unat a = d * 10 ^ k)"
proof
  assume "is_valid_decomposed_amount a"
  then consider d k where "1 \<le> d" "d < 10" "k < 19" "a = of_nat (d * 10 ^ k)" | "a = 10 ^ 19"
    unfolding is_valid_decomposed_amount_def valid_decomposed_eq by auto
  then show "\<exists>d k. 0 < d \<and> d < 10 \<and> unat a = d * 10 ^ k"
  proof cases
    case 1
    have "(10::nat) ^ k \<le> 10 ^ 18" using 1(3) by (intro power_increasing) auto
    with 1(2) have "d * 10 ^ k \<le> 9 * 10 ^ 18" by (intro mult_mono) auto
    then have "d * 10 ^ k < 2 ^ 64" by simp
    then have "unat a = d * 10 ^ k" unfolding 1(4) unat_of_nat by simp
    with 1 show ?thesis by (intro exI [of _ d] exI [of _ k]) auto
  next
    case 2
    then show ?thesis by (intro exI [of _ 1] exI [of _ 19]) simp
  qed
next
  assume "\<exists>d k. 0 < d \<and> d < 10 \<and> unat a = d * 10 ^ k"
  then obtain d k where dk: "0 < d" "d < 10" "unat a = d * 10 ^ k" by blast
  have "a = of_nat (unat a)" by simp
  then have a: "a = of_nat (d * 10 ^ k)" by (simp only: dk(3))
  have k: "k < 20"
  proof (rule ccontr)
    assume "\<not> k < 20"
    then have "(10::nat) ^ 20 \<le> 10 ^ k" by (intro power_increasing) auto
    also have "\<dots> \<le> d * 10 ^ k" using dk(1) by simp
    finally show False using unat_u64_lt [of a] by (simp add: dk(3) [symmetric])
  qed
  show "is_valid_decomposed_amount a"
  proof (cases "k = 19")
    case True
    have "d = 1" using dk unat_u64_lt [of a] by (cases "d \<le> 1") (auto simp: True)
    then show ?thesis by (simp add: a True is_valid_decomposed_amount_def valid_decomposed_eq del: upt.simps)
  next
    case False
    with k have "k \<in> set [0..<19]" by simp
    moreover have "d \<in> set [1..<10]" using dk(1,2) by simp
    ultimately have "of_nat (d * 10 ^ k) \<in> set (concat (map (\<lambda>k. map (\<lambda>d. of_nat (d * 10 ^ k) :: u64) [1..<10]) [0..<19]))"
      unfolding set_concat by (intro UN_I [of "map (\<lambda>d. of_nat (d * 10 ^ k)) [1..<10]"]) (simp_all only: set_map image_eqI)
    then show ?thesis unfolding is_valid_decomposed_amount_def valid_decomposed_eq a set_append by (rule UnI1)
  qed
qed


fun call_ok :: "u64 \<Rightarrow> handler_call \<Rightarrow> bool" where
  "call_ok thr (Chunk a) \<longleftrightarrow> is_valid_decomposed_amount a"
| "call_ok thr (Dust a) \<longleftrightarrow> 0 < a \<and> a \<le> thr"

fun is_dust :: "handler_call \<Rightarrow> bool" where
  "is_dust (Chunk a) = False"
| "is_dust (Dust a) = True"

lemma decompose_loop_ok:
  assumes "unat amount \<noteq> 0 \<Longrightarrow> unat order = 10 ^ k"
    and "unat amount * 10 ^ k + unat dust < 2 ^ 64" and "dust \<le> thr"
  shows "list_all (call_ok thr) (decompose_loop amount thr handled dust order)"
    and "length (filter is_dust (decompose_loop amount thr handled dust order)) \<le> (if handled then 0 else 1)"
proof -
  have "list_all (call_ok thr) (decompose_loop amount thr handled dust order) \<and>
    length (filter is_dust (decompose_loop amount thr handled dust order)) \<le> (if handled then 0 else 1)"
    using assms
  proof (induction amount thr handled dust order arbitrary: k rule: decompose_loop.induct)
    case (1 amount thr handled dust order)
    note IH1 = "1.IH"(1) [OF _ refl refl refl, where k = "Suc k"]
    note IH2 = "1.IH"(2) [OF _ refl refl refl, where k = "Suc k"]
    show ?case
    proof (cases "amount = 0")
      case True
      then show ?thesis using "1.prems"(3) by (subst (1 2) decompose_loop.simps) (auto simp: word_gt_0)
    next
      case False
      then have nz: "unat amount \<noteq> 0" by (simp add: unat_eq_0)
      define chunk where "chunk = (amount mod 10) * order"
      have chunk: "unat chunk = unat amount mod 10 * 10 ^ k"
        and rest: "unat amount div 10 * 10 ^ Suc k + unat amount mod 10 * 10 ^ k = unat amount * 10 ^ k"
        and ord: "unat (amount div 10) \<noteq> 0 \<Longrightarrow> unat (order * 10) = 10 ^ Suc k"
        using decompose_step_bounds [OF nz "1.prems"(1) [OF nz] "1.prems"(2)] by (simp_all add: chunk_def unat_div)
      have sum: "unat (dust + chunk) = unat dust + unat chunk"
        using rest chunk "1.prems"(2) by (intro unat_add_no_wrap) simp
      have valid: "is_valid_decomposed_amount chunk" if "chunk \<noteq> 0"
        using that chunk unfolding is_valid_decomposed_iff
        by (intro exI [of _ "unat amount mod 10"] exI [of _ k]) (auto simp: unat_gt_0 [symmetric])
      have small1: "unat (amount div 10) * 10 ^ Suc k + unat (dust + chunk) < 2 ^ 64"
        and small2: "unat (amount div 10) * 10 ^ Suc k + unat dust < 2 ^ 64"
        using rest chunk sum "1.prems"(2) by (simp_all add: unat_div)
      show ?thesis
      proof (cases "dust + chunk \<le> thr")
        case True
        with IH1 [folded chunk_def] False ord small1 show ?thesis
          by (subst (1 2) decompose_loop.simps) (auto simp: Let_def chunk_def [symmetric])
      next
        case big: False
        with IH2 [folded chunk_def] False ord small2 "1.prems"(3) valid show ?thesis
          by (subst (1 2) decompose_loop.simps) (auto simp: Let_def chunk_def [symmetric] word_gt_0)
      qed
    qed
  qed
  then show "list_all (call_ok thr) (decompose_loop amount thr handled dust order)"
    and "length (filter is_dust (decompose_loop amount thr handled dust order)) \<le> (if handled then 0 else 1)"
    by blast+
qed

text \<open>C22. Decomposing an amount is complete and uses valid denominations only: for every amount and every dust
threshold the handlers receive amounts that sum up to it, each chunk is a denomination of the table, the dust
handler is called at most once, and its amount is positive and within the threshold.\<close>

theorem decompose_correct:
  "calls_sum (decompose_amount_into_digits amount thr) = unat amount \<and>
   list_all (call_ok thr) (decompose_amount_into_digits amount thr) \<and>
   length (filter is_dust (decompose_amount_into_digits amount thr)) \<le> 1"
  using decompose_sum [of amount thr] decompose_loop_ok [of amount 1 0 0 thr False]
  by (simp add: decompose_amount_into_digits_def)

text \<open>The table of denominations, searched as a sorted array, holds exactly the amounts with one non-zero
decimal digit.\<close>

lemma is_valid_decomposed_amount_iff:
  "sorted valid_decomposed_outputs \<and>
   (is_valid_decomposed_amount a \<longleftrightarrow> (\<exists>d k. 0 < d \<and> d < 10 \<and> unat a = d * 10 ^ k))"
proof
  show "sorted valid_decomposed_outputs"
    unfolding valid_decomposed_outputs_def by (simp only: sorted2 sorted1) simp
qed (rule is_valid_decomposed_iff)

section \<open>Powers\<close>

lemma Suc_unat_pred: "(w :: u64) \<noteq> 0 \<Longrightarrow> unat w = Suc (unat (w - 1))"
  using unat_gt_0 [of w] by (simp add: unat_minus_one)

lemma power_integral_loop_eq: "power_integral_loop a b i tot = tot * a ^ unat (b - i)"
proof (induction a b i tot rule: power_integral_loop.induct)
  case (1 a b i tot)
  show ?case
  proof (cases "i = b")
    case True
    then show ?thesis by (subst power_integral_loop.simps) simp
  next
    case False
    then have "b - i \<noteq> 0" by simp
    then have "unat (b - i) = Suc (unat (b - i - 1))" by (rule Suc_unat_pred)
    with 1 False show ?thesis by (subst power_integral_loop.simps) (simp add: algebra_simps)
  qed
qed

text \<open>The power loop ends for every exponent and returns the power modulo \<open>2 ^ 64\<close>.\<close>

lemma power_integral_eq: "power_integral a b = a ^ unat b"
proof (cases "b = 0")
  case False
  then have "unat b = Suc (unat (b - 1))" by (rule Suc_unat_pred)
  with False show ?thesis by (simp add: power_integral_def power_integral_loop_eq)
qed (simp add: power_integral_def)

section \<open>Overflow checks\<close>

lemma check_outs_overflow_loop_iff:
  "check_outs_overflow_loop money outs \<longleftrightarrow> unat money + (\<Sum>out\<leftarrow>outs. unat (out_amount out)) < 2 ^ 64"
proof (induction outs arbitrary: money)
  case (Cons out outs)
  have c: "out_amount out + money < money \<longleftrightarrow> 2 ^ 64 \<le> unat money + unat (out_amount out)"
    using carry_iff [of money "out_amount out"] unfolding add.commute [of "out_amount out" money] by simp
  show ?case
  proof (cases "2 ^ 64 \<le> unat money + unat (out_amount out)")
    case True
    then show ?thesis using c by simp
  next
    case False
    then have "unat (money + out_amount out) = unat money + unat (out_amount out)"
      by (intro unat_add_no_wrap) simp
    with False c show ?thesis by (simp add: Cons.IH add.assoc)
  qed
qed simp


fun input_amount :: "txin_v \<Rightarrow> u64 option" where
  "input_amount (Txin_to_key amount offs k) = Some amount"
| "input_amount _ = None"

lemma check_inputs_overflow_loop_iff:
  "check_inputs_overflow_loop money ins \<longleftrightarrow>
    (case those (map input_amount ins) of
       None \<Rightarrow> False
     | Some amounts \<Rightarrow> unat money + (\<Sum>a\<leftarrow>amounts. unat a) < 2 ^ 64)"
proof (induction money ins rule: check_inputs_overflow_loop.induct)
  case (2 money amount offs k ins)
  have c: "amount + money < money \<longleftrightarrow> 2 ^ 64 \<le> unat money + unat amount"
    using carry_iff [of money amount] unfolding add.commute [of amount money] by simp
  show ?case
  proof (cases "2 ^ 64 \<le> unat money + unat amount")
    case True
    then show ?thesis using c by (auto split: option.split)
  next
    case False
    then have "unat (money + amount) = unat money + unat amount" by (intro unat_add_no_wrap) simp
    with False c 2 show ?thesis by (auto simp: add.assoc split: option.split)
  qed
qed simp_all

text \<open>The overflow checks are exact: they accept a transaction exactly when every input spends to a key and
neither the sum of the input amounts nor the sum of the output amounts reaches \<open>2 ^ 64\<close>.\<close>

lemma check_money_overflow_iff:
  "check_money_overflow tx \<longleftrightarrow>
    (case those (map input_amount (vin tx)) of
       None \<Rightarrow> False
     | Some amounts \<Rightarrow> (\<Sum>a\<leftarrow>amounts. unat a) < 2 ^ 64) \<and>
    (\<Sum>out\<leftarrow>vout tx. unat (out_amount out)) < 2 ^ 64"
  by (simp add: check_money_overflow_def check_inputs_overflow_def check_outs_overflow_def
      check_inputs_overflow_loop_iff check_outs_overflow_loop_iff split: option.split)

lemma foldl_out_amounts:
  "foldl (\<lambda>outputs_amount out. outputs_amount + out_amount out) a outs = a + (\<Sum>out\<leftarrow>outs. out_amount out)"
  by (induction outs arbitrary: a) (simp_all add: add.assoc)

lemma unat_sum_list:
  "(\<Sum>a\<leftarrow>as. unat a) < 2 ^ 64 \<Longrightarrow> unat (\<Sum>a\<leftarrow>as. a :: u64) = (\<Sum>a\<leftarrow>as. unat a)"
proof (induction as)
  case (Cons a as)
  then have "unat (\<Sum>a\<leftarrow>as. a) = (\<Sum>a\<leftarrow>as. unat a)" by simp
  with Cons.prems show ?case by (simp add: unat_add_no_wrap)
qed simp

section \<open>Offsets\<close>

lemma relative_to_absolute_prefix:
  assumes "0 < m" and "m \<le> length off"
  shows "fold (\<lambda>i res. res[i := res ! i + res ! (i - 1)]) [1..<m] off =
    map (\<lambda>i. if i < m then sum_list (take (Suc i) off) else off ! i) [0..<length (off :: u64 list)]"
  using assms
proof (induction m)
  case (Suc m)
  show ?case
  proof (cases "m = 0")
    case True
    with Suc.prems show ?thesis by (intro nth_equalityI) (auto simp: take_Suc nth_Cons' hd_conv_nth)
  next
    case False
    then have IH: "fold (\<lambda>i res. res[i := res ! i + res ! (i - 1)]) [1..<m] off =
      map (\<lambda>i. if i < m then sum_list (take (Suc i) off) else off ! i) [0..<length off]"
      using Suc by simp
    have "sum_list (take (Suc m) off) = sum_list (take m off) + off ! m"
      using Suc.prems by (simp add: take_Suc_conv_app_nth)
    then show ?thesis
      using False Suc.prems by (intro nth_equalityI) (auto simp: IH [unfolded One_nat_def] nth_list_update less_Suc_eq add.commute)
  qed
qed simp

lemma relative_to_absolute_eq:
  "relative_output_offsets_to_absolute off = map (\<lambda>i. sum_list (take (Suc i) off)) [0..<length off]"
proof (cases "off = []")
  case False
  then show ?thesis
    using relative_to_absolute_prefix [of "length off" off]
    by (simp add: relative_output_offsets_to_absolute_def)
qed (simp add: relative_output_offsets_to_absolute_def)

lemma absolute_to_relative_suffix:
  assumes "0 < m"
  shows "fold (\<lambda>i res. res[i := res ! i - res ! (i - 1)]) (rev [m..<length xs]) xs =
    map (\<lambda>i. if m \<le> i then xs ! i - xs ! (i - 1) else xs ! i) [0..<length (xs :: u64 list)]"
proof (cases "m \<le> length xs")
  case True
  then show ?thesis using assms
  proof (induction m rule: inc_induct)
    case base
    show ?case by (intro nth_equalityI) auto
  next
    case (step m)
    then have up: "[m..<length xs] = m # [Suc m..<length xs]" by (simp add: upt_conv_Cons)
    show ?case
      using step by (intro nth_equalityI) (auto simp: up nth_list_update)
  qed
next
  case False
  then show ?thesis by (intro nth_equalityI) auto
qed

lemma sum_list_differences:
  "i < length xs \<Longrightarrow>
    sum_list (take (Suc i) (map (\<lambda>i. if 1 \<le> i then xs ! i - xs ! (i - 1) else xs ! i) [0..<length (xs :: u64 list)])) = xs ! i"
proof (induction i)
  case 0
  then show ?case using take_upt [of 0 "Suc 0" "length xs"] by (simp add: take_map Suc_le_eq)
next
  case (Suc i)
  let ?d = "map (\<lambda>i. if 1 \<le> i then xs ! i - xs ! (i - 1) else xs ! i) [0..<length xs]"
  have "sum_list (take (Suc i) ?d) = xs ! i" using Suc by simp
  moreover have "take (Suc (Suc i)) ?d = take (Suc i) ?d @ [?d ! Suc i]"
    using Suc.prems by (intro take_Suc_conv_app_nth) simp
  moreover have "?d ! Suc i = xs ! Suc i - xs ! i" using Suc.prems by simp
  ultimately show ?case by (simp only: sum_list_append sum_list.Cons sum_list.Nil) simp
qed

text \<open>C23. Key offsets survive the delta coding: turning absolute offsets into relative ones and back gives the
offsets in ascending order, for every list, repeated and extreme values included.\<close>

theorem offsets_round_trip:
  "relative_output_offsets_to_absolute (absolute_output_offsets_to_relative off) = sort off"
proof (cases "off = []")
  case False
  let ?d = "map (\<lambda>i. if 1 \<le> i then sort off ! i - sort off ! (i - 1) else sort off ! i) [0..<length (sort off)]"
  have "absolute_output_offsets_to_relative off = ?d"
    using False absolute_to_relative_suffix [of 1 "sort off"]
    by (simp add: absolute_output_offsets_to_relative_def Let_def)
  then show ?thesis
    using sum_list_differences [of _ "sort off"]
    by (intro nth_equalityI) (simp_all add: relative_to_absolute_eq del: upt_Suc)
qed (simp add: absolute_output_offsets_to_relative_def relative_output_offsets_to_absolute_def)

section \<open>Texts of amounts\<close>

text \<open>\<open>std::to_string\<close> and \<open>std::isdigit\<close> in the C locale.\<close>

function to_string :: "nat \<Rightarrow> string" where
  "to_string n = (if n < 10 then [char_of (48 + n)] else to_string (n div 10) @ [char_of (48 + n mod 10)])"
  by pat_completeness auto
termination
  by (relation "measure id") auto

declare to_string.simps [simp del]

definition isdigit :: "char \<Rightarrow> bool" where
  "isdigit c \<longleftrightarrow> 48 \<le> (of_char c :: nat) \<and> (of_char c :: nat) \<le> 57"

definition CRYPTONOTE_DISPLAY_DECIMAL_POINT :: nat where
  "CRYPTONOTE_DISPLAY_DECIMAL_POINT = 9"

definition print_money :: "u64 \<Rightarrow> string" where
  "print_money amount =
    (let s = to_string (unat amount);
         s = (if length s < CRYPTONOTE_DISPLAY_DECIMAL_POINT + 1
              then replicate (CRYPTONOTE_DISPLAY_DECIMAL_POINT + 1 - length s) (CHR ''0'') @ s else s);
         p = length s - CRYPTONOTE_DISPLAY_DECIMAL_POINT
     in take p s @ ''.'' @ drop p s)"

text \<open>\<open>lexical_cast\<close> stands for \<open>boost::lexical_cast<uint64_t>\<close>; \<open>None\<close> is an exception.\<close>

definition get_xtype_from_string :: "(string \<Rightarrow> u64 option) \<Rightarrow> string \<Rightarrow> u64 option" where
  "get_xtype_from_string lexical_cast s = (if list_all isdigit s then lexical_cast s else None)"

fun strip_fraction :: "nat \<Rightarrow> string \<Rightarrow> nat \<times> string" where
  "strip_fraction 0 s = (0, s)"
| "strip_fraction (Suc n) s =
    (if CRYPTONOTE_DISPLAY_DECIMAL_POINT < Suc n \<and> CHR ''0'' = last s then strip_fraction n (butlast s) else (Suc n, s))"

text \<open>\<open>trim\<close> stands for \<open>boost::algorithm::trim\<close>.\<close>

definition parse_amount :: "(string \<Rightarrow> string) \<Rightarrow> (string \<Rightarrow> u64 option) \<Rightarrow> string \<Rightarrow> u64 option" where
  "parse_amount trim lexical_cast str =
    (let s = trim str;
         point_index = length (takeWhile (\<lambda>c. c \<noteq> CHR ''.'') s);
         r = (if point_index < length s
              then
                let (fraction_size, s) = strip_fraction (length s - point_index - 1) s
                in if CRYPTONOTE_DISPLAY_DECIMAL_POINT < fraction_size then None
                   else Some (fraction_size, take point_index s @ drop (point_index + 1) s)
              else Some (0, s))
     in case r of
          None \<Rightarrow> None
        | Some (fraction_size, s) \<Rightarrow>
            if s = [] then None
            else
              let s = (if fraction_size < CRYPTONOTE_DISPLAY_DECIMAL_POINT
                       then s @ replicate (CRYPTONOTE_DISPLAY_DECIMAL_POINT - fraction_size) (CHR ''0'') else s)
              in get_xtype_from_string lexical_cast s)"

definition MAX_ALIAS_LENGTH :: nat where
  "MAX_ALIAS_LENGTH = 42"

text \<open>\<open>std::tolower\<close> on an upper-case letter.\<close>

definition tolower :: "char \<Rightarrow> char" where
  "tolower c = char_of ((of_char c :: nat) + 32)"

definition char_between :: "char \<Rightarrow> char \<Rightarrow> char \<Rightarrow> bool" where
  "char_between a b c \<longleftrightarrow> (of_char a :: nat) \<le> of_char c \<and> of_char c \<le> (of_char b :: nat)"

fun convert_alias_loop :: "string \<Rightarrow> string option" where
  "convert_alias_loop [] = Some []"
| "convert_alias_loop (c # cs) =
    (if c = CHR ''-'' \<or> c = CHR ''_'' \<or> c = CHR ''.'' \<or> c = CHR ''@'' \<or>
        char_between (CHR ''0'') (CHR ''9'') c \<or> char_between (CHR ''a'') (CHR ''z'') c
     then map_option (\<lambda>r. c # r) (convert_alias_loop cs)
     else if char_between (CHR ''A'') (CHR ''Z'') c
     then map_option (\<lambda>r. tolower c # r) (convert_alias_loop cs)
     else None)"

definition convert_alias :: "string \<Rightarrow> string" where
  "convert_alias alias =
    (if MAX_ALIAS_LENGTH < length alias then []
     else case convert_alias_loop alias of None \<Rightarrow> [] | Some a \<Rightarrow> a)"

section \<open>Decimal values\<close>

definition digit_value :: "char \<Rightarrow> nat" where
  "digit_value c = of_char c - 48"

definition decimal_value :: "string \<Rightarrow> nat" where
  "decimal_value s = foldl (\<lambda>v c. 10 * v + digit_value c) 0 s"

lemma decimal_value_snoc [simp]: "decimal_value (s @ [c]) = 10 * decimal_value s + digit_value c"
  by (simp add: decimal_value_def)

lemma decimal_value_Nil [simp]: "decimal_value [] = 0"
  by (simp add: decimal_value_def)

lemma decimal_value_append: "decimal_value (s @ t) = decimal_value s * 10 ^ length t + decimal_value t"
proof (induction t rule: rev_induct)
  case (snoc c t)
  have "decimal_value (s @ t @ [c]) = 10 * decimal_value (s @ t) + digit_value c"
    by (simp flip: append_assoc)
  then show ?case by (simp add: snoc.IH algebra_simps)
qed simp

lemma digit_char: "d < 10 \<Longrightarrow> digit_value (char_of (48 + d)) = d" "d < 10 \<Longrightarrow> isdigit (char_of (48 + d))"
  by (simp_all add: digit_value_def isdigit_def)

lemma zero_digit [simp]: "digit_value (CHR ''0'') = 0" "isdigit (CHR ''0'')"
  by (simp_all add: digit_value_def isdigit_def)

lemma to_string_digits: "list_all isdigit (to_string n) \<and> decimal_value (to_string n) = n \<and> to_string n \<noteq> []"
proof (induction n rule: to_string.induct)
  case (1 n)
  show ?case
  proof (cases "n < 10")
    case True
    then show ?thesis
      using decimal_value_snoc [of "[]"] by (simp add: to_string.simps [of n] digit_char)
  next
    case False
    with 1 show ?thesis by (simp add: to_string.simps [of n] digit_char)
  qed
qed

section \<open>Printing and parsing are inverse\<close>

definition isspace :: "char \<Rightarrow> bool" where
  "isspace c \<longleftrightarrow> c = CHR '' '' \<or> char_between (CHR 0x09) (CHR 0x0D) c"

text \<open>What the code relies on: trimming keeps a text that neither starts nor ends with white space, and the
cast of a non-empty text of digits gives its value, or throws where the value does not fit.\<close>

definition trim_spec :: "(string \<Rightarrow> string) \<Rightarrow> bool" where
  "trim_spec trim \<longleftrightarrow> (\<forall>s. s \<noteq> [] \<longrightarrow> \<not> isspace (hd s) \<longrightarrow> \<not> isspace (last s) \<longrightarrow> trim s = s)"

definition lexical_cast_spec :: "(string \<Rightarrow> u64 option) \<Rightarrow> bool" where
  "lexical_cast_spec lexical_cast \<longleftrightarrow>
    (\<forall>s. s \<noteq> [] \<longrightarrow> list_all isdigit s \<longrightarrow>
      lexical_cast s = (if decimal_value s < 2 ^ 64 then Some (of_nat (decimal_value s)) else None))"

lemma digit_not_special:
  assumes "isdigit c"
  shows "\<not> isspace c" and "c \<noteq> CHR ''.''"
  using assms by (auto simp: isdigit_def isspace_def char_between_def)

lemma point_not_space: "\<not> isspace (CHR ''.'')"
  by (simp add: isspace_def char_between_def)

lemma strip_fraction_short: "n \<le> 9 \<Longrightarrow> strip_fraction n s = (n, s)"
  by (cases n) (simp_all add: CRYPTONOTE_DISPLAY_DECIMAL_POINT_def)

lemma takeWhile_point:
  "list_all isdigit i \<Longrightarrow> takeWhile (\<lambda>c. c \<noteq> CHR ''.'') (i @ CHR ''.'' # f) = i"
  by (induction i) (auto dest: digit_not_special)

lemma decimal_value_zeros: "decimal_value (replicate n (CHR ''0'')) = 0"
  using decimal_value_snoc [of _ "CHR ''0''"]
  by (induction n) (simp_all del: decimal_value_snoc flip: replicate_append_same)

lemma parse_digits:
  assumes "trim_spec trim" and "lexical_cast_spec lexical_cast"
    and "list_all isdigit i" and "list_all isdigit f" and "i @ f \<noteq> []" and "length f \<le> 9"
  shows "parse_amount trim lexical_cast (i @ ''.'' @ f) =
    (let v = decimal_value i * 10 ^ 9 + decimal_value f * 10 ^ (9 - length f)
     in if v < 2 ^ 64 then Some (of_nat v) else None)"
proof -
  let ?s = "i @ CHR ''.'' # f"
  let ?t = "i @ f @ replicate (9 - length f) (CHR ''0'')"
  have "\<not> isspace (hd ?s)"
    using assms(3) by (cases i) (auto simp: point_not_space dest: digit_not_special)
  moreover have "\<not> isspace (last ?s)"
    using assms(4) by (cases f rule: rev_cases) (auto simp: point_not_space dest: digit_not_special)
  ultimately have trim: "trim ?s = ?s"
    using assms(1) unfolding trim_spec_def by (metis append_is_Nil_conv list.distinct(1))
  have t: "(i @ f) @ replicate (9 - length f) (CHR ''0'') = ?t" by simp
  have "decimal_value ?t = decimal_value i * 10 ^ 9 + decimal_value f * 10 ^ (9 - length f)"
    using assms(6) by (simp add: decimal_value_append decimal_value_zeros)
  moreover have "list_all isdigit ?t" using assms(3,4) by (auto simp: list_all_iff)
  moreover have "?t \<noteq> []" using assms(5) by simp
  ultimately have cast: "get_xtype_from_string lexical_cast ?t =
    (let v = decimal_value i * 10 ^ 9 + decimal_value f * 10 ^ (9 - length f)
     in if v < 2 ^ 64 then Some (of_nat v) else None)"
    using assms(2) unfolding lexical_cast_spec_def get_xtype_from_string_def by simp
  have pad: "(if length f < 9 then (i @ f) @ replicate (9 - length f) (CHR ''0'') else i @ f) = ?t"
    using assms(6) by auto
  show ?thesis
    unfolding parse_amount_def append.simps trim Let_def takeWhile_point [OF assms(3)]
    using assms(5,6) pad cast [unfolded Let_def]
    by (auto simp: strip_fraction_short CRYPTONOTE_DISPLAY_DECIMAL_POINT_def)
qed

text \<open>A decimal text with up to nine fraction digits parses to its value in atomic units, or is refused where the
value does not fit into 64 bits, whatever the number of integer digits, none included.\<close>

lemma parse_amount_value:
  assumes "trim_spec trim" and "lexical_cast_spec lexical_cast"
    and "list_all isdigit i" and "list_all isdigit f" and "i @ f \<noteq> []" and "length f \<le> 9"
  shows "parse_amount trim lexical_cast (i @ ''.'' @ f) =
    (let v = decimal_value i * 10 ^ 9 + decimal_value f * 10 ^ (9 - length f)
     in if v < 2 ^ 64 then Some (of_nat v) else None)"
  using assms by (rule parse_digits)

definition trim_both :: "string \<Rightarrow> string" where
  "trim_both s = rev (dropWhile isspace (rev (dropWhile isspace s)))"

definition cast_decimal :: "string \<Rightarrow> u64 option" where
  "cast_decimal s =
    (if s \<noteq> [] \<and> list_all isdigit s \<and> decimal_value s < 2 ^ 64 then Some (of_nat (decimal_value s)) else None)"

lemma trim_both_spec: "trim_spec trim_both"
  unfolding trim_spec_def trim_both_def
proof (intro allI impI)
  fix s assume s: "s \<noteq> []" "\<not> isspace (hd s)" "\<not> isspace (last s)"
  then have "dropWhile isspace s = s" "dropWhile isspace (rev s) = rev s"
    by (simp_all add: dropWhile_eq_self_iff hd_rev)
  then show "rev (dropWhile isspace (rev (dropWhile isspace s))) = s" by simp
qed

lemma cast_decimal_spec: "lexical_cast_spec cast_decimal"
  by (simp add: lexical_cast_spec_def cast_decimal_def)

lemma parse_amount_value_witness:
  "parse_amount trim_both cast_decimal (''12'' @ ''.'' @ ''5'') = Some 12500000000 \<and>
   parse_amount trim_both cast_decimal (''99999999999'' @ ''.'' @ []) = None"
  using parse_amount_value [OF trim_both_spec cast_decimal_spec, of "''12''" "''5''"]
    parse_amount_value [OF trim_both_spec cast_decimal_spec, of "''99999999999''" "[]"]
  by (simp add: isdigit_def decimal_value_def digit_value_def Let_def)

text \<open>C24. Printing an amount and parsing the text gives the amount back, for every 64-bit amount.\<close>

theorem parse_print_money:
  assumes "trim_spec trim" and "lexical_cast_spec lexical_cast"
  shows "parse_amount trim lexical_cast (print_money amount) = Some amount"
proof -
  define d where "d = to_string (unat amount)"
  define s where "s = (if length d < 10 then replicate (10 - length d) (CHR ''0'') @ d else d)"
  have d: "list_all isdigit d" "decimal_value d = unat amount" "d \<noteq> []"
    using to_string_digits [of "unat amount"] by (simp_all add: d_def)
  have s: "list_all isdigit s" "decimal_value s = unat amount" "10 \<le> length s"
    using d by (auto simp: s_def decimal_value_append decimal_value_zeros list_all_iff)
  let ?i = "take (length s - 9) s" and ?f = "drop (length s - 9) s"
  have "decimal_value (?i @ ?f) = decimal_value ?i * 10 ^ 9 + decimal_value ?f"
    unfolding decimal_value_append using s(3) by simp
  then have v: "decimal_value ?i * 10 ^ 9 + decimal_value ?f = unat amount"
    unfolding append_take_drop_id s(2) by simp
  have "?i @ ?f \<noteq> []" using s(3) by auto
  moreover have digits: "list_all isdigit ?i" "list_all isdigit ?f"
    using s(1) by (auto simp: list_all_iff dest: in_set_takeD in_set_dropD)
  moreover have "print_money amount = ?i @ ''.'' @ ?f"
    unfolding print_money_def d_def [symmetric] Let_def CRYPTONOTE_DISPLAY_DECIMAL_POINT_def s_def by simp
  ultimately show ?thesis
    using parse_digits [OF assms digits] s(3) v unat_u64_lt [of amount] by (auto simp: Let_def)
qed

theorem parse_print_money_witness:
  "parse_amount trim_both cast_decimal (print_money 12500000000) = Some 12500000000"
  by (rule parse_print_money [OF trim_both_spec cast_decimal_spec])

section \<open>Aliases\<close>

definition alias_char :: "char \<Rightarrow> bool" where
  "alias_char c \<longleftrightarrow> c = CHR ''-'' \<or> c = CHR ''_'' \<or> c = CHR ''.'' \<or> c = CHR ''@'' \<or>
    char_between (CHR ''0'') (CHR ''9'') c \<or> char_between (CHR ''a'') (CHR ''z'') c"

lemma convert_alias_loop_Cons:
  "convert_alias_loop (c # cs) =
    (if alias_char c then map_option (\<lambda>r. c # r) (convert_alias_loop cs)
     else if char_between (CHR ''A'') (CHR ''Z'') c then map_option (\<lambda>r. tolower c # r) (convert_alias_loop cs)
     else None)"
  unfolding convert_alias_loop.simps alias_char_def ..

lemma tolower_alias:
  assumes "char_between (CHR ''A'') (CHR ''Z'') c"
  shows "alias_char (tolower c)"
proof -
  have "char_between (CHR ''a'') (CHR ''z'') (tolower c)"
    using assms by (simp add: char_between_def tolower_def)
  then show ?thesis unfolding alias_char_def by blast
qed

lemma convert_alias_loop_normal:
  "convert_alias_loop s = Some r \<Longrightarrow> list_all alias_char r \<and> length r = length s"
proof (induction s arbitrary: r)
  case (Cons c cs)
  then show ?case
    by (auto simp: convert_alias_loop_Cons tolower_alias simp del: convert_alias_loop.simps split: if_splits)
qed simp

lemma convert_alias_loop_id: "list_all alias_char r \<Longrightarrow> convert_alias_loop r = Some r"
proof (induction r)
  case (Cons c cs)
  then show ?case by (simp add: convert_alias_loop_Cons del: convert_alias_loop.simps)
qed simp

text \<open>Alias conversion yields a normal form: the result is empty or consists of at most 42 characters of the
allowed set, and converting it again changes nothing.\<close>

lemma convert_alias_normal:
  "list_all alias_char (convert_alias s) \<and> length (convert_alias s) \<le> MAX_ALIAS_LENGTH \<and>
   convert_alias (convert_alias s) = convert_alias s"
proof (cases "MAX_ALIAS_LENGTH < length s \<or> convert_alias_loop s = None")
  case True
  then have "convert_alias s = []" by (auto simp: convert_alias_def)
  then show ?thesis by (simp add: convert_alias_def)
next
  case False
  then obtain r where r: "convert_alias_loop s = Some r" "length s \<le> MAX_ALIAS_LENGTH" by auto
  then have "convert_alias s = r" by (simp add: convert_alias_def)
  with r convert_alias_loop_normal [OF r(1)] convert_alias_loop_id [of r] show ?thesis
    by (simp add: convert_alias_def)
qed

end
