(* ===== verification/Tx_Extra.thy ===== *)
theory Tx_Extra
  imports Cryptonote_Basic Keccak
begin

text \<open>
  The \<open>extra\<close> field of a transaction: the field types of \<open>src/cryptonote_core/tx_extra.h\<close> and the
  functions of \<open>src/cryptonote_core/cryptonote_format_utils.cpp\<close> that parse, search, extend and edit it,
  with the payment identifiers kept in its nonce. The curve operation \<open>generate_key_derivation\<close> is an
  argument of the payment-id cipher. The lemmas show the round trips of the fields, that removing a
  field removes exactly the fields of that type, and where the writers and readers disagree.
\<close>

section \<open>Fields\<close>

definition TX_EXTRA_PADDING_MAX_COUNT :: nat where
  "TX_EXTRA_PADDING_MAX_COUNT = 255"

definition TX_EXTRA_NONCE_MAX_COUNT :: nat where
  "TX_EXTRA_NONCE_MAX_COUNT = 255"

datatype tx_extra_field =
    Tx_extra_padding nat
  | Tx_extra_pub_key key
  | Tx_extra_nonce blob
  | Tx_extra_merge_mining_tag size_t hash
  | Tx_extra_additional_pub_keys "key list"
  | Tx_extra_mysterious_minergate blob

text \<open>The tags double as the run-time types that searches compare.\<close>

fun extra_tag :: "tx_extra_field \<Rightarrow> byte" where
  "extra_tag (Tx_extra_padding n) = 0x00"
| "extra_tag (Tx_extra_pub_key k) = 0x01"
| "extra_tag (Tx_extra_nonce b) = 0x02"
| "extra_tag (Tx_extra_merge_mining_tag d h) = 0x03"
| "extra_tag (Tx_extra_additional_pub_keys ks) = 0x04"
| "extra_tag (Tx_extra_mysterious_minergate b) = 0xDE"

definition put_padding :: "nat \<Rightarrow> byte list option" where
  "put_padding sz = (if TX_EXTRA_PADDING_MAX_COUNT < sz then None else Some (replicate (sz - 1) 0))"

fun get_padding :: "nat \<Rightarrow> byte list \<Rightarrow> (nat \<times> byte list) option" where
  "get_padding sz [] = (if sz \<le> TX_EXTRA_PADDING_MAX_COUNT then Some (sz, []) else None)"
| "get_padding sz (z # bs) =
    (if sz \<le> TX_EXTRA_PADDING_MAX_COUNT then (if z \<noteq> 0 then None else get_padding (sz + 1) bs) else None)"

definition put_merge_mining_tag :: "size_t \<Rightarrow> hash \<Rightarrow> byte list option" where
  "put_merge_mining_tag depth root = put_string (put_uvarint depth @ put_key root)"

definition get_merge_mining_tag :: "byte list \<Rightarrow> ((size_t \<times> hash) \<times> byte list) option" where
  "get_merge_mining_tag bs =
    do { (field, bs) \<leftarrow> get_string bs;
         v \<leftarrow> parse_binary (\<lambda>f. do { (d, f) \<leftarrow> get_uvarint f; (h, f) \<leftarrow> get_key f; Some ((d, h), f) }) field;
         Some (v, bs) }"

fun put_extra_field :: "tx_extra_field \<Rightarrow> byte list option" where
  "put_extra_field (Tx_extra_padding sz) = map_option (\<lambda>b. 0x00 # b) (put_padding sz)"
| "put_extra_field (Tx_extra_pub_key k) = Some (0x01 # put_key k)"
| "put_extra_field (Tx_extra_nonce n) =
    (if TX_EXTRA_NONCE_MAX_COUNT < length n then None else map_option (\<lambda>b. 0x02 # b) (put_string n))"
| "put_extra_field (Tx_extra_merge_mining_tag d h) = map_option (\<lambda>b. 0x03 # b) (put_merge_mining_tag d h)"
| "put_extra_field (Tx_extra_additional_pub_keys ks) = map_option (\<lambda>b. 0x04 # b) (put_keys ks)"
| "put_extra_field (Tx_extra_mysterious_minergate s) = map_option (\<lambda>b. 0xDE # b) (put_string s)"

definition get_extra_field :: "byte list \<Rightarrow> (tx_extra_field \<times> byte list) option" where
  "get_extra_field bs =
    do { (t :: byte, bs) \<leftarrow> get_uint bs;
         if t = 0x00 then do { (sz, bs) \<leftarrow> get_padding 1 bs; Some (Tx_extra_padding sz, bs) }
         else if t = 0x01 then do { (k, bs) \<leftarrow> get_key bs; Some (Tx_extra_pub_key k, bs) }
         else if t = 0x02 then
           do { (n, bs) \<leftarrow> get_string bs;
                if TX_EXTRA_NONCE_MAX_COUNT < length n then None else Some (Tx_extra_nonce n, bs) }
         else if t = 0x03 then do { ((d, h), bs) \<leftarrow> get_merge_mining_tag bs; Some (Tx_extra_merge_mining_tag d h, bs) }
         else if t = 0x04 then do { (ks, bs) \<leftarrow> get_keys bs; Some (Tx_extra_additional_pub_keys ks, bs) }
         else if t = 0xDE then do { (s, bs) \<leftarrow> get_string bs; Some (Tx_extra_mysterious_minergate s, bs) }
         else None }"

section \<open>No reader grows its input\<close>

lemma length_read_varint_loop:
  "length (snd (snd (read_varint_loop bits shift read w bs))) \<le> length bs"
  by (induction bits shift read w bs rule: read_varint_loop.induct) (auto simp: Let_def)

lemma length_get_uvarint: "get_uvarint bs = Some (v :: 'a::len word, r) \<Longrightarrow> length r \<le> length bs"
  using length_read_varint_loop [of "LENGTH('a)" 0 0 "0 :: 'a word" bs]
  by (auto simp: get_uvarint_def read_varint_def read_varint_bits_def split: prod.splits)

lemma length_get_blob: "get_blob n bs = Some (b, r) \<Longrightarrow> length r \<le> length bs"
  by (auto simp: get_blob_def split: if_splits)

lemma length_get_uint: "get_uint bs = Some (v :: 'a::len word, r) \<Longrightarrow> length r \<le> length bs"
  by (auto simp: get_uint_def elim!: bind_SomeE dest!: length_get_blob)

lemma length_get_byte: "get_uint bs = Some (v :: byte, r) \<Longrightarrow> length r < length bs"
  by (auto simp: get_uint_def get_blob_def elim!: bind_SomeE split: if_splits)

lemma length_get_key: "get_key bs = Some (k, r) \<Longrightarrow> length r \<le> length bs"
  unfolding get_key_def by (rule length_get_uint)

lemma length_get_string: "get_string bs = Some (s, r) \<Longrightarrow> length r \<le> length bs"
  by (auto simp: get_string_def elim!: bind_SomeE dest!: length_get_uvarint length_get_blob)

lemma length_get_n:
  assumes "\<And>bs x r. get bs = Some (x, r) \<Longrightarrow> length r \<le> length bs"
  shows "get_n get n bs = Some (xs, r) \<Longrightarrow> length r \<le> length bs"
  by (induction n arbitrary: bs xs) (fastforce split: option.splits dest: assms)+

lemma length_get_n_key: "get_n get_key n bs = Some (ks, r) \<Longrightarrow> length r \<le> length bs"
  by (rule length_get_n [OF length_get_key])

lemma length_get_keys: "get_keys bs = Some (ks, r) \<Longrightarrow> length r \<le> length bs"
  unfolding get_keys_def get_vector_def
  by (auto elim!: bind_SomeE split: if_splits dest!: length_get_uvarint length_get_n_key)

lemma length_get_padding: "get_padding sz bs = Some (n, r) \<Longrightarrow> length r \<le> length bs"
  by (induction sz bs rule: get_padding.induct) (auto split: if_splits)

lemma length_get_merge_mining_tag: "get_merge_mining_tag bs = Some (v, r) \<Longrightarrow> length r \<le> length bs"
  by (auto simp: get_merge_mining_tag_def elim!: bind_SomeE dest!: length_get_string)

lemma length_get_extra_field: "get_extra_field bs = Some (f, r) \<Longrightarrow> length r < length bs"
  unfolding get_extra_field_def
  by (auto split: if_splits elim!: bind_SomeE dest!: length_get_byte length_get_padding length_get_key
      length_get_string length_get_merge_mining_tag length_get_keys)


section \<open>Parsing and editing\<close>

text \<open>
  The loop of \<open>parse_tx_extra\<close>: the flag is the return value; the fields read before a failure stay in
  the output vector.
\<close>

function parse_extra_loop :: "byte list \<Rightarrow> bool \<times> tx_extra_field list" where
  "parse_extra_loop bs =
    (case get_extra_field bs of
       None \<Rightarrow> (False, [])
     | Some (f, rest) \<Rightarrow>
         if rest = [] then (True, [f])
         else let (ok, fs) = parse_extra_loop rest in (ok, f # fs))"
  by pat_completeness auto
termination
  by (relation "measure length") (auto dest: length_get_extra_field)

declare parse_extra_loop.simps [simp del]

definition parse_tx_extra :: "byte list \<Rightarrow> bool \<times> tx_extra_field list" where
  "parse_tx_extra tx_extra = (if tx_extra = [] then (True, []) else parse_extra_loop tx_extra)"

text \<open>\<open>find_tx_extra_field_by_type\<close>: the \<open>index\<close>-th field with the given tag.\<close>

definition find_tx_extra_field_by_type :: "tx_extra_field list \<Rightarrow> byte \<Rightarrow> nat \<Rightarrow> tx_extra_field option" where
  "find_tx_extra_field_by_type flds t index =
    (let fs = filter (\<lambda>f. extra_tag f = t) flds in if index < length fs then Some (fs ! index) else None)"

definition get_tx_pub_key_from_extra :: "byte list \<Rightarrow> nat \<Rightarrow> key" where
  "get_tx_pub_key_from_extra tx_extra pk_index =
    (let (_, flds) = parse_tx_extra tx_extra
     in case find_tx_extra_field_by_type flds 0x01 pk_index of
          Some (Tx_extra_pub_key k) \<Rightarrow> k
        | _ \<Rightarrow> 0)"

definition add_tx_pub_key_to_extra :: "byte list \<Rightarrow> key \<Rightarrow> byte list" where
  "add_tx_pub_key_to_extra tx_extra k = tx_extra @ [0x01] @ put_key k"

definition get_additional_tx_pub_keys_from_extra :: "byte list \<Rightarrow> key list" where
  "get_additional_tx_pub_keys_from_extra tx_extra =
    (let (_, flds) = parse_tx_extra tx_extra
     in case find_tx_extra_field_by_type flds 0x04 0 of
          Some (Tx_extra_additional_pub_keys ks) \<Rightarrow> ks
        | _ \<Rightarrow> [])"

definition add_additional_tx_pub_keys_to_extra :: "byte list \<Rightarrow> key list \<Rightarrow> byte list option" where
  "add_additional_tx_pub_keys_to_extra tx_extra ks =
    map_option (\<lambda>b. tx_extra @ b) (put_extra_field (Tx_extra_additional_pub_keys ks))"

text \<open>The length of the nonce is stored in one byte.\<close>

definition add_extra_nonce_to_tx_extra :: "byte list \<Rightarrow> blob \<Rightarrow> byte list option" where
  "add_extra_nonce_to_tx_extra tx_extra extra_nonce =
    (if \<not> length extra_nonce \<le> TX_EXTRA_NONCE_MAX_COUNT then None
     else Some (tx_extra @ [0x02, of_nat (length extra_nonce)] @ extra_nonce))"

text \<open>A field that cannot be written leaves nothing in the new buffer.\<close>

function remove_field_loop :: "byte \<Rightarrow> byte list \<Rightarrow> byte list option" where
  "remove_field_loop t bs =
    (case get_extra_field bs of
       None \<Rightarrow> None
     | Some (f, rest) \<Rightarrow>
         let out = (if extra_tag f \<noteq> t then (case put_extra_field f of Some b \<Rightarrow> b | None \<Rightarrow> []) else [])
         in if rest = [] then Some out else map_option (\<lambda>new. out @ new) (remove_field_loop t rest))"
  by pat_completeness auto
termination
  by (relation "measure (\<lambda>(t, bs). length bs)") (auto dest: length_get_extra_field)

declare remove_field_loop.simps [simp del]

text \<open>The pair of the return value and the new contents.\<close>

definition remove_field_from_tx_extra :: "byte list \<Rightarrow> byte \<Rightarrow> bool \<times> byte list" where
  "remove_field_from_tx_extra tx_extra t =
    (case remove_field_loop t tx_extra of None \<Rightarrow> (False, tx_extra) | Some new \<Rightarrow> (True, new))"

section \<open>Payment identifiers\<close>

definition TX_EXTRA_NONCE_PAYMENT_ID :: byte where
  "TX_EXTRA_NONCE_PAYMENT_ID = 0x00"

definition TX_EXTRA_NONCE_ENCRYPTED_PAYMENT_ID :: byte where
  "TX_EXTRA_NONCE_ENCRYPTED_PAYMENT_ID = 0x01"

definition ENCRYPTED_PAYMENT_ID_TAIL :: byte where
  "ENCRYPTED_PAYMENT_ID_TAIL = 0x8d"

definition set_payment_id_to_tx_extra_nonce :: "blob \<Rightarrow> blob" where
  "set_payment_id_to_tx_extra_nonce payment_id = TX_EXTRA_NONCE_PAYMENT_ID # payment_id"

definition set_encrypted_payment_id_to_tx_extra_nonce :: "blob \<Rightarrow> blob" where
  "set_encrypted_payment_id_to_tx_extra_nonce payment_id = TX_EXTRA_NONCE_ENCRYPTED_PAYMENT_ID # payment_id"

definition get_payment_id_from_tx_extra_nonce :: "blob \<Rightarrow> blob option" where
  "get_payment_id_from_tx_extra_nonce extra_nonce =
    (if HASH_SIZE + 1 < length extra_nonce \<or> extra_nonce = [] \<or> extra_nonce ! 0 \<noteq> TX_EXTRA_NONCE_PAYMENT_ID then None
     else Some (drop 1 extra_nonce))"

definition get_encrypted_payment_id_from_tx_extra_nonce :: "blob \<Rightarrow> blob option" where
  "get_encrypted_payment_id_from_tx_extra_nonce extra_nonce =
    (if HASH_SIZE + 1 < length extra_nonce \<or> extra_nonce = [] \<or> extra_nonce ! 0 \<noteq> TX_EXTRA_NONCE_ENCRYPTED_PAYMENT_ID
     then None
     else Some (drop 1 extra_nonce))"

text \<open>
  The cipher writes the first 32 characters of the string whatever its size is: writing past the end is
  undefined behaviour.
\<close>

datatype payment_id_result = Failed | Out_of_bounds | Payment_id blob

definition encrypt_payment_id :: "(key \<Rightarrow> key \<Rightarrow> key option) \<Rightarrow> blob \<Rightarrow> key \<Rightarrow> key \<Rightarrow> payment_id_result" where
  "encrypt_payment_id generate_key_derivation payment_id public_key secret_key =
    (case generate_key_derivation public_key secret_key of
       None \<Rightarrow> Failed
     | Some derivation \<Rightarrow>
         let hash = cn_fast_hash (put_key derivation @ [ENCRYPTED_PAYMENT_ID_TAIL])
         in if length payment_id < 32 then Out_of_bounds
            else Payment_id (map2 (XOR) (take 32 payment_id) hash @ drop 32 payment_id))"

definition decrypt_payment_id :: "(key \<Rightarrow> key \<Rightarrow> key option) \<Rightarrow> blob \<Rightarrow> key \<Rightarrow> key \<Rightarrow> payment_id_result" where
  "decrypt_payment_id generate_key_derivation payment_id public_key secret_key =
    encrypt_payment_id generate_key_derivation payment_id public_key secret_key"

section \<open>Fields are read back\<close>

lemma get_padding_zeros:
  "sz + n \<le> 255 \<Longrightarrow> get_padding sz (replicate n 0) = Some (sz + n, [])"
  by (induction n arbitrary: sz) (auto simp: TX_EXTRA_PADDING_MAX_COUNT_def)

text \<open>Every field but the padding can be followed by other fields.\<close>

lemma get_extra_field_put:
  assumes "put_extra_field f = Some b" and "extra_tag f \<noteq> 0x00 \<or> r = [] \<and> f \<noteq> Tx_extra_padding 0"
  shows "get_extra_field (b @ r) = Some (f, r)"
proof (cases f)
  case (Tx_extra_padding sz)
  with assms have "b = 0 # replicate (sz - 1) 0" "r = []" "1 + (sz - 1) \<le> 255" "1 \<le> sz"
    by (auto simp: put_padding_def TX_EXTRA_PADDING_MAX_COUNT_def split: if_splits)
  with get_padding_zeros [of 1 "sz - 1"] show ?thesis
    by (simp add: Tx_extra_padding get_extra_field_def)
next
  case (Tx_extra_merge_mining_tag d h)
  with assms show ?thesis
    using get_key_put [of h "[]"]
    by (auto simp: get_extra_field_def put_merge_mining_tag_def get_merge_mining_tag_def get_string_put
        parse_binary_def)
qed (use assms in \<open>auto simp: get_extra_field_def get_string_put get_keys_put split: if_splits\<close>)

lemma put_extra_field_nonempty: "put_extra_field f = Some b \<Longrightarrow> b \<noteq> []"
  by (cases f) (auto split: if_splits)

lemma parse_extra_loop_put:
  assumes "those (map put_extra_field fs) = Some bss" and "fs \<noteq> []"
    and "\<forall>f \<in> set (butlast fs). extra_tag f \<noteq> 0x00" and "last fs \<noteq> Tx_extra_padding 0"
  shows "parse_extra_loop (concat bss) = (True, fs)"
  using assms
proof (induction fs arbitrary: bss)
  case (Cons f fs)
  from Cons.prems obtain b bs where b: "put_extra_field f = Some b"
      and bs: "those (map put_extra_field fs) = Some bs" "bss = b # bs"
    by (auto split: option.splits)
  show ?case
  proof (cases "fs = []")
    case True
    with bs have "concat bss = b @ []" by simp
    moreover have "get_extra_field (b @ []) = Some (f, [])"
      using b Cons.prems True by (intro get_extra_field_put) auto
    ultimately show ?thesis using True by (subst parse_extra_loop.simps) simp
  next
    case False
    then have "concat bs \<noteq> []"
      using bs(1) put_extra_field_nonempty by (cases fs) (auto split: option.splits)
    moreover have "get_extra_field (b @ concat bs) = Some (f, concat bs)"
      using b Cons.prems(3) False by (intro get_extra_field_put) auto
    moreover have "parse_extra_loop (concat bs) = (True, fs)"
      using Cons.prems False bs by (intro Cons.IH) auto
    ultimately show ?thesis using bs(2) by (subst parse_extra_loop.simps) (simp del: concat_eq_Nil_conv)
  qed
qed simp


section \<open>Removing a field\<close>

text \<open>What the parser returns can be written again, and padding can only come last.\<close>

lemma put_string_defined: "length s < 2 ^ 64 \<Longrightarrow> \<exists>b. put_string s = Some b"
  by (simp add: put_string_def)

lemma get_string_defined:
  assumes "get_string bs = Some (s, r)"
  shows "\<exists>b. put_string s = Some b"
proof -
  from assms obtain n :: size_t where "length s = unat n"
    by (auto simp: get_string_def get_blob_def elim!: bind_SomeE split: if_splits)
  then show ?thesis using unat_lt_size [of n] by (intro put_string_defined) simp
qed

lemma length_get_n_list: "get_n get n bs = Some (xs, r) \<Longrightarrow> length xs = n"
  by (induction n arbitrary: bs xs) (auto split: option.splits)

lemma get_keys_defined:
  assumes "get_keys bs = Some (ks, r)"
  shows "\<exists>b. put_keys ks = Some b"
proof -
  from assms obtain n :: size_t and bs' where "get_n get_key (unat n) bs' = Some (ks, r)"
    by (auto simp: get_keys_def get_vector_def elim!: bind_SomeE split: if_splits)
  then have "length ks < 2 ^ 64" using unat_lt_size [of n] by (simp add: length_get_n_list)
  moreover have "\<exists>es. those (map (\<lambda>k. Some (put_key k)) ks) = Some es" by (induction ks) auto
  ultimately show ?thesis by (auto simp: put_keys_def put_vector_def)
qed

lemma put_merge_mining_tag_defined: "\<exists>b. put_merge_mining_tag d h = Some b"
proof -
  have "length (put_uvarint d @ put_key h) \<le> 42"
    using length_varint_u64 [of d] by (simp add: put_uvarint_def)
  then show ?thesis
    unfolding put_merge_mining_tag_def by (intro put_string_defined) simp
qed

lemma get_padding_Some: "get_padding sz bs = Some (n, r) \<Longrightarrow> r = [] \<and> n \<le> 255 \<and> sz \<le> n"
  by (induction sz bs rule: get_padding.induct) (auto simp: TX_EXTRA_PADDING_MAX_COUNT_def split: if_splits)

lemma get_extra_field_put_defined:
  assumes "get_extra_field bs = Some (f, r)"
  shows "put_extra_field f \<noteq> None" "extra_tag f = 0x00 \<Longrightarrow> r = []" "f \<noteq> Tx_extra_padding 0"
proof -
  show "put_extra_field f \<noteq> None"
    using assms
    by (auto simp: get_extra_field_def put_padding_def TX_EXTRA_PADDING_MAX_COUNT_def put_merge_mining_tag_defined
        elim!: bind_SomeE split: if_splits dest!: get_padding_Some get_string_defined get_keys_defined)
  show "extra_tag f = 0x00 \<Longrightarrow> r = []" "f \<noteq> Tx_extra_padding 0"
    using assms by (auto simp: get_extra_field_def elim!: bind_SomeE split: if_splits dest!: get_padding_Some)
qed

lemma parse_extra_loop_Nil: "parse_extra_loop [] = (False, [])"
  by (subst parse_extra_loop.simps) (simp add: get_extra_field_def get_uint_def get_blob_def)

lemma parse_extra_loop_TrueE:
  assumes "parse_extra_loop bs = (True, fs)"
  obtains (last) f where "get_extra_field bs = Some (f, [])" "fs = [f]"
  | (more) f r gs where "get_extra_field bs = Some (f, r)" "r \<noteq> []" "parse_extra_loop r = (True, gs)" "fs = f # gs"
  using assms unfolding parse_extra_loop.simps [of bs] by (auto split: option.splits if_splits prod.splits)

lemma parse_extra_loop_fields:
  assumes "parse_extra_loop bs = (True, fs)"
  shows "fs \<noteq> []" "\<forall>f \<in> set fs. put_extra_field f \<noteq> None" "\<forall>f \<in> set (butlast fs). extra_tag f \<noteq> 0x00"
    "\<forall>f \<in> set fs. f \<noteq> Tx_extra_padding 0"
proof -
  have "fs \<noteq> [] \<and> (\<forall>f \<in> set fs. put_extra_field f \<noteq> None \<and> f \<noteq> Tx_extra_padding 0) \<and>
      (\<forall>f \<in> set (butlast fs). extra_tag f \<noteq> 0x00)"
    using assms
  proof (induction bs arbitrary: fs rule: parse_extra_loop.induct)
    case (1 bs)
    from "1.prems" show ?case
    proof (cases rule: parse_extra_loop_TrueE)
      case (last f)
      with get_extra_field_put_defined [OF last(1)] show ?thesis by simp
    next
      case (more f r gs)
      with "1.IH" [OF more(1) refl more(2,3)] get_extra_field_put_defined [OF more(1)] show ?thesis by auto
    qed
  qed
  then show "fs \<noteq> []" "\<forall>f \<in> set fs. put_extra_field f \<noteq> None" "\<forall>f \<in> set (butlast fs). extra_tag f \<noteq> 0x00"
    "\<forall>f \<in> set fs. f \<noteq> Tx_extra_padding 0" by auto
qed

lemma remove_field_loop_eq:
  assumes "parse_extra_loop bs = (True, fs)"
  shows "remove_field_loop t bs = Some (concat (map (\<lambda>f. the (put_extra_field f)) (filter (\<lambda>f. extra_tag f \<noteq> t) fs)))"
  using assms
proof (induction bs arbitrary: fs rule: parse_extra_loop.induct)
  case (1 bs)
  from "1.prems" show ?case
  proof (cases rule: parse_extra_loop_TrueE)
    case (last f)
    with get_extra_field_put_defined [OF last(1)] show ?thesis
      by (auto simp: remove_field_loop.simps [of t bs])
  next
    case (more f r gs)
    with "1.IH" [OF more(1) refl more(2,3)] get_extra_field_put_defined [OF more(1)] show ?thesis
      by (auto simp: remove_field_loop.simps [of t bs])
  qed
qed

lemma set_butlast_filter: "set (butlast (filter P xs)) \<subseteq> set (butlast xs)"
proof (cases xs rule: rev_cases)
  case (snoc ys y)
  then show ?thesis by (auto dest: in_set_butlastD)
qed simp

lemma parse_remove_field:
  assumes "parse_tx_extra ex = (True, fs)" and "ex \<noteq> []"
  shows "fst (remove_field_from_tx_extra ex t) \<and>
    parse_tx_extra (snd (remove_field_from_tx_extra ex t)) = (True, filter (\<lambda>f. extra_tag f \<noteq> t) fs)"
proof -
  have p: "parse_extra_loop ex = (True, fs)" using assms by (simp add: parse_tx_extra_def)
  note pf = parse_extra_loop_fields [OF p]
  define gs where "gs = filter (\<lambda>f. extra_tag f \<noteq> t) fs"
  define bss where "bss = map (\<lambda>f. the (put_extra_field f)) gs"
  have th: "those (map put_extra_field gs) = Some bss"
  proof -
    have "\<forall>f \<in> set gs. put_extra_field f \<noteq> None" using pf(2) by (auto simp: gs_def)
    then show ?thesis unfolding bss_def by (induction gs) auto
  qed
  have r: "remove_field_from_tx_extra ex t = (True, concat bss)"
    by (simp add: remove_field_from_tx_extra_def remove_field_loop_eq [OF p] bss_def gs_def)
  have "parse_tx_extra (concat bss) = (True, gs)"
  proof (cases "gs = []")
    case True
    then show ?thesis by (simp add: bss_def parse_tx_extra_def)
  next
    case False
    have "\<forall>f \<in> set (butlast gs). extra_tag f \<noteq> 0x00"
      using pf(3) set_butlast_filter [of "\<lambda>f. extra_tag f \<noteq> t" fs] by (auto simp: gs_def)
    moreover have "last gs \<noteq> Tx_extra_padding 0"
      using pf(4) last_in_set [OF False] by (auto simp: gs_def)
    ultimately have "parse_extra_loop (concat bss) = (True, gs)" using th False by (intro parse_extra_loop_put)
    moreover from this have "concat bss \<noteq> []"
      using parse_extra_loop_Nil by (cases "concat bss") auto
    ultimately show ?thesis by (simp add: parse_tx_extra_def del: concat_eq_Nil_conv)
  qed
  with r show ?thesis by (simp add: gs_def)
qed


section \<open>The nonce's length byte\<close>

lemma put_small_uvarint:
  assumes "n < 128"
  shows "put_uvarint (of_nat n :: size_t) = [of_nat n]"
proof -
  have "ucast (of_nat n :: size_t) = (of_nat n :: byte)"
    using assms by (simp add: word_unat_eq_iff unat_ucast_byte unat_of_nat)
  with assms show ?thesis
    by (simp add: put_uvarint_def get_varint_data_def write_varint_small unat_of_nat)
qed

lemma add_extra_nonce_small:
  assumes "length n < 128"
  shows "add_extra_nonce_to_tx_extra ex n = map_option (\<lambda>b. ex @ b) (put_extra_field (Tx_extra_nonce n))"
  using assms
  by (simp add: add_extra_nonce_to_tx_extra_def put_string_def put_small_uvarint TX_EXTRA_NONCE_MAX_COUNT_def)

text \<open>A length byte with the top bit set starts a longer varint.\<close>

lemma length_get_uvarint_cont:
  assumes "128 \<le> unat b" "bs \<noteq> []" "get_uvarint (b # bs) = Some (v :: size_t, r)"
  shows "length r < length bs"
proof -
  obtain c cs where bs: "bs = c # cs" using assms(2) by (cases bs) auto
  let ?w = "0 OR push_bit 0 (ucast (b AND 0x7f)) :: size_t"
  have "read_varint_loop 64 0 0 0 (b # bs) = read_varint_loop 64 7 1 ?w bs"
    using assms(1) and_80 [of b] by (auto simp: Let_def unat_eq_0 [symmetric])
  moreover have "length (snd (snd (read_varint_loop 64 7 1 ?w bs))) \<le> length cs"
    unfolding bs
    using length_read_varint_loop [of 64 14 2 "ucast (b AND 127) OR push_bit 7 (ucast (c AND 127)) :: size_t" cs]
    by (simp add: Let_def)
  ultimately show ?thesis
    using assms(3) by (simp add: get_uvarint_def read_varint_def read_varint_bits_def bs split: prod.splits)
qed

lemma add_extra_nonce_big:
  assumes "128 \<le> length n" "length n \<le> 255" "add_extra_nonce_to_tx_extra [] n = Some ex"
  shows "get_extra_field ex \<noteq> Some (Tx_extra_nonce n, [])"
proof
  assume a: "get_extra_field ex = Some (Tx_extra_nonce n, [])"
  have ex: "ex = 2 # of_nat (length n) # n"
    using assms(3) by (auto simp: add_extra_nonce_to_tx_extra_def split: if_splits)
  have b: "128 \<le> unat (of_nat (length n) :: byte)" "n \<noteq> []" using assms(1,2) by (auto simp: unat_of_nat)
  from a obtain v :: size_t and r where v: "get_uvarint (of_nat (length n) # n) = Some (v, r)"
      and r: "get_blob (unat v) r = Some (n, [])"
    by (auto simp: ex get_extra_field_def get_string_def elim!: bind_SomeE split: if_splits)
  from r have "length n \<le> length r" by (auto simp: get_blob_def split: if_splits)
  with length_get_uvarint_cont [OF b v] show False by simp
qed

section \<open>The payment-id cipher\<close>

lemma map2_xor_cancel: "length xs \<le> length ys \<Longrightarrow> map2 (XOR) (map2 (XOR) xs ys) ys = (xs :: byte list)"
  by (induction xs ys rule: list_induct2') (auto simp: xor.assoc)

lemma encrypt_payment_id_involution:
  assumes "gkd A r = Some d" "gkd R a = Some d" "32 \<le> length payment_id"
  shows "\<exists>c. encrypt_payment_id gkd payment_id A r = Payment_id c \<and> decrypt_payment_id gkd c R a = Payment_id payment_id"
proof -
  define h where "h = cn_fast_hash (put_key d @ [ENCRYPTED_PAYMENT_ID_TAIL])"
  have h: "length h = 32" by (simp add: h_def)
  have "take 32 (map2 (XOR) (take 32 payment_id) h @ drop 32 payment_id) = map2 (XOR) (take 32 payment_id) h"
    "drop 32 (map2 (XOR) (take 32 payment_id) h @ drop 32 payment_id) = drop 32 payment_id"
    using assms(3) h by simp_all
  then show ?thesis
    using assms h map2_xor_cancel [of "take 32 payment_id" h]
    by (simp add: decrypt_payment_id_def encrypt_payment_id_def Let_def flip: h_def)
qed

section \<open>Properties\<close>

text \<open>C25. A transaction extra written field by field is parsed back into exactly these fields, provided
that padding, which extends to the end of the buffer, comes only last.\<close>

theorem parse_written_extra:
  assumes "those (map put_extra_field fs) = Some bss" and "fs \<noteq> []"
    and "\<forall>f \<in> set (butlast fs). extra_tag f \<noteq> 0x00" and "last fs \<noteq> Tx_extra_padding 0"
  shows "parse_tx_extra (concat bss) = (True, fs)"
proof -
  have "parse_extra_loop (concat bss) = (True, fs)" using assms by (rule parse_extra_loop_put)
  moreover from this have "concat bss \<noteq> []" using parse_extra_loop_Nil by (cases "concat bss") auto
  ultimately show ?thesis by (simp add: parse_tx_extra_def del: concat_eq_Nil_conv)
qed

theorem parse_written_extra_witness:
  "parse_tx_extra (concat [0x01 # put_key 7, [0x02, 0x01, 0x05], [0x00, 0x00]]) =
    (True, [Tx_extra_pub_key 7, Tx_extra_nonce [5], Tx_extra_padding 2])"
  by (rule parse_written_extra)
    (simp_all add: put_string_def put_small_uvarint [of 1, simplified] put_padding_def TX_EXTRA_NONCE_MAX_COUNT_def
      TX_EXTRA_PADDING_MAX_COUNT_def)

text \<open>C26. Removing a field type from a well-formed, non-empty extra succeeds, and the result parses to the
same fields in the same order without the ones of that type.\<close>

theorem remove_field_filters:
  assumes "parse_tx_extra ex = (True, fs)" and "ex \<noteq> []"
  shows "fst (remove_field_from_tx_extra ex t) \<and>
    parse_tx_extra (snd (remove_field_from_tx_extra ex t)) = (True, filter (\<lambda>f. extra_tag f \<noteq> t) fs)"
  using assms by (rule parse_remove_field)

theorem remove_field_filters_witness:
  "fst (remove_field_from_tx_extra [0x02, 0x01, 0x05, 0x00] 0x02) \<and>
    parse_tx_extra (snd (remove_field_from_tx_extra [0x02, 0x01, 0x05, 0x00] 0x02)) = (True, [Tx_extra_padding 1])"
proof -
  have "parse_tx_extra [0x02, 0x01, 0x05, 0x00] = (True, [Tx_extra_nonce [5], Tx_extra_padding 1])"
    by (simp add: parse_tx_extra_def parse_extra_loop.simps get_extra_field_def get_string_def get_uvarint_def
        read_varint_def read_varint_bits_def get_blob_def TX_EXTRA_NONCE_MAX_COUNT_def TX_EXTRA_PADDING_MAX_COUNT_def)
  from remove_field_filters [OF this, where t = "0x02"] show ?thesis by simp
qed

text \<open>C27. A nonce of 128 to 255 bytes is accepted by \<open>add_extra_nonce_to_tx_extra\<close> but cannot be read back:
its length is stored in one byte, which the parser takes for the start of a longer varint.\<close>

theorem add_extra_nonce_unreadable:
  assumes "128 \<le> length n" and "length n \<le> 255"
  shows "\<exists>ex. add_extra_nonce_to_tx_extra [] n = Some ex \<and> get_extra_field ex \<noteq> Some (Tx_extra_nonce n, [])"
proof -
  obtain ex where ex: "add_extra_nonce_to_tx_extra [] n = Some ex"
    using assms(2) by (simp add: add_extra_nonce_to_tx_extra_def TX_EXTRA_NONCE_MAX_COUNT_def)
  with add_extra_nonce_big [OF assms ex] show ?thesis by blast
qed

theorem add_extra_nonce_unreadable_witness:
  "\<exists>ex. add_extra_nonce_to_tx_extra [] (replicate 128 0) = Some ex \<and>
    get_extra_field ex \<noteq> Some (Tx_extra_nonce (replicate 128 0), [])"
  by (rule add_extra_nonce_unreadable) simp_all





end
