(* ===== verification/Tree_Hash.thy ===== *)
theory Tree_Hash
  imports Keccak "HOL-Library.Log_Nat"
begin

text \<open>
  The Merkle root over the transactions of a block: \<open>src/crypto/tree-hash.c\<close>. Hashes are 32-byte
  lists, sizes are natural numbers; a failing \<open>assert\<close> and the shift of an \<open>int\<close> past its width are
  \<open>None\<close>. The array \<open>ints\<close> is updated in place exactly as in the code. The lemmas show that for every
  admissible number of leaves the root is the one of the recursive Merkle tree in which the last
  leaves are paired so that a power of two remains.
\<close>

section \<open>Definitions\<close>

definition ispowerof2_size_t :: "nat \<Rightarrow> bool" where
  "ispowerof2_size_t x \<longleftrightarrow> x \<noteq> 0 \<and> (x AND (x - 1)) = 0"

function tree_hash_cnt_loop :: "nat \<Rightarrow> nat \<Rightarrow> nat" where
  "tree_hash_cnt_loop tmp jj = (if tmp \<noteq> 0 then tree_hash_cnt_loop (tmp div 2) (jj + 1) else jj)"
  by pat_completeness auto
termination
  by (relation "measure fst") auto

declare tree_hash_cnt_loop.simps [simp del]

definition tree_hash_cnt :: "nat \<Rightarrow> nat option" where
  "tree_hash_cnt count =
    (if \<not> 3 \<le> count then None
     else
       let jj = tree_hash_cnt_loop (count - 1) 1
       in if \<not> jj - 2 < 31 then None
          else
            let cnt = push_bit (jj - 2) 1
            in if 0 < cnt \<and> count div 2 \<le> cnt \<and> cnt \<le> count \<and> ispowerof2_size_t cnt then Some cnt else None)"

text \<open>The 64 bytes from the \<open>i\<close>-th entry of an array of hashes on.\<close>

definition hash_pair :: "blob list \<Rightarrow> nat \<Rightarrow> blob" where
  "hash_pair hashes i = cn_fast_hash (hashes ! i @ hashes ! (i + 1))"

function tree_hash_leaves :: "blob list \<Rightarrow> nat \<Rightarrow> nat \<Rightarrow> nat \<Rightarrow> blob list \<Rightarrow> nat \<times> blob list" where
  "tree_hash_leaves hashes cnt i j ints =
    (if j < cnt then tree_hash_leaves hashes cnt (i + 2) (j + 1) (ints[j := hash_pair hashes i]) else (i, ints))"
  by pat_completeness auto
termination
  by (relation "measure (\<lambda>(hashes, cnt, i, j, ints). cnt - j)") auto

function tree_hash_level :: "nat \<Rightarrow> nat \<Rightarrow> nat \<Rightarrow> blob list \<Rightarrow> blob list" where
  "tree_hash_level cnt i j ints =
    (if j < cnt then tree_hash_level cnt (i + 2) (j + 1) (ints[j := hash_pair ints i]) else ints)"
  by pat_completeness auto
termination
  by (relation "measure (\<lambda>(cnt, i, j, ints). cnt - j)") auto

function tree_hash_loop :: "nat \<Rightarrow> blob list \<Rightarrow> blob list" where
  "tree_hash_loop cnt ints =
    (if 2 < cnt then let cnt = cnt div 2 in tree_hash_loop cnt (tree_hash_level cnt 0 0 ints) else ints)"
  by pat_completeness auto
termination
  by (relation "measure fst") auto

declare tree_hash_leaves.simps [simp del] tree_hash_level.simps [simp del] tree_hash_loop.simps [simp del]

definition tree_hash :: "blob list \<Rightarrow> blob option" where
  "tree_hash hashes =
    (let count = length hashes
     in if \<not> 0 < count then None
        else if count = 1 then Some (hashes ! 0)
        else if count = 2 then Some (hash_pair hashes 0)
        else
          case tree_hash_cnt count of
            None \<Rightarrow> None
          | Some cnt \<Rightarrow>
              if \<not> cnt < (2 ^ 64 - 1) div 2 then None
              else
                let ints = take (2 * cnt - count) hashes @ replicate (cnt - (2 * cnt - count)) (replicate 32 0);
                    (i, ints) = tree_hash_leaves hashes cnt (2 * cnt - count) (2 * cnt - count) ints
                in if i \<noteq> count then None
                   else Some (hash_pair (tree_hash_loop cnt ints) 0))"

section \<open>The reference tree\<close>

text \<open>The root of a tree over a power of two of nodes, from the top.\<close>

function merkle :: "blob list \<Rightarrow> blob" where
  "merkle xs =
    (if length xs \<le> 1 then hd xs
     else cn_fast_hash (merkle (take (length xs div 2) xs) @ merkle (drop (length xs div 2) xs)))"
  by pat_completeness auto
termination
  by (relation "measure length") auto

declare merkle.simps [simp del]

fun pair_up :: "blob list \<Rightarrow> blob list" where
  "pair_up (a # b # xs) = cn_fast_hash (a @ b) # pair_up xs"
| "pair_up xs = xs"

text \<open>The last leaves are paired so that a power of two of nodes remains.\<close>

definition merkle_root :: "blob list \<Rightarrow> blob" where
  "merkle_root hs =
    (if length hs = 1 then hd hs
     else
       let c = 2 ^ (floorlog 2 (length hs - 1) - 1); single = 2 * c - length hs
       in merkle (take single hs @ pair_up (drop single hs)))"

section \<open>Sizes\<close>

lemma tree_hash_cnt_loop_eq: "tree_hash_cnt_loop tmp jj = jj + floorlog 2 tmp"
proof (induction tmp jj rule: tree_hash_cnt_loop.induct)
  case (1 tmp jj)
  show ?case
  proof (cases "tmp = 0")
    case True
    then show ?thesis by (simp add: tree_hash_cnt_loop.simps floorlog_def)
  next
    case False
    with 1 show ?thesis by (subst tree_hash_cnt_loop.simps) (simp add: compute_floorlog [of 2 tmp])
  qed
qed

lemma ispowerof2_power: "ispowerof2_size_t (2 ^ k)"
proof -
  have "(2 :: nat) ^ k AND (2 ^ k - 1) = take_bit k (2 ^ k)"
    by (simp add: take_bit_eq_mask mask_eq_exp_minus_1)
  then show ?thesis by (simp add: ispowerof2_size_t_def take_bit_eq_mod)
qed

lemma floorlog_bounds2:
  assumes "0 < n"
  shows "2 ^ (floorlog 2 n - 1) \<le> n" "n < 2 * 2 ^ (floorlog 2 n - 1)"
proof -
  have "floorlog 2 n = Suc (floorlog 2 n - 1)" using assms by (simp add: floorlog_def)
  then have "(2 :: nat) ^ floorlog 2 n = 2 * 2 ^ (floorlog 2 n - 1)" by (metis power_Suc)
  with floorlog_bounds [of n 2] assms
  show "2 ^ (floorlog 2 n - 1) \<le> n" "n < 2 * 2 ^ (floorlog 2 n - 1)" by simp_all
qed

lemma tree_hash_cnt_eq:
  assumes "3 \<le> n" "n \<le> 2 ^ 31"
  shows "tree_hash_cnt n = Some (2 ^ (floorlog 2 (n - 1) - 1))"
proof -
  define w where "w = (2 :: nat) ^ (floorlog 2 (n - 1) - 1)"
  have "floorlog 2 (n - 1) \<le> 31" using assms by (intro floorlog_leI) simp_all
  then have j: "1 + floorlog 2 (n - 1) - 2 < 31" by simp
  have "w \<le> n - 1" "n - 1 < 2 * w" using floorlog_bounds2 [of "n - 1"] assms by (simp_all add: w_def)
  then have b: "0 < w" "n div 2 \<le> w" "w \<le> n" by simp_all
  have p: "push_bit (1 + floorlog 2 (n - 1) - 2) 1 = w" by (simp add: w_def push_bit_eq_mult)
  show ?thesis
    using assms(1) j b ispowerof2_power [of "floorlog 2 (n - 1) - 1", folded w_def]
    unfolding tree_hash_cnt_def tree_hash_cnt_loop_eq Let_def p w_def [symmetric] by simp
qed

section \<open>Arrays updated in place\<close>

lemma length_tree_hash_leaves [simp]: "length (snd (tree_hash_leaves hs cnt i j ints)) = length ints"
  by (induction hs cnt i j ints rule: tree_hash_leaves.induct) (subst tree_hash_leaves.simps, simp)

lemma length_tree_hash_level [simp]: "length (tree_hash_level cnt i j ints) = length ints"
  by (induction cnt i j ints rule: tree_hash_level.induct) (subst tree_hash_level.simps, simp)

lemma pair_up_step:
  assumes "Suc i < length xs"
  shows "pair_up (drop i xs) = hash_pair xs i # pair_up (drop (i + 2) xs)"
proof -
  have "drop i xs = xs ! i # xs ! Suc i # drop (Suc (Suc i)) xs"
    using assms by (metis Cons_nth_drop_Suc Suc_lessD)
  then show ?thesis by (simp add: hash_pair_def)
qed

lemma pair_up_append: "even (length xs) \<Longrightarrow> pair_up (xs @ ys) = pair_up xs @ pair_up ys"
  by (induction xs rule: pair_up.induct) auto

lemma length_pair_up: "even (length xs) \<Longrightarrow> length (pair_up xs) = length xs div 2"
  by (induction xs rule: pair_up.induct) auto

text \<open>The loop over the leaves fills the array from position \<open>j\<close> with the pairs from position \<open>i\<close>.\<close>

lemma tree_hash_leaves_eq:
  assumes "j \<le> cnt" "cnt = length ints" "length hs = i + 2 * (cnt - j)"
  shows "tree_hash_leaves hs cnt i j ints = (length hs, take j ints @ pair_up (drop i hs))"
  using assms
proof (induction hs cnt i j ints rule: tree_hash_leaves.induct)
  case (1 hs cnt i j ints)
  show ?case
  proof (cases "j < cnt")
    case True
    with 1 have "tree_hash_leaves hs cnt (i + 2) (j + 1) (ints[j := hash_pair hs i]) =
        (length hs, take (j + 1) (ints[j := hash_pair hs i]) @ pair_up (drop (i + 2) hs))"
      by (intro "1.IH") auto
    moreover have "take (j + 1) (ints[j := hash_pair hs i]) = take j ints @ [hash_pair hs i]"
      using True "1.prems" by (simp add: take_Suc_conv_app_nth)
    moreover have "pair_up (drop i hs) = hash_pair hs i # pair_up (drop (i + 2) hs)"
      using True "1.prems" by (intro pair_up_step) auto
    ultimately show ?thesis using True by (subst tree_hash_leaves.simps) simp
  next
    case False
    with "1.prems" show ?thesis by (subst tree_hash_leaves.simps) simp
  qed
qed

text \<open>A level overwrites the array it reads, always behind the position it reads next.\<close>

lemma tree_hash_level_eq:
  assumes "j \<le> cnt" "i = 2 * j" "2 * cnt \<le> length ints"
  shows "take cnt (tree_hash_level cnt i j ints) = take j ints @ pair_up (drop i (take (2 * cnt) ints))"
  using assms
proof (induction cnt i j ints rule: tree_hash_level.induct)
  case (1 cnt i j ints)
  show ?case
  proof (cases "j < cnt")
    case True
    let ?ints = "ints[j := hash_pair ints i]"
    have "take cnt (tree_hash_level cnt (i + 2) (j + 1) ?ints) =
        take (j + 1) ?ints @ pair_up (drop (i + 2) (take (2 * cnt) ?ints))"
      using True "1.prems" by (intro "1.IH") auto
    moreover have "take (j + 1) ?ints = take j ints @ [hash_pair ints i]"
      using True "1.prems" by (simp add: take_Suc_conv_app_nth)
    moreover have "drop (i + 2) (take (2 * cnt) ?ints) = drop (i + 2) (take (2 * cnt) ints)"
      using "1.prems"(2) by (simp add: take_update_swap drop_update_cancel)
    moreover have "pair_up (drop i (take (2 * cnt) ints)) =
        hash_pair (take (2 * cnt) ints) i # pair_up (drop (i + 2) (take (2 * cnt) ints))"
      using True "1.prems" by (intro pair_up_step) auto
    moreover have "hash_pair (take (2 * cnt) ints) i = hash_pair ints i"
      using True "1.prems" by (simp add: hash_pair_def)
    ultimately show ?thesis using True by (subst tree_hash_level.simps) simp
  next
    case False
    with "1.prems" show ?thesis by (subst tree_hash_level.simps) simp
  qed
qed

section \<open>Bottom-up equals top-down\<close>

lemma merkle_pair_up:
  assumes "length xs = 2 ^ Suc k"
  shows "merkle (pair_up xs) = merkle xs"
  using assms
proof (induction k arbitrary: xs)
  case 0
  then obtain a b where "xs = [a, b]" by (auto simp: length_Suc_conv numeral_2_eq_2)
  then show ?case by (simp add: merkle.simps)
next
  case (Suc k)
  let ?a = "take (2 ^ Suc k) xs" and ?b = "drop (2 ^ Suc k) xs"
  have half: "length xs div 2 = 2 ^ Suc k" "length ?a = 2 ^ Suc k" "length ?b = 2 ^ Suc k"
    using Suc.prems by simp_all
  have "1 \<le> (2 :: nat) ^ k" by simp
  then have "\<not> length xs \<le> 1" using Suc.prems unfolding power_Suc by linarith
  then have m: "merkle xs = cn_fast_hash (merkle ?a @ merkle ?b)"
    by (subst merkle.simps) (simp only: half if_False)
  have p: "pair_up xs = pair_up ?a @ pair_up ?b"
    using half(2) by (metis append_take_drop_id pair_up_append even_power even_numeral zero_less_Suc)
  have l: "length (pair_up ?a) = 2 ^ k" "length (pair_up ?b) = 2 ^ k"
    using half by (simp_all add: length_pair_up)
  have "merkle (pair_up xs) = cn_fast_hash (merkle (pair_up ?a) @ merkle (pair_up ?b))"
  proof -
    have "\<not> length (pair_up ?a @ pair_up ?b) \<le> 1"
      using \<open>1 \<le> 2 ^ k\<close> unfolding length_append l by linarith
    moreover have "length (pair_up ?a @ pair_up ?b) div 2 = length (pair_up ?a)" using l by simp
    ultimately show ?thesis unfolding p by (subst merkle.simps) simp
  qed
  then show ?case using Suc.IH half(2,3) m by simp
qed

lemma tree_hash_loop_eq:
  assumes "cnt = 2 ^ Suc k" "cnt \<le> length ints"
  shows "hash_pair (tree_hash_loop cnt ints) 0 = merkle (take cnt ints)"
  using assms
proof (induction k arbitrary: cnt ints)
  case 0
  then obtain a b xs where "ints = a # b # xs" by (auto simp: Suc_le_length_iff numeral_2_eq_2)
  with 0 show ?case by (simp add: tree_hash_loop.simps hash_pair_def merkle.simps)
next
  case (Suc k)
  let ?ints = "tree_hash_level (cnt div 2) 0 0 ints"
  have half: "cnt div 2 = 2 ^ Suc k" "2 * (cnt div 2) = cnt" using Suc.prems by simp_all
  have "1 \<le> (2 :: nat) ^ k" by simp
  then have "2 < cnt" using Suc.prems(1) unfolding power_Suc by linarith
  then have "hash_pair (tree_hash_loop cnt ints) 0 = hash_pair (tree_hash_loop (cnt div 2) ?ints) 0"
    by (subst tree_hash_loop.simps) (simp add: Let_def)
  also have "\<dots> = merkle (take (cnt div 2) ?ints)"
    using Suc.prems half by (intro Suc.IH) simp_all
  also have "take (cnt div 2) ?ints = pair_up (take cnt ints)"
    using tree_hash_level_eq [of 0 "cnt div 2" 0 ints] half Suc.prems by simp
  also have "merkle \<dots> = merkle (take cnt ints)"
    using Suc.prems by (intro merkle_pair_up [of _ "Suc k"]) simp
  finally show ?case .
qed

lemma tree_hash_eq:
  assumes "0 < length hs" "length hs \<le> 2 ^ 31"
  shows "tree_hash hs = Some (merkle_root hs)"
proof -
  consider "length hs = 1" | "length hs = 2" | "3 \<le> length hs" using assms(1) by linarith
  then show ?thesis
  proof cases
    case 1
    then show ?thesis by (auto simp: tree_hash_def merkle_root_def length_Suc_conv)
  next
    case 2
    then obtain a b where "hs = [a, b]" by (auto simp: length_Suc_conv numeral_2_eq_2)
    then show ?thesis
      by (simp add: tree_hash_def merkle_root_def hash_pair_def floorlog_def merkle.simps)
  next
    case 3
    define k where "k = floorlog 2 (length hs - 1) - 1"
    define c where "c = (2 :: nat) ^ k"
    define s where "s = 2 * c - length hs"
    define ints where "ints = take s hs @ replicate (c - s) (replicate 32 0)"
    have cb: "c \<le> length hs - 1" "length hs - 1 < 2 * c"
      using floorlog_bounds2 [of "length hs - 1"] 3 by (simp_all add: c_def k_def)
    have sc: "s < c" "s \<le> length hs" using cb 3 by (simp_all add: s_def)
    have cnt: "tree_hash_cnt (length hs) = Some c"
      using 3 assms(2) by (simp add: tree_hash_cnt_eq c_def k_def)
    have k: "\<exists>k'. k = Suc k'"
    proof -
      have "2 \<le> floorlog 2 (length hs - 1)" using 3 by (intro floorlog_geI) simp_all
      then show ?thesis by (intro exI [of _ "k - 1"]) (simp add: k_def)
    qed
    have lv: "tree_hash_leaves hs c s s ints = (length hs, take s ints @ pair_up (drop s hs))"
      using sc cb 3 by (intro tree_hash_leaves_eq) (auto simp: ints_def s_def)
    have ts: "take s ints = take s hs" using sc by (simp add: ints_def)
    have len: "length (take s hs @ pair_up (drop s hs)) = c"
    proof -
      have "length (snd (tree_hash_leaves hs c s s ints)) = c" using sc by (simp add: ints_def)
      then show ?thesis by (simp only: lv snd_conv ts)
    qed
    have "c < (2 ^ 64 - 1) div 2" using cb assms(2) by simp
    moreover obtain k' where k': "c = 2 ^ Suc k'" using k c_def by auto
    have "hash_pair (tree_hash_loop c (take s hs @ pair_up (drop s hs))) 0 = merkle (take s hs @ pair_up (drop s hs))"
      using tree_hash_loop_eq [OF k', of "take s hs @ pair_up (drop s hs)"]
      by (simp only: len order.refl take_all)
    ultimately have "tree_hash hs = Some (merkle (take s hs @ pair_up (drop s hs)))"
      using 3 cnt lv ts by (simp add: tree_hash_def Let_def flip: s_def ints_def) auto
    moreover have "merkle_root hs = merkle (take s hs @ pair_up (drop s hs))"
      using 3 by (simp add: merkle_root_def s_def c_def k_def Let_def)
    ultimately show ?thesis by simp
  qed
qed

section \<open>Properties\<close>

text \<open>C15. The tree hash of every list of one to \<open>2 ^ 31\<close> leaves exists (no assertion fails) and is the
root of the recursive Merkle tree: the last leaves are hashed in pairs so that the largest power of two
below the number of leaves remains, and the rest is a complete binary tree. The level-by-level
computation in one overwritten array gives exactly this root.\<close>

theorem tree_hash_is_merkle_root:
  assumes "0 < length hs" and "length hs \<le> 2 ^ 31"
  shows "tree_hash hs = Some (merkle_root hs)"
  using assms by (rule tree_hash_eq)

theorem tree_hash_is_merkle_root_witness:
  "tree_hash [[1], [2], [3]] = Some (merkle_root [[1], [2], [3]])"
  by (rule tree_hash_is_merkle_root) simp_all

end
