(* ===== verification/Emission.thy ===== *)
theory Emission
  imports Difficulty
begin

text \<open>
  Coin emission: \<open>get_block_reward\<close> and the size limits of
  \<open>src/cryptonote_core/cryptonote_basic_impl.cpp\<close> with the constants of \<open>src/cryptonote_config.h\<close>.

  The first emission phase computes in \<open>double\<close>. A non-negative double is modelled by its integer
  significand and binary exponent; every operation rounds the exact result to 53 significant bits, ties to
  even, which is what the IEEE operations do where they neither overflow nor become subnormal, as here. The
  lemmas show that this arithmetic yields exactly the rational emission curve, what every block height
  pays, and that the number of coins stays within the supply.
\<close>

section \<open>Binary floating point\<close>

text \<open>The value of the pair \<open>(m, e)\<close> is \<open>m * 2 ^ e\<close>.\<close>

type_synonym fp = "int \<times> int"

function bit_length :: "int \<Rightarrow> nat" where
  "bit_length n = (if n \<le> 0 then 0 else Suc (bit_length (n div 2)))"
  by pat_completeness auto
termination
  by (relation "measure nat") auto

declare bit_length.simps [simp del]

definition fp_round :: "nat \<Rightarrow> fp \<Rightarrow> fp" where
  "fp_round p x =
    (let (m, e) = x; b = bit_length m
     in if b \<le> p then (m, e)
        else
          let s = b - p; q = m div 2 ^ s; r = m mod 2 ^ s
          in (if 2 ^ s < 2 * r \<or> 2 * r = 2 ^ s \<and> odd q then q + 1 else q, e + int s))"

text \<open>A decimal literal \<open>n / d\<close>: the quotient with enough bits, the last one standing for the rest.\<close>

definition fp_literal :: "nat \<Rightarrow> int \<Rightarrow> int \<Rightarrow> fp" where
  "fp_literal p n d =
    (let k = p + 2 + bit_length d; q = n * 2 ^ k div d; r = n * 2 ^ k mod d
     in fp_round p (2 * q + (if r = 0 then 0 else 1), - int k - 1))"

definition fp_of_u64 :: "nat \<Rightarrow> u64 \<Rightarrow> fp" where
  "fp_of_u64 p w = fp_round p (int (unat w), 0)"

definition fp_mul :: "nat \<Rightarrow> fp \<Rightarrow> fp \<Rightarrow> fp" where
  "fp_mul p x y = fp_round p (fst x * fst y, snd x + snd y)"

definition fp_add :: "nat \<Rightarrow> fp \<Rightarrow> fp \<Rightarrow> fp" where
  "fp_add p x y =
    (let e = min (snd x) (snd y)
     in fp_round p (fst x * 2 ^ nat (snd x - e) + fst y * 2 ^ nat (snd y - e), e))"

text \<open>The conversion to \<open>uint64_t\<close> truncates.\<close>

definition fp_to_u64 :: "fp \<Rightarrow> u64" where
  "fp_to_u64 x =
    word_of_int (if 0 \<le> snd x then fst x * 2 ^ nat (snd x) else fst x div 2 ^ nat (- snd x))"

abbreviation double :: nat where
  "double \<equiv> 53"

section \<open>Constants\<close>

definition MONEY_SUPPLY :: u64 where
  "MONEY_SUPPLY = 1000000000000000000"

definition EMISSION_SPEED_FACTOR :: nat where
  "EMISSION_SPEED_FACTOR = 21"

definition FINAL_SUBSIDY :: u64 where
  "FINAL_SUBSIDY = 4000000000"

definition GENESIS_BLOCK_REWARD :: u64 where
  "GENESIS_BLOCK_REWARD = 135000000000000000"

text \<open>The floating-point constant expressions of these two macros are exact.\<close>

definition COIN_EMISSION_HEIGHT_INTERVAL :: u64 where
  "COIN_EMISSION_HEIGHT_INTERVAL = 6 * (304375 * 24 * 3600) div (10000 * DIFFICULTY_TARGET)"

definition PEAK_COIN_EMISSION_HEIGHT :: u64 where
  "PEAK_COIN_EMISSION_HEIGHT = 12 * 304375 * 24 * 3600 div (10000 * DIFFICULTY_TARGET) * 4"

definition MAX_BLOCK_SIZE_NOT_CHECKED :: size_t where
  "MAX_BLOCK_SIZE_NOT_CHECKED = 5 * 1024 * 1024"

definition CRYPTONOTE_MAX_BLOCK_SIZE :: size_t where
  "CRYPTONOTE_MAX_BLOCK_SIZE = 500000000"

definition CRYPTONOTE_MAX_TX_SIZE :: size_t where
  "CRYPTONOTE_MAX_TX_SIZE = 1000000000"

definition get_max_block_size :: size_t where
  "get_max_block_size = CRYPTONOTE_MAX_BLOCK_SIZE"

definition get_max_tx_size :: size_t where
  "get_max_tx_size = CRYPTONOTE_MAX_TX_SIZE"

section \<open>The block reward\<close>

definition money_supply_pct :: "u64 \<Rightarrow> fp" where
  "money_supply_pct interval_num =
    fp_add double (fp_literal double 1888 10000)
      (fp_mul double (fp_of_u64 double interval_num)
        (fp_add double (fp_literal double 23 1000)
          (fp_mul double (fp_of_u64 double interval_num) (fp_literal double 32 10000))))"

definition emission_base_reward :: "u64 \<Rightarrow> u64 \<Rightarrow> u64" where
  "emission_base_reward already_generated_coins h =
    (if 1 < h then
       if h < PEAK_COIN_EMISSION_HEIGHT + COIN_EMISSION_HEIGHT_INTERVAL then
         let interval_num = h div COIN_EMISSION_HEIGHT_INTERVAL
         in drop_bit EMISSION_SPEED_FACTOR
              (fp_to_u64 (fp_mul double (fp_of_u64 double MONEY_SUPPLY) (money_supply_pct interval_num)))
       else drop_bit EMISSION_SPEED_FACTOR (MONEY_SUPPLY - already_generated_coins)
     else GENESIS_BLOCK_REWARD)"

definition get_block_reward :: "size_t \<Rightarrow> size_t \<Rightarrow> u64 \<Rightarrow> u64 \<Rightarrow> u64 option" where
  "get_block_reward median_size current_block_size already_generated_coins h =
    (let round_factor = 10000000;
         base_reward = emission_base_reward already_generated_coins h;
         base_reward = (if base_reward < FINAL_SUBSIDY
                        then (if already_generated_coins < MONEY_SUPPLY then FINAL_SUBSIDY else FINAL_SUBSIDY div 2)
                        else base_reward);
         base_reward = base_reward div round_factor * round_factor
     in if max (2 * median_size) MAX_BLOCK_SIZE_NOT_CHECKED < current_block_size then None else Some base_reward)"

section \<open>Fees\<close>

definition DYNAMIC_FEE_PER_KB_BASE_FEE :: u64 where
  "DYNAMIC_FEE_PER_KB_BASE_FEE = 5750000"

definition DYNAMIC_FEE_PER_KB_BASE_BLOCK_REWARD :: u64 where
  "DYNAMIC_FEE_PER_KB_BASE_BLOCK_REWARD = 736000000000"

definition CRYPTONOTE_COINBASE_BLOB_RESERVED_SIZE :: size_t where
  "CRYPTONOTE_COINBASE_BLOB_RESERVED_SIZE = 600"

text \<open>The first component is the fee, the second the high half of the quotient, which the code asserts to
be zero.\<close>

definition get_dynamic_per_kb_fee_parts :: "u64 \<Rightarrow> u64 \<times> u64" where
  "get_dynamic_per_kb_fee_parts block_reward =
    (let block_reward = (if block_reward < DYNAMIC_FEE_PER_KB_BASE_BLOCK_REWARD
                         then DYNAMIC_FEE_PER_KB_BASE_BLOCK_REWARD else block_reward);
         (lo, hi) = mul128 DYNAMIC_FEE_PER_KB_BASE_FEE block_reward;
         (_, hi, lo) = div128_32 hi lo (ucast (DYNAMIC_FEE_PER_KB_BASE_BLOCK_REWARD div 1000000));
         (_, hi, lo) = div128_32 hi lo 1000000
     in (lo, hi))"

definition get_dynamic_per_kb_fee :: "u64 \<Rightarrow> u64" where
  "get_dynamic_per_kb_fee block_reward = fst (get_dynamic_per_kb_fee_parts block_reward)"

text \<open>The coins generated before the emission interval of a height; \<open>coins_at\<close> is the database's
\<open>get_block_already_generated_coins\<close>.\<close>

definition cal_generated_coins :: "(u64 \<Rightarrow> u64) \<Rightarrow> u64 \<Rightarrow> u64" where
  "cal_generated_coins coins_at h =
    (let cal_height = h - h mod COIN_EMISSION_HEIGHT_INTERVAL
     in if cal_height \<noteq> 0 then coins_at (cal_height - 1) else 0)"

abbreviation float :: nat where
  "float \<equiv> 24"

definition fp_fits_u64 :: "fp \<Rightarrow> bool" where
  "fp_fits_u64 x \<longleftrightarrow>
    (if 0 \<le> snd x then fst x * 2 ^ nat (snd x) else fst x div 2 ^ nat (- snd x)) < 2 ^ 64"

text \<open>The fee asked for a blob: \<open>None\<close> where the conversion to \<open>uint64_t\<close> is out of range, which the language
leaves undefined. Dividing by 1024 changes the exponent only.\<close>

definition needed_fee :: "size_t \<Rightarrow> u64 \<Rightarrow> u64 option" where
  "needed_fee blob_size fee_per_kb =
    (let n = fp_of_u64 float (blob_size - CRYPTONOTE_COINBASE_BLOB_RESERVED_SIZE);
         kB = (fst n, snd n - 10);
         f = fp_mul float kB (fp_of_u64 float fee_per_kb)
     in if fp_fits_u64 f then Some (fp_to_u64 f div 100 * 100) else None)"

definition check_fee :: "size_t \<Rightarrow> u64 \<Rightarrow> (u64 \<Rightarrow> u64) \<Rightarrow> size_t \<Rightarrow> u64 \<Rightarrow> bool option" where
  "check_fee cumul_sz_limit h coins_at blob_size fee =
    (let median = cumul_sz_limit div 2
     in case get_block_reward median 1 (cal_generated_coins coins_at h) h of
          None \<Rightarrow> Some False
        | Some base_reward \<Rightarrow>
            (case needed_fee blob_size (get_dynamic_per_kb_fee base_reward) of
               None \<Rightarrow> None
             | Some needed \<Rightarrow> Some (\<not> fee < needed)))"

section \<open>The curve\<close>

text \<open>The share of the supply that an interval pays out, in units of one ten-thousandth.\<close>

definition pct_exact :: "nat \<Rightarrow> nat" where
  "pct_exact k = 1888 + k * (230 + k * 32)"

lemma interval_eq: "COIN_EMISSION_HEIGHT_INTERVAL = 262980" "PEAK_COIN_EMISSION_HEIGHT = 2103840"
  by (simp_all add: COIN_EMISSION_HEIGHT_INTERVAL_def PEAK_COIN_EMISSION_HEIGHT_def DIFFICULTY_TARGET_def)

lemmas fp_eval = money_supply_pct_def fp_add_def fp_mul_def fp_literal_def fp_of_u64_def fp_round_def fp_to_u64_def
  MONEY_SUPPLY_def bit_length.simps EMISSION_SPEED_FACTOR_def

abbreviation curve :: "nat \<Rightarrow> u64" where
  "curve k \<equiv> drop_bit EMISSION_SPEED_FACTOR
     (fp_to_u64 (fp_mul double (fp_of_u64 double MONEY_SUPPLY) (money_supply_pct (of_nat k))))"

lemma curve_0: "curve 0 = 90026855468"
  by (simp add: fp_eval)

lemma curve_1: "curve 1 = 102519989013"
  by (simp add: fp_eval)

lemma curve_2: "curve 2 = 118064880371"
  by (simp add: fp_eval)

lemma curve_3: "curve 3 = 136661529541"
  by (simp add: fp_eval)

lemma curve_4: "curve 4 = 158309936523"
  by (simp add: fp_eval)

lemma curve_5: "curve 5 = 183010101318"
  by (simp add: fp_eval)

lemma curve_6: "curve 6 = 210762023925"
  by (simp add: fp_eval)

lemma curve_7: "curve 7 = 241565704345"
  by (simp add: fp_eval)

lemma curve_8: "curve 8 = 275421142578"
  by (simp add: fp_eval)

lemmas curve_values = curve_0 curve_1 curve_2 curve_3 curve_4 curve_5 curve_6 curve_7 curve_8

lemma less_9_cases: "k < (9::nat) \<Longrightarrow> k = 0 \<or> k = 1 \<or> k = 2 \<or> k = 3 \<or> k = 4 \<or> k = 5 \<or> k = 6 \<or> k = 7 \<or> k = 8"
  by linarith

lemma curve_exact:
  assumes "k < 9"
  shows "curve k = of_nat (pct_exact k * 10 ^ 14 div 2 ^ 21)"
  using less_9_cases [OF assms]
  by (elim disjE) (simp_all only: curve_values, simp_all add: pct_exact_def)

lemma curve_bounds:
  assumes "k < 9"
  shows "90026855468 \<le> unat (curve k)" and "unat (curve k) \<le> 275421142578"
  using less_9_cases [OF assms]
  by (elim disjE; simp only: curve_values; simp)+


section \<open>The reward\<close>

lemma unat_interval: "unat (h div COIN_EMISSION_HEIGHT_INTERVAL) = unat h div 262980"
  by (simp add: interval_eq unat_div)

lemma phase_1_interval:
  assumes "h < PEAK_COIN_EMISSION_HEIGHT + COIN_EMISSION_HEIGHT_INTERVAL"
  shows "unat h div 262980 < 9"
proof -
  from assms have "unat h < 2366820" by (simp add: interval_eq word_less_nat_alt)
  then show ?thesis by (simp add: less_mult_imp_div_less)
qed

lemma emission_phase_1:
  assumes "1 < h" and "h < PEAK_COIN_EMISSION_HEIGHT + COIN_EMISSION_HEIGHT_INTERVAL"
  shows "emission_base_reward coins h = curve (unat h div 262980)"
proof -
  have "h div COIN_EMISSION_HEIGHT_INTERVAL = of_nat (unat h div 262980)"
    by (simp flip: unat_interval)
  then show ?thesis using assms by (simp add: emission_base_reward_def Let_def)
qed

lemma final_subsidy_le_curve:
  assumes "k < 9"
  shows "\<not> curve k < FINAL_SUBSIDY"
  using curve_bounds(1) [OF assms] by (simp add: word_less_nat_alt FINAL_SUBSIDY_def)

text \<open>The reward before the size check.\<close>

abbreviation floored :: "u64 \<Rightarrow> u64" where
  "floored r \<equiv> r div 10000000 * 10000000"

lemma floored_nat: "unat (floored r) = unat r div 10000000 * 10000000"
proof -
  have "unat r div 10000000 * 10000000 \<le> unat r" by (rule div_times_less_eq_dividend)
  also have "\<dots> < 2 ^ LENGTH(64)" by (rule unat_lt_size)
  finally have "unat (r div 10000000) * unat (10000000 :: u64) < 2 ^ LENGTH(64)"
    by (simp add: unat_div)
  then show ?thesis by (simp add: unat_mult_no_wrap unat_div)
qed

lemma floored_mono: "unat a \<le> unat b \<Longrightarrow> unat (floored a) \<le> unat (floored b)"
  by (simp add: floored_nat div_le_mono)

lemma get_block_reward_cases:
  obtains (oversize) "get_block_reward m c coins h = None" "max (2 * m) MAX_BLOCK_SIZE_NOT_CHECKED < c"
  | (paid) r where "get_block_reward m c coins h = Some (floored r)" "c \<le> max (2 * m) MAX_BLOCK_SIZE_NOT_CHECKED"
      "r = (if emission_base_reward coins h < FINAL_SUBSIDY
            then if coins < MONEY_SUPPLY then FINAL_SUBSIDY else FINAL_SUBSIDY div 2
            else emission_base_reward coins h)"
  by (cases "max (2 * m) MAX_BLOCK_SIZE_NOT_CHECKED < c")
    (simp_all add: get_block_reward_def Let_def not_less del: max_less_iff_conj)

lemma emission_max:
  assumes "1 < h"
  shows "unat (emission_base_reward coins h) \<le> 8796093022208"
proof (cases "h < PEAK_COIN_EMISSION_HEIGHT + COIN_EMISSION_HEIGHT_INTERVAL")
  case True
  then show ?thesis
    using curve_bounds(2) [OF phase_1_interval [OF True]] assms by (simp add: emission_phase_1)
next
  case False
  have "unat (MONEY_SUPPLY - coins) div 2 ^ 21 < 8796093022208"
    by (rule less_mult_imp_div_less) simp
  then show ?thesis
    using assms False by (simp add: emission_base_reward_def word_nat EMISSION_SPEED_FACTOR_def)
qed

section \<open>The emission schedule over the naturals\<close>

definition emission_schedule :: "nat \<Rightarrow> nat \<Rightarrow> nat" where
  "emission_schedule coins h =
    (let r = (if h \<le> 1 then 135 * 10 ^ 15
              else if h < 2366820 then pct_exact (h div 262980) * 10 ^ 14 div 2 ^ 21
              else (10 ^ 18 - coins) div 2 ^ 21);
         r = (if r < 4 * 10 ^ 9 then if coins < 10 ^ 18 then 4 * 10 ^ 9 else 2 * 10 ^ 9 else r)
     in r div 10 ^ 7 * 10 ^ 7)"

lemma pct_small:
  assumes "k < 9"
  shows "pct_exact k * 10 ^ 14 div 2 ^ 21 < 2 ^ 64"
  using less_9_cases [OF assms] by (elim disjE) (simp_all add: pct_exact_def)

lemma unat_emission:
  assumes "unat coins \<le> 10 ^ 18"
  shows "unat (emission_base_reward coins h) =
    (if unat h \<le> 1 then 135 * 10 ^ 15
     else if unat h < 2366820 then pct_exact (unat h div 262980) * 10 ^ 14 div 2 ^ 21
     else (10 ^ 18 - unat coins) div 2 ^ 21)"
proof -
  have 1: "1 < h \<longleftrightarrow> \<not> unat h \<le> 1" by (simp add: word_less_nat_alt not_le)
  have 2: "h < PEAK_COIN_EMISSION_HEIGHT + COIN_EMISSION_HEIGHT_INTERVAL \<longleftrightarrow> unat h < 2366820"
    by (simp add: interval_eq word_less_nat_alt)
  have 3: "unat (drop_bit EMISSION_SPEED_FACTOR (MONEY_SUPPLY - coins)) = (10 ^ 18 - unat coins) div 2 ^ 21"
    using assms by (simp add: word_nat EMISSION_SPEED_FACTOR_def MONEY_SUPPLY_def unat_sub word_le_nat_alt)
  have 4: "unat (curve (unat h div 262980)) = pct_exact (unat h div 262980) * 10 ^ 14 div 2 ^ 21"
    if "unat h < 2366820"
  proof -
    from that have k: "unat h div 262980 < 9" by (simp add: less_mult_imp_div_less)
    show ?thesis unfolding curve_exact [OF k] unfolding unat_of_nat using pct_small [OF k] by simp
  qed
  show ?thesis
  proof (cases "unat h \<le> 1")
    case True
    then show ?thesis by (simp add: emission_base_reward_def 1 GENESIS_BLOCK_REWARD_def)
  next
    case False
    then show ?thesis
    proof (cases "unat h < 2366820")
      case True
      with False show ?thesis by (simp add: emission_phase_1 1 2 4)
    next
      case h: False
      with False show ?thesis using 3 by (simp add: emission_base_reward_def 1 2)
    qed
  qed
qed



lemma genesis_large: "\<not> unat (135000000000000000 :: u64) \<le> 8796093022208"
  by simp


section \<open>Fees\<close>

lemma reward_of_small_block: "\<exists>r. get_block_reward m 1 coins h = Some r"
  by (cases rule: get_block_reward_cases [of m 1 coins h]) (auto simp: MAX_BLOCK_SIZE_NOT_CHECKED_def max_def split: if_splits)

lemma dynamic_fee_exact:
  "case get_dynamic_per_kb_fee_parts r of (lo, hi) \<Rightarrow>
     hi = 0 \<and> unat lo = 5750000 * max (unat r) 736000000000 div 736000000000"
proof -
  define b where "b = (if r < DYNAMIC_FEE_PER_KB_BASE_BLOCK_REWARD then DYNAMIC_FEE_PER_KB_BASE_BLOCK_REWARD else r)"
  have b: "unat b = max (unat r) 736000000000"
    by (auto simp: b_def DYNAMIC_FEE_PER_KB_BASE_BLOCK_REWARD_def word_less_nat_alt)
  obtain l1 h1 where m: "mul128 DYNAMIC_FEE_PER_KB_BASE_FEE b = (l1, h1)" by fastforce
  obtain r2 h2 l2 where d2: "div128_32 h1 l1 736000 = (r2, h2, l2)" by (metis surj_pair)
  obtain r3 h3 l3 where d3: "div128_32 h2 l2 1000000 = (r3, h3, l3)" by (metis surj_pair)
  have eq: "get_dynamic_per_kb_fee_parts r = (l3, h3)"
    unfolding get_dynamic_per_kb_fee_parts_def Let_def b_def [symmetric]
    by (simp add: m d2 d3 DYNAMIC_FEE_PER_KB_BASE_BLOCK_REWARD_def)
  define q2 q3 where "q2 = unat h2 * 2 ^ 64 + unat l2" and "q3 = unat h3 * 2 ^ 64 + unat l3"
  note m' = mul128_correct [OF m] and d2' = div128_32_correct [OF _ d2] and d3' = div128_32_correct [OF _ d3]
  have "5750000 * unat b = q2 * 736000 + unat r2 \<and> unat r2 < 736000"
    using m' d2' by (simp add: q2_def DYNAMIC_FEE_PER_KB_BASE_FEE_def word_less_nat_alt)
  then have 2: "q2 = 5750000 * unat b div 736000" by (simp add: div_mult_self3)
  have "q2 = q3 * 1000000 + unat r3 \<and> unat r3 < 1000000"
    using d3' by (simp add: q2_def q3_def word_less_nat_alt)
  then have "q3 = q2 div 1000000" by simp
  with 2 have 3: "q3 = 5750000 * unat b div 736000000000" by (simp add: div_mult2_eq [symmetric])
  have "q3 \<le> unat b" unfolding 3 by linarith
  also have "unat b < 2 ^ 64" by simp
  finally have "q3 < 2 ^ 64" .
  then have "h3 = 0" by (cases "unat h3") (simp_all add: q3_def unat_eq_0)
  with 3 show ?thesis by (simp add: eq q3_def b)
qed

text \<open>The fee per kilobyte is the base fee scaled by the block reward, with the reward held at its base
value where it is lower, exact over the naturals; the high half that the code asserts to be zero is zero for every
reward.\<close>

lemma get_dynamic_per_kb_fee_exact:
  "case get_dynamic_per_kb_fee_parts r of (lo, hi) \<Rightarrow>
     hi = 0 \<and> unat lo = 5750000 * max (unat r) 736000000000 div 736000000000"
  by (rule dynamic_fee_exact)

subsection \<open>Blobs below the reserved size\<close>

lemma bit_length_half: "0 < n \<Longrightarrow> bit_length n = Suc (bit_length (n div 2))"
  by (subst bit_length.simps) simp

lemma bit_length_upper: "n < 2 ^ bit_length n"
proof (induction n rule: bit_length.induct)
  case (1 n)
  show ?case
  proof (cases "n \<le> 0")
    case True
    then show ?thesis by (simp add: le_less_trans [of n 0])
  next
    case False
    with 1 have "n div 2 < 2 ^ bit_length (n div 2)" by simp
    with False show ?thesis by (simp add: bit_length_half)
  qed
qed

lemma bit_length_lower: "0 < n \<Longrightarrow> 2 ^ (bit_length n - 1) \<le> n"
proof (induction n rule: bit_length.induct)
  case (1 n)
  show ?case
  proof (cases "n = 1")
    case True
    then show ?thesis by (simp add: bit_length.simps)
  next
    case False
    with "1.prems" have h: "0 < n div 2" by linarith
    have "(2::int) ^ bit_length (n div 2) = 2 * 2 ^ (bit_length (n div 2) - 1)"
      by (simp add: bit_length_half [OF h])
    also have "\<dots> \<le> 2 * (n div 2)" using "1.IH" [OF _ h] "1.prems" by simp
    also have "\<dots> \<le> n" by simp
    finally show ?thesis using bit_length_half [OF "1.prems"] by simp
  qed
qed

text \<open>Rounding never takes a value below a power of two that it had reached.\<close>

lemma fp_round_lower:
  assumes "0 \<le> e" and "0 < p" and "2 ^ k \<le> m * 2 ^ nat e" and "fp_round p (m, e) = (m', e')"
  shows "0 \<le> e' \<and> 2 ^ k \<le> m' * 2 ^ nat e'"
proof (cases "bit_length m \<le> p")
  case True
  then show ?thesis using assms by (simp add: fp_round_def Let_def)
next
  case False
  define s where "s = bit_length m - p"
  have m: "0 < m" using False by (cases "m \<le> 0") (simp_all add: bit_length.simps)
  have e': "e' = e + int s" and m': "m div 2 ^ s \<le> m'"
    using assms(4) False by (auto simp: fp_round_def Let_def s_def split: if_splits)
  have b: "bit_length m - 1 = (p - 1) + s" using False assms(2) by (simp add: s_def)
  have "2 ^ (p - 1) * 2 ^ s \<le> m" using bit_length_lower [OF m] unfolding b power_add .
  then have "2 ^ (p - 1) \<le> m div 2 ^ s" using zdiv_mono1 [of "2 ^ (p - 1) * 2 ^ s" m "2 ^ s"] by simp
  with m' have "2 ^ (p - 1) \<le> m'" by simp
  then have up: "2 ^ (p - 1) * 2 ^ (nat e + s) \<le> m' * 2 ^ (nat e + s)" by simp
  have "m * 2 ^ nat e < 2 ^ bit_length m * 2 ^ nat e" using bit_length_upper [of m] by simp
  with assms(3) have "(2::int) ^ k < 2 ^ (bit_length m + nat e)" unfolding power_add by (rule le_less_trans)
  then have "k < bit_length m + nat e" by (rule power_less_imp_less_exp [rotated]) simp
  then have "(2::int) ^ k \<le> 2 ^ (p - 1 + (nat e + s))" using False assms(2) b by (intro power_increasing) auto
  then have "2 ^ k \<le> m' * 2 ^ (nat e + s)" using up unfolding power_add [of _ "p - 1"] by (rule order.trans)
  then show ?thesis using assms(1) by (simp add: e' nat_add_distrib)
qed


lemma bit_length_eqI:
  assumes "2 ^ n \<le> m" and "m < 2 ^ Suc n"
  shows "bit_length m = Suc n"
proof -
  have m: "0 < m" using assms(1) by (rule less_le_trans [rotated]) simp
  have "(2::int) ^ n < 2 ^ bit_length m" using assms(1) bit_length_upper [of m] by (rule le_less_trans)
  then have "n < bit_length m" by (rule power_less_imp_less_exp [rotated]) simp
  moreover have "(2::int) ^ (bit_length m - 1) < 2 ^ Suc n" using bit_length_lower [OF m] assms(2) by (rule le_less_trans)
  then have "bit_length m - 1 < Suc n" by (rule power_less_imp_less_exp [rotated]) simp
  ultimately show ?thesis by linarith
qed

lemma small_blob_float:
  assumes "blob_size < CRYPTONOTE_COINBASE_BLOB_RESERVED_SIZE"
  shows "fp_of_u64 float (blob_size - CRYPTONOTE_COINBASE_BLOB_RESERVED_SIZE) = (2 ^ 24, 40)"
proof -
  define m where "m = int (unat (blob_size - CRYPTONOTE_COINBASE_BLOB_RESERVED_SIZE))"
  have small: "unat blob_size < 600"
    using assms by (simp add: word_less_nat_alt CRYPTONOTE_COINBASE_BLOB_RESERVED_SIZE_def)
  have "blob_size - CRYPTONOTE_COINBASE_BLOB_RESERVED_SIZE = blob_size + 18446744073709551016"
    by (simp add: CRYPTONOTE_COINBASE_BLOB_RESERVED_SIZE_def)
  then have "unat (blob_size - CRYPTONOTE_COINBASE_BLOB_RESERVED_SIZE) = unat blob_size + 18446744073709551016"
    using small by (simp only:) (subst unat_add_no_wrap; simp)
  moreover define x where "x = int (unat blob_size)"
  ultimately have m: "m = x + 18446744073709551016" by (simp only: m_def of_nat_add of_nat_numeral)
  have x: "0 \<le> x" "x < 600" using small by (simp_all add: x_def del: of_nat_unat)
  have b: "bit_length m = 64" using bit_length_eqI [of 63 m] x by (simp add: m)
  have q: "m div 2 ^ 40 = 2 ^ 24 - 1" using x by (simp add: m)
  have "m mod 2 ^ 40 = m - (2 ^ 24 - 1) * 2 ^ 40" by (simp add: minus_mult_div_eq_mod [symmetric] q [simplified])
  then have r: "2 ^ 40 < 2 * (m mod 2 ^ 40)" using x by (simp add: m)
  show ?thesis
    unfolding fp_of_u64_def m_def [symmetric] using q r by (simp add: fp_round_def b Let_def)
qed

text \<open>C21. For a transaction blob below the 600 bytes reserved for the coinbase, the fee check converts a
value to \<open>uint64_t\<close> that is out of its range: the unsigned difference of the sizes wraps around, and the product
with any fee per kilobyte is at least \<open>2 ^ 64\<close>. This holds for every height, database and fee.\<close>

theorem check_fee_small_blob:
  assumes "blob_size < CRYPTONOTE_COINBASE_BLOB_RESERVED_SIZE"
  shows "check_fee cumul_sz_limit h coins_at blob_size fee = None"
proof -
  have "needed_fee blob_size r = None" if r: "5750000 \<le> unat r" for r
  proof -
    obtain m e where f: "fp_of_u64 float r = (m, e)" by fastforce
    then have fe: "0 \<le> e \<and> 2 ^ 22 \<le> m * 2 ^ nat e"
      using fp_round_lower [of 0 float 22 "int (unat r)" m e] r
      unfolding fp_of_u64_def by (simp del: of_nat_unat)
    obtain m' e' where f': "fp_mul float (2 ^ 24, 30) (m, e) = (m', e')" by fastforce
    have "(2::int) ^ 64 \<le> 2 ^ 54 * 2 ^ 22" by simp
    also have "\<dots> \<le> 2 ^ 54 * (m * 2 ^ nat e)" using fe by (intro mult_left_mono) auto
    also have "\<dots> = 2 ^ 24 * m * 2 ^ nat (30 + e)" using fe by (simp add: nat_add_distrib power_add)
    finally have "0 \<le> e' \<and> 2 ^ 64 \<le> m' * 2 ^ nat e'"
      using f' fe unfolding fp_mul_def by (intro fp_round_lower [where p = float]) auto
    then show ?thesis
      using f f' by (simp add: needed_fee_def small_blob_float [OF assms] fp_fits_u64_def Let_def not_less)
  qed
  moreover have "5750000 \<le> unat (get_dynamic_per_kb_fee r)" for r
  proof -
    have "736000000000 * 5750000 \<le> max (unat r) 736000000000 * 5750000" by simp
    then have "736000000000 * 5750000 div 736000000000 \<le> 5750000 * max (unat r) 736000000000 div 736000000000"
      by (intro div_le_mono) (simp add: mult.commute)
    then show ?thesis using dynamic_fee_exact [of r] by (auto simp: get_dynamic_per_kb_fee_def split: prod.splits)
  qed
  ultimately show ?thesis
    using reward_of_small_block by (fastforce simp: check_fee_def Let_def split: option.split)
qed

theorem check_fee_small_blob_witness:
  "check_fee 600000 5 (\<lambda>h. 0) 599 1000000000000 = None"
  using check_fee_small_blob [of 599] by (simp add: CRYPTONOTE_COINBASE_BLOB_RESERVED_SIZE_def)

end
