(* ===== verification/String_Tools.thy ===== *)
theory String_Tools
  imports Prelude
begin

text \<open>
  Hexadecimal text: \<open>buff_to_hex_nodelimer\<close> and \<open>parse_hexstr_to_binbuff\<close> of
  \<open>contrib/epee/include/string_tools.h\<close>, with the part of the C library's \<open>strtoul\<close> that the parser
  reaches. The lemmas show that printing and parsing are inverse and which other texts are accepted.
\<close>

section \<open>Definitions\<close>

definition hex_char :: "nat \<Rightarrow> char" where
  "hex_char n = ''0123456789abcdef'' ! n"

definition hex_val :: "char \<Rightarrow> nat option" where
  "hex_val ch =
    (let n = of_char ch
     in if 48 \<le> n \<and> n \<le> 57 then Some (n - 48)
        else if 97 \<le> n \<and> n \<le> 102 then Some (n - 87)
        else if 65 \<le> n \<and> n \<le> 70 then Some (n - 55)
        else None)"

definition buff_to_hex_nodelimer :: "blob \<Rightarrow> string" where
  "buff_to_hex_nodelimer s = concat (map (\<lambda>b. [hex_char (unat b div 16), hex_char (unat b mod 16)]) s)"

text \<open>\<open>isspace\<close> in the C locale.\<close>

definition is_space :: "char \<Rightarrow> bool" where
  "is_space ch \<longleftrightarrow> (let n = (of_char ch :: nat) in n = 32 \<or> 9 \<le> n \<and> n \<le> 13)"

text \<open>
  \<open>strtoul(s, &endptr, 16)\<close>, assigned to a \<open>long\<close>: the value and the number of characters consumed. The
  inputs have at most two characters, so nothing overflows.
\<close>

definition strtoul16 :: "string \<Rightarrow> int \<times> nat" where
  "strtoul16 s =
    (let s1 = dropWhile is_space s;
         neg = (case s1 of ch # _ \<Rightarrow> ch = CHR ''-'' | [] \<Rightarrow> False);
         s2 = (case s1 of ch # cs \<Rightarrow> if ch = CHR ''-'' \<or> ch = CHR ''+'' then cs else s1 | [] \<Rightarrow> []);
         s3 = (case s2 of a # x # d # cs \<Rightarrow>
                 if a = CHR ''0'' \<and> (x = CHR ''x'' \<or> x = CHR ''X'') \<and> hex_val d \<noteq> None then d # cs else s2
               | _ \<Rightarrow> s2);
         ds = takeWhile (\<lambda>ch. hex_val ch \<noteq> None) s3;
         v = foldl (\<lambda>v ch. 16 * v + int (the (hex_val ch))) 0 ds
     in if ds = [] then (0, 0)
        else (if neg then - v else v, length s - (length s3 - length ds)))"

fun parse_hexstr_loop :: "string \<Rightarrow> blob option" where
  "parse_hexstr_loop [] = Some []"
| "parse_hexstr_loop (a # s) =
    (let byte_str = (case s of [] \<Rightarrow> [a] | b # _ \<Rightarrow> [a, b]);
         (v, n) = strtoul16 byte_str
     in if v < 0 \<or> 0xFF < v \<or> n \<noteq> length byte_str then None
        else map_option (\<lambda>bs. word_of_int v # bs) (parse_hexstr_loop (drop 1 s)))"

definition parse_hexstr_to_binbuff :: "string \<Rightarrow> bool \<Rightarrow> blob option" where
  "parse_hexstr_to_binbuff s allow_partial_byte =
    (if \<not> allow_partial_byte \<and> odd (length s) then None else parse_hexstr_loop s)"

section \<open>Printing and parsing\<close>

lemma hex_val_hex_char: "n < 16 \<Longrightarrow> hex_val (hex_char n) = Some n"
proof -
  have "list_all (\<lambda>n. hex_val (hex_char n) = Some n) [0..<16]"
    by (simp add: upt_rec hex_val_def hex_char_def)
  then show "n < 16 \<Longrightarrow> hex_val (hex_char n) = Some n" by (simp add: list_all_iff)
qed

lemma hex_char_plain:
  "n < 16 \<Longrightarrow> \<not> is_space (hex_char n) \<and> hex_char n \<noteq> CHR ''-'' \<and> hex_char n \<noteq> CHR ''+''"
proof -
  have "list_all (\<lambda>n. \<not> is_space (hex_char n) \<and> hex_char n \<noteq> CHR ''-'' \<and> hex_char n \<noteq> CHR ''+'') [0..<16]"
    by code_simp
  then show "n < 16 \<Longrightarrow> \<not> is_space (hex_char n) \<and> hex_char n \<noteq> CHR ''-'' \<and> hex_char n \<noteq> CHR ''+''"
    by (simp add: list_all_iff)
qed

lemma strtoul16_two:
  assumes "a < 16" "b < 16"
  shows "strtoul16 [hex_char a, hex_char b] = (16 * int a + int b, 2)"
  using hex_char_plain [OF assms(1)] hex_val_hex_char [OF assms(1)] hex_val_hex_char [OF assms(2)]
  by (simp add: strtoul16_def)

lemma parse_hexstr_loop_hex: "parse_hexstr_loop (buff_to_hex_nodelimer bs) = Some bs"
proof (induction bs)
  case Nil
  then show ?case by (simp add: buff_to_hex_nodelimer_def)
next
  case (Cons b bs)
  have lt: "unat b div 16 < 16" "unat b mod 16 < 16" using unat_byte_lt [of b] by (simp_all add: less_mult_imp_div_less)
  have v: "16 * int (unat b div 16) + int (unat b mod 16) = int (unat b)"
    by (simp only: zdiv_int zmod_int of_nat_numeral mult_div_mod_eq)
  have w: "word_of_nat (unat b) = b" by simp
  have "int (unat b) \<le> 255" using unat_byte_lt [of b] by linarith
  with Cons show ?case
    by (simp add: buff_to_hex_nodelimer_def strtoul16_two [OF lt] v w del: of_nat_unat)
qed

lemma length_buff_to_hex: "length (buff_to_hex_nodelimer bs) = 2 * length bs"
  by (induction bs) (simp_all add: buff_to_hex_nodelimer_def)

lemma parse_hexstr_hex: "parse_hexstr_to_binbuff (buff_to_hex_nodelimer bs) partial = Some bs"
  by (simp add: parse_hexstr_to_binbuff_def length_buff_to_hex parse_hexstr_loop_hex)

text \<open>\<open>strtoul\<close> skips blanks and a plus sign, so a byte may be written with one digit behind them.\<close>

lemma parse_hexstr_lenient:
  "parse_hexstr_to_binbuff '' f+a'' False = Some [0x0f, 0x0a]"
  by code_simp

section \<open>Properties\<close>

text \<open>Parsing the hexadecimal text of a buffer gives back the buffer.\<close>

lemma parse_hexstr_of_hex: "parse_hexstr_to_binbuff (buff_to_hex_nodelimer bs) partial = Some bs"
  by (rule parse_hexstr_hex)

end
