(* ===== verification/Format_Utils.thy ===== *)
theory Format_Utils
  imports Amounts Tx_Extra Tree_Hash Emission String_Tools
begin

text \<open>
  Blobs, hashes and coinbase transactions: the rest of \<open>src/cryptonote_core/cryptonote_format_utils.cpp\<close>
  that handles transactions and blocks. A hash is the 256-bit number of its bytes, as in the archive.

  The elliptic-curve operations are arguments of the operations that use them.
\<close>

section \<open>Blobs\<close>

definition get_blob_hash :: "blob \<Rightarrow> hash" where
  "get_blob_hash blob = le_word (cn_fast_hash blob)"

definition tx_to_blob :: "transaction \<Rightarrow> blob option" where
  "tx_to_blob tx = put_transaction tx"

definition block_to_blob :: "block \<Rightarrow> blob option" where
  "block_to_blob b = put_block b"

definition parse_and_validate_tx_from_blob :: "blob \<Rightarrow> transaction option" where
  "parse_and_validate_tx_from_blob tx_blob = parse_binary get_transaction tx_blob"

definition parse_and_validate_block_from_blob :: "blob \<Rightarrow> block option" where
  "parse_and_validate_block_from_blob b_blob = parse_binary get_block b_blob"

section \<open>Hashes\<close>

text \<open>The result of the serialization is not tested: a prefix of an unknown version is hashed as far as it was
written.\<close>

definition get_transaction_prefix_hash :: "'a transaction_prefix_scheme \<Rightarrow> hash" where
  "get_transaction_prefix_hash tx =
    get_blob_hash (case put_transaction_prefix tx of Some s \<Rightarrow> s | None \<Rightarrow> put_uvarint (version tx))"

definition get_transaction_hash :: "transaction \<Rightarrow> hash option" where
  "get_transaction_hash t =
    (let inputs = length (vin t); outputs = length (vout t); mixin = tx_mixin (vin t); rv = rct_signatures t
     in do { base \<leftarrow> serialize_rctsig_base_put rv inputs outputs;
             h2 \<leftarrow> (if rct_type rv = RCTTypeNull then Some 0
                   else map_option get_blob_hash (serialize_rctsig_prunable_put (prunable rv) (rct_type rv) inputs outputs mixin));
             Some (get_blob_hash (put_key (get_transaction_prefix_hash t) @ put_key (get_blob_hash base) @ put_key h2)) })"

text \<open>The overloads that return the hash start from the null hash.\<close>

definition transaction_hash_or_null :: "transaction \<Rightarrow> hash" where
  "transaction_hash_or_null t = (case get_transaction_hash t of Some h \<Rightarrow> h | None \<Rightarrow> 0)"

definition get_tx_tree_hash :: "hash list \<Rightarrow> hash option" where
  "get_tx_tree_hash ids = map_option le_word (tree_hash (map put_key ids))"

definition get_block_tree_hash :: "block \<Rightarrow> hash option" where
  "get_block_tree_hash b = get_tx_tree_hash (transaction_hash_or_null (miner_tx b) # tx_hashes b)"

definition get_block_hashing_blob :: "block \<Rightarrow> blob option" where
  "get_block_hashing_blob b =
    do { root \<leftarrow> get_block_tree_hash b;
         Some (put_block_header b @ put_key root @ get_varint_data (of_nat (length (tx_hashes b) + 1) :: size_t)) }"

text \<open>The hashing blob is hashed as a serialized string, with its length in front.\<close>

definition get_block_hash :: "block \<Rightarrow> hash option" where
  "get_block_hash b = do { blob \<leftarrow> get_block_hashing_blob b; s \<leftarrow> put_string blob; Some (get_blob_hash s) }"

definition parse_and_validate_tx_with_hashes :: "blob \<Rightarrow> (transaction \<times> hash option \<times> hash) option" where
  "parse_and_validate_tx_with_hashes tx_blob =
    do { tx \<leftarrow> parse_binary get_transaction tx_blob;
         Some (tx, get_transaction_hash tx, get_transaction_prefix_hash tx) }"

section \<open>Checks on transactions\<close>

fun is_txin_to_key :: "txin_v \<Rightarrow> bool" where
  "is_txin_to_key (Txin_to_key a offs k) = True"
| "is_txin_to_key _ = False"

definition check_inputs_types_supported :: "'a transaction_prefix_scheme \<Rightarrow> bool" where
  "check_inputs_types_supported tx = list_all is_txin_to_key (vin tx)"

definition check_outs_valid :: "(key \<Rightarrow> bool) \<Rightarrow> 'a transaction_prefix_scheme \<Rightarrow> bool" where
  "check_outs_valid check_key tx =
    list_all (\<lambda>out. case out_target out of
        Txout_to_key k \<Rightarrow> \<not> (version tx = 1 \<and> \<not> 0 < out_amount out) \<and> check_key k
      | _ \<Rightarrow> False) (vout tx)"

definition is_coinbase :: "'a transaction_prefix_scheme \<Rightarrow> bool" where
  "is_coinbase tx = (case vin tx of [Txin_gen h] \<Rightarrow> True | _ \<Rightarrow> False)"

definition get_block_height :: "block \<Rightarrow> u64" where
  "get_block_height b = (case vin (miner_tx b) of [Txin_gen h] \<Rightarrow> h | _ \<Rightarrow> 0)"

definition short_hash_str :: "hash \<Rightarrow> string" where
  "short_hash_str h =
    (let res = buff_to_hex_nodelimer (put_key h)
     in if length res \<noteq> 64 then res else take 8 res @ ''....'' @ drop 56 res)"

section \<open>The coinbase transaction\<close>

record account_public_address =
  m_spend_public_key :: key
  m_view_public_key :: key

record keypair =
  pub :: key
  sec :: key

definition CRYPTONOTE_MINED_MONEY_UNLOCK_WINDOW :: u64 where
  "CRYPTONOTE_MINED_MONEY_UNLOCK_WINDOW = 10"

function merge_outs :: "nat \<Rightarrow> u64 list \<Rightarrow> u64 list" where
  "merge_outs max_outs [] = []"
| "merge_outs max_outs [a] = [a]"
| "merge_outs max_outs (a # b # xs) =
    (if max_outs < length (a # b # xs) then merge_outs max_outs ((b + a) # xs) else a # b # xs)"
  by pat_completeness auto
termination
  by (relation "measure (\<lambda>(max_outs, xs). length xs)") auto

fun miner_outs ::
  "(key \<Rightarrow> key \<Rightarrow> key option) \<Rightarrow> (key \<Rightarrow> nat \<Rightarrow> key \<Rightarrow> key option) \<Rightarrow> account_public_address \<Rightarrow> keypair \<Rightarrow>
   nat \<Rightarrow> u64 list \<Rightarrow> tx_out list option" where
  "miner_outs generate_key_derivation derive_public_key addr txkey no [] = Some []"
| "miner_outs generate_key_derivation derive_public_key addr txkey no (amount # amounts) =
    do { derivation \<leftarrow> generate_key_derivation (m_view_public_key addr) (sec txkey);
         k \<leftarrow> derive_public_key derivation no (m_spend_public_key addr);
         outs \<leftarrow> miner_outs generate_key_derivation derive_public_key addr txkey (no + 1) amounts;
         Some (\<lparr>out_amount = amount, out_target = Txout_to_key k\<rparr> # outs) }"

text \<open>\<open>txkey\<close> is the key pair that \<open>keypair::generate\<close> draws; \<open>tx\<close> is the transaction passed in, whose
other members stay as they are.\<close>

definition construct_miner_tx ::
  "(key \<Rightarrow> key \<Rightarrow> key option) \<Rightarrow> (key \<Rightarrow> nat \<Rightarrow> key \<Rightarrow> key option) \<Rightarrow> keypair \<Rightarrow>
   u64 \<Rightarrow> size_t \<Rightarrow> u64 \<Rightarrow> size_t \<Rightarrow> u64 \<Rightarrow> account_public_address \<Rightarrow> transaction \<Rightarrow> blob \<Rightarrow> nat \<Rightarrow> transaction option" where
  "construct_miner_tx generate_key_derivation derive_public_key txkey
     h median_size already_generated_coins current_block_size fee miner_address tx extra_nonce max_outs =
    do { ext \<leftarrow> (let ext = add_tx_pub_key_to_extra [] (pub txkey)
                 in if extra_nonce \<noteq> [] then add_extra_nonce_to_tx_extra ext extra_nonce else Some ext);
         block_reward \<leftarrow> get_block_reward median_size current_block_size already_generated_coins h;
         let block_reward = block_reward + fee;
             out_amounts = map call_amount (decompose_amount_into_digits block_reward 0)
         in if \<not> 1 \<le> max_outs then None
            else
              let out_amounts = merge_outs max_outs out_amounts
              in do { outs \<leftarrow> miner_outs generate_key_derivation derive_public_key miner_address txkey 0 out_amounts;
                      if sum_list out_amounts \<noteq> block_reward then None
                      else Some (tx\<lparr>version := CURRENT_TRANSACTION_VERSION,
                                    unlock_time := h + CRYPTONOTE_MINED_MONEY_UNLOCK_WINDOW,
                                    vin := [Txin_gen h], vout := outs, extra := ext\<rparr>) } }"

section \<open>Blobs are read back\<close>

text \<open>A transaction whose signatures belong to its version.\<close>

definition rct_consistent :: "transaction \<Rightarrow> bool" where
  "rct_consistent tx \<longleftrightarrow>
    rct_type (rct_signatures tx) = RCTTypeNull \<or> version tx \<noteq> 1 \<and> vin tx \<noteq> []"

lemma archived_prefix:
  "version (archived tx) = version tx" "unlock_time (archived tx) = unlock_time tx"
  "vin (archived tx) = vin tx" "vout (archived tx) = vout tx" "extra (archived tx) = extra tx"
  by (simp_all add: archived_def)

lemma prefix_hash_archived: "get_transaction_prefix_hash (archived tx) = get_transaction_prefix_hash tx"
  unfolding get_transaction_prefix_hash_def put_transaction_prefix_def archived_prefix ..

lemma base_put_null:
  "rct_type rv = RCTTypeNull \<Longrightarrow> serialize_rctsig_base_put rv i n = Some (put_uint RCTTypeNull)"
  by (simp add: serialize_rctsig_base_put_def)

lemma rct_null_type: "rct_type rct_null = RCTTypeNull"
  by (simp add: rct_null_def)

lemma archived_rct_fields:
  "rct_type (archived_rct rv) = rct_type rv"
  "rct_type rv \<noteq> RCTTypeNull \<Longrightarrow> prunable (archived_rct rv) = prunable rv"
  by (simp_all add: archived_rct_def rct_null_type)

lemma transaction_hash_archived:
  assumes "rct_consistent tx"
  shows "get_transaction_hash (archived tx) = get_transaction_hash tx"
proof (cases "rct_type (rct_signatures tx) = RCTTypeNull")
  case True
  then have "rct_type (rct_signatures (archived tx)) = RCTTypeNull"
    by (simp add: archived_def rct_null_type archived_rct_fields)
  with True show ?thesis
    by (simp add: get_transaction_hash_def Let_def base_put_null prefix_hash_archived)
next
  case False
  with assms have "version tx \<noteq> 1" "vin tx \<noteq> []" by (simp_all add: rct_consistent_def)
  then have rv: "rct_signatures (archived tx) = archived_rct (rct_signatures tx)"
    and v: "vin (archived tx) = vin tx" "vout (archived tx) = vout tx"
    by (simp_all add: archived_def)
  show ?thesis
    unfolding get_transaction_hash_def Let_def rv v archived_rct_fields(1) rctsig_base_archived prefix_hash_archived
    by (simp add: False archived_rct_fields(2))
qed

text \<open>C16. A transaction that can be written is read back from its blob, followed by nothing: the parsed one differs at
most in the signature data that the format leaves out, and has the same prefix hash, the same transaction hash and
the same blob.\<close>

theorem tx_blob_round_trip:
  assumes "tx_to_blob tx = Some blob" and "rct_consistent tx"
  shows "parse_and_validate_tx_with_hashes blob =
      Some (archived tx, get_transaction_hash tx, get_transaction_prefix_hash tx) \<and>
    tx_to_blob (archived tx) = Some blob"
  using assms get_transaction_put [of tx blob "[]"]
  by (simp add: parse_and_validate_tx_with_hashes_def parse_binary_def tx_to_blob_def
      transaction_hash_archived prefix_hash_archived put_transaction_archived)

definition example_tx :: transaction where
  "example_tx = \<lparr>version = 2, unlock_time = 15, vin = [Txin_gen 5],
     vout = [\<lparr>out_amount = 300, out_target = Txout_to_key 7\<rparr>], extra = [1, 2], signatures = [], rct_signatures = rct_null\<rparr>"

lemmas put_eval = put_transaction_def put_transaction_prefix_def put_vector_def put_tx_out_def put_bytes_def put_keys_def
  put_tx_rct_def serialize_rctsig_base_put_def valid_version_def CURRENT_TRANSACTION_VERSION_def rct_null_def RCTTypeNull_def

lemma example_blob: "tx_to_blob example_tx \<noteq> None"
  by (simp add: tx_to_blob_def example_tx_def put_eval)

theorem tx_blob_round_trip_witness:
  "Option.bind (tx_to_blob example_tx) parse_and_validate_tx_with_hashes =
     Some (archived example_tx, get_transaction_hash example_tx, get_transaction_prefix_hash example_tx)"
proof -
  obtain blob where blob: "tx_to_blob example_tx = Some blob" using example_blob by blast
  have "rct_consistent example_tx" by (simp add: rct_consistent_def example_tx_def rct_null_type)
  from tx_blob_round_trip [OF blob this] show ?thesis by (simp add: blob)
qed

text \<open>C17. A block that can be written is read back from its blob with the same block hash, where the signature data
of its miner transaction belongs to its version.\<close>

theorem block_blob_round_trip:
  assumes "block_to_blob b = Some blob" and "rct_consistent (miner_tx b)"
  shows "parse_and_validate_block_from_blob blob = Some (archived_block b) \<and>
    get_block_hash (archived_block b) = get_block_hash b"
proof -
  have "get_block_hash (archived_block b) = get_block_hash b"
    using transaction_hash_archived [OF assms(2)]
    by (simp add: get_block_hash_def get_block_hashing_blob_def get_block_tree_hash_def
        transaction_hash_or_null_def archived_block_def put_block_header_def)
  then show ?thesis
    using assms(1) get_block_put [of b blob "[]"]
    by (simp add: parse_and_validate_block_from_blob_def parse_binary_def block_to_blob_def)
qed


definition example_block :: block where
  "example_block = \<lparr>major_version = 1, minor_version = 2, timestamp = 3, prev_id = 0, nonce = 4, miner_tx = example_tx,
     tx_hashes = [5]\<rparr>"

lemma example_block_blob: "block_to_blob example_block \<noteq> None"
  by (simp add: block_to_blob_def put_block_def example_block_def example_tx_def put_eval)

theorem block_blob_round_trip_witness:
  "Option.bind (block_to_blob example_block) parse_and_validate_block_from_blob = Some (archived_block example_block)"
proof -
  obtain blob where blob: "block_to_blob example_block = Some blob" using example_block_blob by blast
  have "rct_consistent (miner_tx example_block)"
    by (simp add: rct_consistent_def example_block_def example_tx_def rct_null_type)
  from block_blob_round_trip [OF blob this] show ?thesis by (simp add: blob)
qed

section \<open>Coinbase transactions add up\<close>

lemma sum_merge_outs: "sum_list (merge_outs m xs) = sum_list xs"
  by (induction m xs rule: merge_outs.induct) (simp_all add: algebra_simps)

lemma length_merge_outs: "1 \<le> m \<Longrightarrow> length (merge_outs m xs) \<le> m"
  by (induction m xs rule: merge_outs.induct) auto

lemma miner_outs_amounts:
  "miner_outs gkd dpk addr txkey no amounts = Some outs \<Longrightarrow> map out_amount outs = amounts"
  by (induction amounts arbitrary: no outs) (auto elim!: bind_SomeE)

lemma of_nat_sum_list: "of_nat (\<Sum>x\<leftarrow>xs. unat (f x)) = (\<Sum>x\<leftarrow>xs. f x :: u64)"
  by (induction xs) simp_all

lemma sum_calls: "sum_list (map call_amount (decompose_amount_into_digits amount thr)) = amount"
  using arg_cong [OF decompose_sum [of amount thr], of "of_nat :: nat \<Rightarrow> u64"]
  by (simp add: of_nat_sum_list)

text \<open>The sums over the naturals only shrink when outputs are merged.\<close>

lemma nat_sum_merge_outs:
  "(\<Sum>x\<leftarrow>merge_outs m xs. unat x) \<le> (\<Sum>x\<leftarrow>xs. unat x)"
proof (induction m xs rule: merge_outs.induct)
  case (3 m a b xs)
  have "unat (b + a) \<le> unat b + unat a" unfolding unat_word_ariths by (rule mod_less_eq_dividend)
  with 3 show ?case by auto
qed simp_all

lemma unat_sum_merge_outs:
  "(\<Sum>x\<leftarrow>merge_outs m (map call_amount (decompose_amount_into_digits amount thr)). unat x) < 2 ^ 64"
proof -
  have "(\<Sum>x\<leftarrow>merge_outs m (map call_amount (decompose_amount_into_digits amount thr)). unat x) \<le> unat amount"
    using nat_sum_merge_outs [of m "map call_amount (decompose_amount_into_digits amount thr)"] decompose_sum [of amount thr]
    by (simp add: comp_def)
  then show ?thesis by (rule le_less_trans) simp
qed

lemma construct_miner_tx_fields:
  assumes "construct_miner_tx gkd dpk txkey h med coins sz fee addr tx0 xn max_outs = Some tx"
  obtains r amounts where "get_block_reward med sz coins h = Some r"
    and "amounts = merge_outs max_outs (map call_amount (decompose_amount_into_digits (r + fee) 0))"
    and "map out_amount (vout tx) = amounts" and "1 \<le> max_outs" and "vin tx = [Txin_gen h]"
    and "unlock_time tx = h + CRYPTONOTE_MINED_MONEY_UNLOCK_WINDOW" and "version tx = CURRENT_TRANSACTION_VERSION"
    and "\<exists>rest. extra tx = 0x01 # put_key (pub txkey) @ rest"
    and "signatures tx = signatures tx0" and "rct_signatures tx = rct_signatures tx0"
  using assms
  by (auto simp: construct_miner_tx_def Let_def add_tx_pub_key_to_extra_def add_extra_nonce_to_tx_extra_def
      dest!: miner_outs_amounts elim!: bind_SomeE split: if_splits)

lemma out_amounts_sum: "(\<Sum>out\<leftarrow>outs. f (out_amount out)) = (\<Sum>a\<leftarrow>map out_amount outs. f a)"
  by (simp add: comp_def)

lemma construct_miner_tx_sum:
  assumes "construct_miner_tx gkd dpk txkey h med coins sz fee addr tx0 xn max_outs = Some tx"
    and "get_block_reward med sz coins h = Some r"
  shows "get_outs_money_amount tx = r + fee" and "check_outs_overflow tx" and "length (vout tx) \<le> max_outs"
proof -
  obtain amounts where am: "amounts = merge_outs max_outs (map call_amount (decompose_amount_into_digits (r + fee) 0))"
    "map out_amount (vout tx) = amounts" "1 \<le> max_outs"
    by (rule construct_miner_tx_fields [OF assms(1)]) (use assms(2) in simp)
  have "(\<Sum>out\<leftarrow>vout tx. out_amount out) = sum_list amounts"
    using out_amounts_sum [of "\<lambda>a. a" "vout tx"] by (simp add: am(2))
  then show "get_outs_money_amount tx = r + fee"
    by (simp add: get_outs_money_amount_def foldl_out_amounts am(1) sum_merge_outs sum_calls)
  have "(\<Sum>out\<leftarrow>vout tx. unat (out_amount out)) = (\<Sum>a\<leftarrow>amounts. unat a)"
    by (simp only: out_amounts_sum am(2))
  then show "check_outs_overflow tx"
    using unat_sum_merge_outs [of max_outs "r + fee" 0]
    by (simp add: check_outs_overflow_def check_outs_overflow_loop_iff am(1))
  have "length (map out_amount (vout tx)) \<le> max_outs" unfolding am(1,2) using am(3) by (rule length_merge_outs)
  then show "length (vout tx) \<le> max_outs" by simp
qed

lemma pub_key_first: "get_tx_pub_key_from_extra (0x01 # put_key k @ rest) 0 = k"
proof -
  have "get_extra_field (0x01 # put_key k @ rest) = Some (Tx_extra_pub_key k, rest)"
    by (simp add: get_extra_field_def)
  then have "\<exists>r fs. parse_tx_extra (0x01 # put_key k @ rest) = (r, Tx_extra_pub_key k # fs)"
    using parse_extra_loop.simps [of "0x01 # put_key k @ rest"]
    by (auto simp: parse_tx_extra_def split: prod.splits)
  then show ?thesis by (auto simp: get_tx_pub_key_from_extra_def find_tx_extra_field_by_type_def)
qed

text \<open>C18. A constructed miner transaction pays exactly the block reward and the fees: it has the one generating input of
its height, unlocks ten blocks later, has at most the requested number of outputs, whose sum does not overflow and
is the reward plus the fee, and carries the transaction key in its extra field.\<close>

theorem construct_miner_tx_correct:
  assumes "construct_miner_tx gkd dpk txkey h med coins sz fee addr tx0 xn max_outs = Some tx"
  shows "vin tx = [Txin_gen h] \<and> unlock_time tx = h + 10 \<and> is_coinbase tx \<and> length (vout tx) \<le> max_outs \<and>
    check_outs_overflow tx \<and> get_tx_pub_key_from_extra (extra tx) 0 = pub txkey \<and>
    Some (get_outs_money_amount tx) = map_option (\<lambda>r. r + fee) (get_block_reward med sz coins h)"
proof (rule construct_miner_tx_fields [OF assms])
  fix r amounts
  assume r: "get_block_reward med sz coins h = Some r" and ex: "\<exists>rest. extra tx = 0x01 # put_key (pub txkey) @ rest"
    and v: "vin tx = [Txin_gen h]" "unlock_time tx = h + CRYPTONOTE_MINED_MONEY_UNLOCK_WINDOW"
  from ex have "get_tx_pub_key_from_extra (extra tx) 0 = pub txkey" using pub_key_first by auto
  with v construct_miner_tx_sum [OF assms r] show ?thesis
    by (simp add: r is_coinbase_def CRYPTONOTE_MINED_MONEY_UNLOCK_WINDOW_def)
qed

lemma miner_outs_total:
  assumes "\<And>P s. gkd P s \<noteq> None" and "\<And>d n P. dpk d n P \<noteq> None"
  shows "miner_outs gkd dpk addr txkey no amounts \<noteq> None"
proof (induction amounts arbitrary: no)
  case (Cons a amounts)
  obtain d where d: "gkd (m_view_public_key addr) (sec txkey) = Some d" using assms(1) by blast
  obtain k where "dpk d no (m_spend_public_key addr) = Some k" using assms(2) by blast
  with d Cons [of "no + 1"] show ?case by auto
qed simp

lemma construct_miner_tx_total:
  assumes "\<And>P s. gkd P s \<noteq> None" and "\<And>d n P. dpk d n P \<noteq> None"
    and "length xn \<le> TX_EXTRA_NONCE_MAX_COUNT" and "1 \<le> max_outs"
    and "get_block_reward med sz coins h = Some r"
  shows "construct_miner_tx gkd dpk txkey h med coins sz fee addr tx0 xn max_outs \<noteq> None"
proof -
  obtain outs where "miner_outs gkd dpk addr txkey 0 (merge_outs max_outs
      (map call_amount (decompose_amount_into_digits (r + fee) 0))) = Some outs"
    using miner_outs_total [of gkd dpk, OF assms(1,2)] by blast
  then show ?thesis
    using assms(3,4,5)
    by (auto simp: construct_miner_tx_def Let_def add_extra_nonce_to_tx_extra_def sum_merge_outs sum_calls)
qed

definition no_tx :: transaction where
  "no_tx = \<lparr>version = 1, unlock_time = 0, vin = [], vout = [], extra = [], signatures = [], rct_signatures = rct_null\<rparr>"

theorem construct_miner_tx_correct_witness:
  "\<exists>tx. construct_miner_tx (\<lambda>P s. Some (P * s)) (\<lambda>d n P. Some (d + of_nat n + P)) \<lparr>pub = 3, sec = 4\<rparr>
      5 0 0 1000 7 \<lparr>m_spend_public_key = 1, m_view_public_key = 2\<rparr> no_tx [] 1 = Some tx \<and>
    vin tx = [Txin_gen 5] \<and> unlock_time tx = 15 \<and> length (vout tx) \<le> 1"
proof -
  obtain r where "get_block_reward 0 1000 0 5 = Some r"
    by (rule get_block_reward_cases [of 0 1000 0 5]) (auto simp: MAX_BLOCK_SIZE_NOT_CHECKED_def)
  then have "construct_miner_tx (\<lambda>P s. Some (P * s)) (\<lambda>d n P. Some (d + of_nat n + P)) \<lparr>pub = 3, sec = 4\<rparr>
      5 0 0 1000 7 \<lparr>m_spend_public_key = 1, m_view_public_key = 2\<rparr> no_tx [] 1 \<noteq> None"
    by (intro construct_miner_tx_total) auto
  then obtain tx where tx: "construct_miner_tx (\<lambda>P s. Some (P * s)) (\<lambda>d n P. Some (d + of_nat n + P)) \<lparr>pub = 3, sec = 4\<rparr>
      5 0 0 1000 7 \<lparr>m_spend_public_key = 1, m_view_public_key = 2\<rparr> no_tx [] 1 = Some tx" by blast
  with construct_miner_tx_correct [OF tx] show ?thesis by simp
qed

end
