(* ===== verification/Hardfork.thy ===== *)
theory Hardfork
  imports Cryptonote_Basic
begin

text \<open>
  The hard fork voting machine: \<open>src/cryptonote_core/hardfork.cpp\<close> and \<open>hardfork.h\<close>.

  A node keeps the votes of the last blocks in a window and a count per version; a scheduled fork becomes
  current when its height is reached and enough of the window votes for it or a later one. The part of
  the database that the class uses is the list of the blocks of the chain and the version stored per
  height; a look-up that the database answers with an exception is \<open>None\<close>.

  The lemmas give the invariant of the state, the exact condition of a switch, and that rescanning the
  database after a restart or a reorganization arrives at the state of a node that followed the chain.
\<close>

section \<open>State\<close>

datatype fork_state = LikelyForked | UpdateNeeded | Ready

record fork_params =
  fork_version :: u8
  fork_threshold :: u8
  fork_height :: nat
  fork_time :: int

record hardfork =
  forked_time :: int
  update_time :: int
  window_size :: u64
  default_threshold_percent :: u8
  original_version :: u8
  heights :: "fork_params list"
  versions :: "u8 list"
  last_versions :: "u8 \<Rightarrow> u32"
  current_fork_index :: nat

record fork_db =
  db_blocks :: "block list"
  db_fork_versions :: "nat \<Rightarrow> u8 option"

abbreviation db_height :: "fork_db \<Rightarrow> nat" where
  "db_height db \<equiv> length (db_blocks db)"

definition set_hard_fork_version :: "fork_db \<Rightarrow> nat \<Rightarrow> u8 \<Rightarrow> fork_db" where
  "set_hard_fork_version db h v = db\<lparr>db_fork_versions := (db_fork_versions db)(h \<mapsto> v)\<rparr>"

section \<open>Operations\<close>

definition get_block_vote :: "block \<Rightarrow> u8" where
  "get_block_vote b = (if minor_version b = 0 then 1 else minor_version b)"

definition get_block_version :: "block \<Rightarrow> u8" where
  "get_block_version b = major_version b"

text \<open>The constructor; \<open>None\<close> where it throws. The counts and the index are set by \<open>init\<close>.\<close>

definition new_hardfork :: "u8 \<Rightarrow> int \<Rightarrow> int \<Rightarrow> u64 \<Rightarrow> u8 \<Rightarrow> hardfork option" where
  "new_hardfork orig forked update window percent =
    (if window = 0 then None
     else if 100 < percent then None
     else Some \<lparr>forked_time = forked, update_time = update, window_size = window, default_threshold_percent = percent,
       original_version = orig, heights = [], versions = [], last_versions = (\<lambda>_. 0), current_fork_index = 0\<rparr>)"

definition add_fork :: "hardfork \<Rightarrow> u8 \<Rightarrow> nat \<Rightarrow> u8 \<Rightarrow> int \<Rightarrow> hardfork option" where
  "add_fork hf v h threshold t =
    (if v = 0 then None
     else if heights hf \<noteq> [] \<and> v \<le> fork_version (last (heights hf)) then None
     else if heights hf \<noteq> [] \<and> h \<le> fork_height (last (heights hf)) then None
     else if heights hf \<noteq> [] \<and> t \<le> fork_time (last (heights hf)) then None
     else if 100 < threshold then None
     else Some (hf\<lparr>heights := heights hf @
       [\<lparr>fork_version = v, fork_threshold = threshold, fork_height = h, fork_time = t\<rparr>]\<rparr>))"

definition add_default_fork :: "hardfork \<Rightarrow> u8 \<Rightarrow> nat \<Rightarrow> int \<Rightarrow> hardfork option" where
  "add_default_fork hf v h t = add_fork hf v h (default_threshold_percent hf) t"

definition get_effective_version :: "hardfork \<Rightarrow> u8 \<Rightarrow> u8" where
  "get_effective_version hf voting_version =
    (if heights hf \<noteq> [] \<and> fork_version (last (heights hf)) < voting_version
     then fork_version (last (heights hf)) else voting_version)"

definition do_check :: "hardfork \<Rightarrow> u8 \<Rightarrow> u8 \<Rightarrow> bool" where
  "do_check hf block_version voting_version \<longleftrightarrow>
    block_version = fork_version (heights hf ! current_fork_index hf) \<and>
    fork_version (heights hf ! current_fork_index hf) \<le> voting_version"

definition check :: "hardfork \<Rightarrow> block \<Rightarrow> bool" where
  "check hf b = do_check hf (get_block_version b) (get_block_vote b)"

definition fork_votes_needed :: "hardfork \<Rightarrow> nat \<Rightarrow> u32" where
  "fork_votes_needed hf n = ucast ((window_size hf * ucast (fork_threshold (heights hf ! n)) + 99) div 100)"

fun voted_loop :: "hardfork \<Rightarrow> nat \<Rightarrow> nat \<Rightarrow> u32 \<Rightarrow> nat" where
  "voted_loop hf h 0 accumulated_votes = current_fork_index hf"
| "voted_loop hf h (Suc m) accumulated_votes =
    (let n = Suc m
     in if current_fork_index hf < n then
          let accumulated_votes = accumulated_votes + last_versions hf (fork_version (heights hf ! n))
          in if fork_height (heights hf ! n) \<le> h \<and> fork_votes_needed hf n \<le> accumulated_votes then n
             else voted_loop hf h m accumulated_votes
        else current_fork_index hf)"

definition get_voted_fork_index :: "hardfork \<Rightarrow> nat \<Rightarrow> nat" where
  "get_voted_fork_index hf h = voted_loop hf h (length (heights hf) - 1) 0"

text \<open>The switch at the end of several operations; the index is stored in a \<open>uint8_t\<close> first.\<close>

definition update_fork_index :: "hardfork \<Rightarrow> nat \<Rightarrow> hardfork" where
  "update_fork_index hf h =
    (let voted = unat (of_nat (get_voted_fork_index hf h) :: u8)
     in if current_fork_index hf < voted then hf\<lparr>current_fork_index := voted\<rparr> else hf)"

fun pop_versions :: "u64 \<Rightarrow> u8 list \<Rightarrow> (u8 \<Rightarrow> u32) \<Rightarrow> u8 list \<times> (u8 \<Rightarrow> u32)" where
  "pop_versions window [] counts = ([], counts)"
| "pop_versions window (v # vs) counts =
    (if unat window \<le> length (v # vs) then pop_versions window vs (counts(v := counts v - 1)) else (v # vs, counts))"

definition push_version :: "hardfork \<Rightarrow> u8 \<Rightarrow> hardfork" where
  "push_version hf v =
    hf\<lparr>versions := versions hf @ [v], last_versions := (last_versions hf)(v := last_versions hf v + 1)\<rparr>"

definition add_vote :: "hardfork \<Rightarrow> fork_db \<Rightarrow> u8 \<Rightarrow> u8 \<Rightarrow> nat \<Rightarrow> (hardfork \<times> fork_db) option" where
  "add_vote hf db block_version voting_version h =
    (if \<not> do_check hf block_version voting_version then None
     else
       let db = set_hard_fork_version db h (fork_version (heights hf ! current_fork_index hf));
           voting_version = get_effective_version hf voting_version;
           (vs, counts) = pop_versions (window_size hf) (versions hf) (last_versions hf);
           hf = push_version (hf\<lparr>versions := vs, last_versions := counts\<rparr>) voting_version
       in Some (update_fork_index hf (h + 1), db))"

definition add_block_vote :: "hardfork \<Rightarrow> fork_db \<Rightarrow> block \<Rightarrow> nat \<Rightarrow> (hardfork \<times> fork_db) option" where
  "add_block_vote hf db b h = add_vote hf db (get_block_version b) (get_block_vote b) h"

definition clear_votes :: "hardfork \<Rightarrow> hardfork" where
  "clear_votes hf = hf\<lparr>versions := [], last_versions := (\<lambda>_. 0)\<rparr>"

definition scan_votes :: "hardfork \<Rightarrow> fork_db \<Rightarrow> nat list \<Rightarrow> hardfork" where
  "scan_votes hf db hs =
    foldl (\<lambda>hf h. push_version hf (get_effective_version hf (get_block_vote (db_blocks db ! h)))) hf hs"

fun lower_index :: "fork_params list \<Rightarrow> u8 \<Rightarrow> nat \<Rightarrow> nat" where
  "lower_index hs start_version 0 = 0"
| "lower_index hs start_version (Suc n) =
    (if start_version < fork_version (hs ! Suc n) then lower_index hs start_version n else Suc n)"

text \<open>The result of each \<open>add\<close> is ignored: a block that fails the check leaves the state as it is.\<close>

fun add_from :: "hardfork \<Rightarrow> fork_db \<Rightarrow> nat list \<Rightarrow> hardfork \<times> fork_db" where
  "add_from hf db [] = (hf, db)"
| "add_from hf db (h # hs) =
    (case add_block_vote hf db (db_blocks db ! h) h of
       None \<Rightarrow> add_from hf db hs
     | Some (hf, db) \<Rightarrow> add_from hf db hs)"

definition reorganize_from_block_height :: "hardfork \<Rightarrow> fork_db \<Rightarrow> nat \<Rightarrow> (bool \<times> hardfork \<times> fork_db) option" where
  "reorganize_from_block_height hf db h =
    (if db_height db \<le> h then Some (False, hf, db)
     else
       let hf = clear_votes hf;
           w = unat (window_size hf) - 1;
           rescan_height = (if w \<le> h then h - w else 0)
       in case (if h = 0 then Some (original_version hf) else db_fork_versions db h) of
            None \<Rightarrow> None
          | Some start_version \<Rightarrow>
              let hf = hf\<lparr>current_fork_index := lower_index (heights hf) start_version (current_fork_index hf)\<rparr>;
                  hf = scan_votes hf db [rescan_height..<h + 1];
                  hf = update_fork_index hf (h + 1);
                  (hf, db) = add_from hf db [h + 1..<db_height db]
              in Some (True, hf, db))"

definition reorganize_from_chain_height :: "hardfork \<Rightarrow> fork_db \<Rightarrow> nat \<Rightarrow> (bool \<times> hardfork \<times> fork_db) option" where
  "reorganize_from_chain_height hf db h =
    (if h = 0 then Some (False, hf, db) else reorganize_from_block_height hf db (h - 1))"

function find_index :: "fork_params list \<Rightarrow> u8 \<Rightarrow> nat \<Rightarrow> nat" where
  "find_index hs lastv n =
    (if n + 1 < length hs \<and> fork_version (hs ! n) \<noteq> lastv then find_index hs lastv (n + 1) else n)"
  by pat_completeness auto
termination
  by (relation "measure (\<lambda>(hs, lastv, n). length hs - n)") auto

declare find_index.simps [simp del]

definition rescan_from_block_height :: "hardfork \<Rightarrow> fork_db \<Rightarrow> nat \<Rightarrow> (bool \<times> hardfork) option" where
  "rescan_from_block_height hf db h =
    (if db_height db \<le> h then Some (False, hf)
     else
       let hf = scan_votes (clear_votes hf) db [h..<db_height db]
       in case db_fork_versions db (db_height db - 1) of
            None \<Rightarrow> None
          | Some lastv \<Rightarrow>
              let hf = hf\<lparr>current_fork_index := find_index (heights hf) lastv 0\<rparr>
              in Some (True, update_fork_index hf (db_height db)))"

definition rescan_from_chain_height :: "hardfork \<Rightarrow> fork_db \<Rightarrow> nat \<Rightarrow> (bool \<times> hardfork) option" where
  "rescan_from_chain_height hf db h =
    (if h = 0 then Some (False, hf) else rescan_from_block_height hf db (h - 1))"

definition init_hardfork :: "hardfork \<Rightarrow> fork_db \<Rightarrow> (hardfork \<times> fork_db) option" where
  "init_hardfork hf db =
    (let hf = (if heights hf = []
               then hf\<lparr>heights := [\<lparr>fork_version = original_version hf, fork_threshold = 0, fork_height = 0, fork_time = 0\<rparr>]\<rparr>
               else hf);
         hf = (clear_votes hf)\<lparr>current_fork_index := 0\<rparr>;
         w = unat (window_size hf);
         h = (if w < db_height db then db_height db - (w - 1) else 1)
     in if db_fork_versions db 0 = None
        then map_option (\<lambda>(_, hf, db). (hf, set_hard_fork_version db 0 (original_version hf)))
               (reorganize_from_chain_height hf db 1)
        else map_option (\<lambda>(_, hf). (hf, db)) (rescan_from_chain_height hf db h))"

definition get_state :: "hardfork \<Rightarrow> int \<Rightarrow> fork_state" where
  "get_state hf t =
    (if length (heights hf) \<le> 1 then Ready
     else
       let t_last_fork = fork_time (last (heights hf))
       in if t_last_fork + forked_time hf \<le> t then LikelyForked
          else if t_last_fork + update_time hf \<le> t then UpdateNeeded
          else Ready)"

definition get_current_version :: "hardfork \<Rightarrow> u8" where
  "get_current_version hf = fork_version (heights hf ! current_fork_index hf)"

definition get_fork :: "hardfork \<Rightarrow> fork_db \<Rightarrow> nat \<Rightarrow> u8 option" where
  "get_fork hf db h =
    (if db_height db < h then Some 255
     else if h = db_height db then Some (get_current_version hf)
     else db_fork_versions db h)"

definition get_ideal_version :: "hardfork \<Rightarrow> u8" where
  "get_ideal_version hf = fork_version (last (heights hf))"

fun ideal_loop :: "hardfork \<Rightarrow> nat \<Rightarrow> nat \<Rightarrow> u8" where
  "ideal_loop hf h 0 = original_version hf"
| "ideal_loop hf h (Suc n) =
    (if fork_height (heights hf ! Suc n) \<le> h then fork_version (heights hf ! Suc n) else ideal_loop hf h n)"

definition get_ideal_version_at :: "hardfork \<Rightarrow> nat \<Rightarrow> u8" where
  "get_ideal_version_at hf h = ideal_loop hf h (length (heights hf) - 1)"

fun earliest_loop :: "hardfork \<Rightarrow> u8 \<Rightarrow> nat \<Rightarrow> nat" where
  "earliest_loop hf v 0 = 0"
| "earliest_loop hf v (Suc n) =
    (if fork_version (heights hf ! Suc n) \<le> v then fork_height (heights hf ! Suc n) else earliest_loop hf v n)"

definition get_earliest_ideal_height_for_version :: "hardfork \<Rightarrow> u8 \<Rightarrow> nat" where
  "get_earliest_ideal_height_for_version hf v = earliest_loop hf v (length (heights hf) - 1)"

fun next_loop :: "hardfork \<Rightarrow> nat \<Rightarrow> nat \<Rightarrow> u8" where
  "next_loop hf h 0 = original_version hf"
| "next_loop hf h (Suc n) =
    (if fork_height (heights hf ! Suc n) \<le> h
     then fork_version (heights hf ! (if Suc n < length (heights hf) - 1 then Suc n + 1 else Suc n))
     else next_loop hf h n)"

definition get_next_version :: "hardfork \<Rightarrow> fork_db \<Rightarrow> u8" where
  "get_next_version hf db = next_loop hf (db_height db) (length (heights hf) - 1)"

record voting_info =
  vi_enabled :: bool
  vi_window :: u32
  vi_votes :: u32
  vi_threshold :: u32
  vi_earliest_height :: nat
  vi_voting :: u8

definition get_voting_info :: "hardfork \<Rightarrow> u8 \<Rightarrow> voting_info" where
  "get_voting_info hf v =
    (let window = of_nat (length (versions hf))
     in \<lparr>vi_enabled = v \<le> fork_version (heights hf ! current_fork_index hf),
         vi_window = window,
         vi_votes = (\<Sum>n\<leftarrow>[unat v..<256]. last_versions hf (of_nat n)),
         vi_threshold = (window * ucast (fork_threshold (heights hf ! current_fork_index hf)) + 99) div 100,
         vi_earliest_height = get_earliest_ideal_height_for_version hf v,
         vi_voting = fork_version (last (heights hf))\<rparr>)"

section \<open>A node that follows the chain\<close>

text \<open>\<open>BlockchainDB::add_block\<close> stores the block and reports it under the height it got; a block that fails the
check is not added.\<close>

definition follow_block :: "hardfork \<times> fork_db \<Rightarrow> block \<Rightarrow> (hardfork \<times> fork_db) option" where
  "follow_block st b =
    (let (hf, db) = st
     in add_block_vote hf (db\<lparr>db_blocks := db_blocks db @ [b]\<rparr>) b (db_height db))"

fun follow :: "hardfork \<times> fork_db \<Rightarrow> block list \<Rightarrow> (hardfork \<times> fork_db) option" where
  "follow st [] = Some st"
| "follow st (b # bs) = Option.bind (follow_block st b) (\<lambda>st. follow st bs)"

lemma follow_append: "follow st (bs @ cs) = Option.bind (follow st bs) (\<lambda>st. follow st cs)"
  by (induction bs arbitrary: st) (simp_all add: Option.bind_assoc)

section \<open>The invariant\<close>

definition forks_ok :: "hardfork \<Rightarrow> bool" where
  "forks_ok hf \<longleftrightarrow> heights hf \<noteq> [] \<and> sorted_wrt (<) (map fork_version (heights hf)) \<and> 0 < unat (window_size hf)"

definition counts :: "u8 list \<Rightarrow> u8 \<Rightarrow> u32" where
  "counts vs = (\<lambda>v. of_nat (count_list vs v))"

definition votes_ok :: "hardfork \<Rightarrow> bool" where
  "votes_ok hf \<longleftrightarrow> length (versions hf) \<le> unat (window_size hf) \<and> last_versions hf = counts (versions hf) \<and>
    list_all (\<lambda>v. v \<le> fork_version (last (heights hf))) (versions hf)"

definition hf_inv :: "hardfork \<Rightarrow> bool" where
  "hf_inv hf \<longleftrightarrow> forks_ok hf \<and> votes_ok hf \<and> current_fork_index hf < length (heights hf)"

lemma fork_versions_mono:
  assumes "forks_ok hf" and "i < j" and "j < length (heights hf)"
  shows "fork_version (heights hf ! i) < fork_version (heights hf ! j)"
  using assms by (auto simp: forks_ok_def sorted_wrt_iff_nth_less)

lemma fork_index_le_version:
  assumes "forks_ok hf" and "i < length (heights hf)"
  shows "i \<le> unat (fork_version (heights hf ! i))"
  using assms(2)
proof (induction i)
  case (Suc i)
  then have "i \<le> unat (fork_version (heights hf ! i))" by simp
  also have "\<dots> < unat (fork_version (heights hf ! Suc i))"
    using fork_versions_mono [OF assms(1), of i "Suc i"] Suc.prems by (simp add: word_less_nat_alt)
  finally show ?case by simp
qed simp

lemma fork_index_byte:
  assumes "forks_ok hf" and "n < length (heights hf)"
  shows "unat (of_nat n :: u8) = n"
proof -
  have "n < 256" using fork_index_le_version [OF assms] by (rule le_less_trans) simp
  then show ?thesis by (simp add: unat_of_nat)
qed

lemma voted_loop_range:
  "current_fork_index hf \<le> voted_loop hf h m acc \<and> voted_loop hf h m acc \<le> max m (current_fork_index hf)"
  by (induction m arbitrary: acc) (auto simp: Let_def le_max_iff_disj intro: order.trans le_SucI)

lemma voted_range:
  assumes "hf_inv hf"
  shows "current_fork_index hf \<le> get_voted_fork_index hf h" and "get_voted_fork_index hf h < length (heights hf)"
proof -
  show "current_fork_index hf \<le> get_voted_fork_index hf h"
    using voted_loop_range [of hf h] by (simp add: get_voted_fork_index_def)
  have "get_voted_fork_index hf h \<le> max (length (heights hf) - 1) (current_fork_index hf)"
    using voted_loop_range [of hf h] by (simp add: get_voted_fork_index_def)
  also have "\<dots> < length (heights hf)" using assms by (auto simp: hf_inv_def forks_ok_def)
  finally show "get_voted_fork_index hf h < length (heights hf)" .
qed

text \<open>The switch sets the index that was voted for.\<close>

lemma update_fork_index_eq:
  assumes "hf_inv hf"
  shows "update_fork_index hf h = hf\<lparr>current_fork_index := get_voted_fork_index hf h\<rparr>"
proof -
  have "unat (of_nat (get_voted_fork_index hf h) :: u8) = get_voted_fork_index hf h"
    using assms voted_range(2) [OF assms] by (intro fork_index_byte) (auto simp: hf_inv_def)
  then show ?thesis
    using voted_range(1) [OF assms, of h] by (auto simp: update_fork_index_def Let_def)
qed

subsection \<open>The window\<close>

definition recent :: "nat \<Rightarrow> 'a list \<Rightarrow> 'a list" where
  "recent w xs = drop (length xs - w) xs"

lemma recent_snoc:
  assumes "0 < w"
  shows "recent w (xs @ [x]) = drop (Suc (length xs) - w) xs @ [x]"
  using assms by (simp add: recent_def)

lemma recent_recent: "0 < w \<Longrightarrow> recent w (recent w xs @ [x]) = recent w (xs @ [x])"
  by (cases "w \<le> length xs") (auto simp: recent_def Suc_diff_le)

lemma length_recent: "length (recent w xs) \<le> w"
  by (simp add: recent_def)

lemma counts_push: "(counts vs)(v := counts vs v + 1) = counts (vs @ [v])"
  by (auto simp: counts_def)

lemma counts_pop: "(counts (v # vs))(v := counts (v # vs) v - 1) = counts vs"
  by (auto simp: counts_def)

lemma pop_versions_eq:
  assumes "0 < unat w"
  shows "pop_versions w vs (counts vs) = (drop (Suc (length vs) - unat w) vs, counts (drop (Suc (length vs) - unat w) vs))"
proof (induction vs)
  case (Cons v vs)
  show ?case
  proof (cases "unat w \<le> length (v # vs)")
    case True
    then have "Suc (length (v # vs)) - unat w = Suc (Suc (length vs) - unat w)" by simp
    with True Cons show ?thesis by (simp add: counts_pop)
  next
    case False
    then have "Suc (length (v # vs)) - unat w = 0" by simp
    with False show ?thesis by simp
  qed
qed simp

text \<open>The state in which the votes are those of a list.\<close>

definition with_votes :: "hardfork \<Rightarrow> u8 list \<Rightarrow> hardfork" where
  "with_votes hf vs = hf\<lparr>versions := recent (unat (window_size hf)) vs,
    last_versions := counts (recent (unat (window_size hf)) vs)\<rparr>"

lemma effective_le: "heights hf \<noteq> [] \<Longrightarrow> get_effective_version hf v \<le> fork_version (last (heights hf))"
  by (auto simp: get_effective_version_def)

lemma add_vote_eq:
  assumes "hf_inv hf"
  shows "add_vote hf db bv vv h =
    (if do_check hf bv vv
     then Some (update_fork_index (with_votes hf (versions hf @ [get_effective_version hf vv])) (h + 1),
                set_hard_fork_version db h (get_current_version hf))
     else None)"
proof -
  have w: "0 < unat (window_size hf)" and l: "last_versions hf = counts (versions hf)"
    using assms by (auto simp: hf_inv_def forks_ok_def votes_ok_def)
  show ?thesis
    unfolding add_vote_def Let_def l pop_versions_eq [OF w] with_votes_def recent_snoc [OF w] get_current_version_def
    by (simp add: push_version_def counts_push)
qed

lemma with_votes_inv:
  assumes "forks_ok hf" and "current_fork_index hf < length (heights hf)"
    and "list_all (\<lambda>v. v \<le> fork_version (last (heights hf))) vs"
  shows "hf_inv (with_votes hf vs)"
  using assms
  by (auto simp: hf_inv_def forks_ok_def votes_ok_def with_votes_def length_recent recent_def list_all_iff dest: in_set_dropD)

lemma update_inv:
  assumes "hf_inv hf"
  shows "hf_inv (update_fork_index hf h)"
  using assms voted_range(2) [OF assms, of h]
  by (simp add: update_fork_index_eq) (simp add: hf_inv_def forks_ok_def votes_ok_def)

lemma add_vote_inv:
  assumes "hf_inv hf" and "add_vote hf db bv vv h = Some (hf', db')"
  shows "hf_inv hf'"
proof -
  have "hf_inv (with_votes hf (versions hf @ [get_effective_version hf vv]))"
    using assms(1) by (intro with_votes_inv) (auto simp: hf_inv_def votes_ok_def forks_ok_def effective_le)
  then show ?thesis using assms by (auto simp: add_vote_eq update_inv split: if_splits)
qed

section \<open>The state is a function of the chain\<close>

definition fresh :: "hardfork \<Rightarrow> bool" where
  "fresh hf \<longleftrightarrow> forks_ok hf \<and> versions hf = [] \<and> last_versions hf = (\<lambda>_. 0) \<and> current_fork_index hf = 0 \<and>
    fork_version (heights hf ! 0) = original_version hf"

definition effective_votes :: "hardfork \<Rightarrow> block list \<Rightarrow> u8 list" where
  "effective_votes hf bs = map (\<lambda>b. get_effective_version hf (get_block_vote b)) bs"

definition voting_state :: "hardfork \<Rightarrow> block list \<Rightarrow> nat \<Rightarrow> hardfork" where
  "voting_state hf bs c = (with_votes hf (effective_votes hf bs))\<lparr>current_fork_index := c\<rparr>"

lemma voting_state_fields [simp]:
  "heights (voting_state hf bs c) = heights hf" "window_size (voting_state hf bs c) = window_size hf"
  "original_version (voting_state hf bs c) = original_version hf" "current_fork_index (voting_state hf bs c) = c"
  by (simp_all add: voting_state_def with_votes_def)

lemma update_voting_state: "(voting_state hf bs c)\<lparr>current_fork_index := c'\<rparr> = voting_state hf bs c'"
  by (simp add: voting_state_def)

lemma effective_votes_le:
  "heights hf \<noteq> [] \<Longrightarrow> list_all (\<lambda>v. v \<le> fork_version (last (heights hf))) (effective_votes hf bs)"
  by (simp add: effective_votes_def list_all_iff effective_le)

lemma voting_state_inv:
  assumes "fresh hf" and "c < length (heights hf)"
  shows "hf_inv (voting_state hf bs c)"
proof -
  have "hf_inv (with_votes hf (effective_votes hf bs))"
    using assms by (intro with_votes_inv) (auto simp: fresh_def forks_ok_def effective_votes_le)
  with assms(2) show ?thesis
    by (simp add: hf_inv_def forks_ok_def votes_ok_def voting_state_def with_votes_def)
qed

lemma fresh_voting_state: "fresh hf \<Longrightarrow> voting_state hf [] 0 = hf"
  by (simp add: fresh_def voting_state_def with_votes_def effective_votes_def recent_def counts_def)

lemma add_block_vote_state:
  assumes "fresh hf" and "c < length (heights hf)"
    and "add_block_vote (voting_state hf bs c) db b h = Some (hf', db')"
  shows "hf' = update_fork_index (voting_state hf (bs @ [b]) c) (h + 1)"
    and "db' = set_hard_fork_version db h (fork_version (heights hf ! c))"
proof -
  let ?w = "unat (window_size hf)"
  have w: "0 < ?w" using assms(1) by (simp add: fresh_def forks_ok_def)
  have eff: "get_effective_version (voting_state hf bs c) v = get_effective_version hf v" for v
    by (simp add: get_effective_version_def)
  have "versions (voting_state hf bs c) = recent ?w (effective_votes hf bs)"
    by (simp add: voting_state_def with_votes_def)
  then have "with_votes (voting_state hf bs c) (versions (voting_state hf bs c) @ [get_effective_version hf (get_block_vote b)])
      = voting_state hf (bs @ [b]) c"
    by (simp add: voting_state_def with_votes_def effective_votes_def recent_recent [OF w])
  then show "hf' = update_fork_index (voting_state hf (bs @ [b]) c) (h + 1)"
    and "db' = set_hard_fork_version db h (fork_version (heights hf ! c))"
    using assms(3) add_vote_eq [OF voting_state_inv [OF assms(1,2)]]
    by (auto simp: add_block_vote_def eff get_current_version_def split: if_splits)
qed

lemma follow_step:
  assumes "fresh hf" and "c < length (heights hf)" and "db_blocks db = bs"
    and "follow_block (voting_state hf bs c, db) b = Some (hf', db')"
  shows "hf' = voting_state hf (bs @ [b]) (get_voted_fork_index (voting_state hf (bs @ [b]) c) (length bs + 1))"
    and "db_blocks db' = bs @ [b]"
    and "db_fork_versions db' = (db_fork_versions db)(length bs \<mapsto> fork_version (heights hf ! c))"
proof -
  have step: "add_block_vote (voting_state hf bs c) (db\<lparr>db_blocks := bs @ [b]\<rparr>) b (length bs) = Some (hf', db')"
    using assms(3,4) by (simp add: follow_block_def)
  note st = add_block_vote_state [OF assms(1,2) step]
  show "hf' = voting_state hf (bs @ [b]) (get_voted_fork_index (voting_state hf (bs @ [b]) c) (length bs + 1))"
    unfolding st(1) update_fork_index_eq [OF voting_state_inv [OF assms(1,2)]] update_voting_state ..
  show "db_blocks db' = bs @ [b]"
    and "db_fork_versions db' = (db_fork_versions db)(length bs \<mapsto> fork_version (heights hf ! c))"
    by (simp_all add: st(2) set_hard_fork_version_def)
qed

text \<open>Following a chain from a fresh start: the index before and after the last block, and the stored version.\<close>

lemma follow_state:
  assumes "fresh hf" and "db_blocks db = []" and "follow (hf, db) bs = Some (hf', db')"
  shows "db_blocks db' = bs \<and> (\<exists>c. c < length (heights hf) \<and> hf' = voting_state hf bs c)"
  using assms(3)
proof (induction bs arbitrary: hf' db' rule: rev_induct)
  case Nil
  then show ?case using assms(1,2) fresh_voting_state [OF assms(1)] by (auto simp: fresh_def forks_ok_def)
next
  case (snoc b bs)
  then obtain hf1 db1 where 1: "follow (hf, db) bs = Some (hf1, db1)" "follow_block (hf1, db1) b = Some (hf', db')"
    by (auto simp: follow_append elim!: bind_SomeE)
  from snoc.IH [OF 1(1)] obtain c where c: "db_blocks db1 = bs" "c < length (heights hf)" "hf1 = voting_state hf bs c"
    by blast
  note step = follow_step [OF assms(1) c(2,1) 1(2) [unfolded c(3)]]
  moreover have "get_voted_fork_index (voting_state hf (bs @ [b]) c) (length bs + 1) < length (heights hf)"
    using voted_range(2) [OF voting_state_inv [OF assms(1) c(2)]] by simp
  ultimately show ?case by blast
qed

lemma follow_last:
  assumes "fresh hf" and "db_blocks db = []" and "follow (hf, db) (bs @ [b]) = Some (hf', db')"
  obtains c where "c < length (heights hf)"
    and "hf' = voting_state hf (bs @ [b]) (get_voted_fork_index (voting_state hf (bs @ [b]) c) (length bs + 1))"
    and "db_fork_versions db' (length bs) = Some (fork_version (heights hf ! c))" and "bs = [] \<Longrightarrow> c = 0"
proof -
  from assms(3) obtain hf1 db1 where 1: "follow (hf, db) bs = Some (hf1, db1)" "follow_block (hf1, db1) b = Some (hf', db')"
    by (auto simp: follow_append elim!: bind_SomeE)
  from follow_state [OF assms(1,2) 1(1)] obtain c where c: "db_blocks db1 = bs" "c < length (heights hf)" "hf1 = voting_state hf bs c"
    by blast
  note step = follow_step [OF assms(1) c(2,1) 1(2) [unfolded c(3)]]
  have "c = 0" if "bs = []"
  proof -
    have "voting_state hf bs c = voting_state hf [] 0" using 1(1) that c(3) fresh_voting_state [OF assms(1)] by simp
    from arg_cong [OF this, of current_fork_index] show ?thesis by simp
  qed
  with that c(2) step show ?thesis by simp
qed

text \<open>Later blocks leave the stored versions alone and never lower the index.\<close>

lemma follow_later:
  assumes "fresh hf" and "db_blocks db = []" and "follow (hf, db) bs = Some (hf1, db1)"
    and "follow (hf1, db1) cs = Some (hf2, db2)"
  shows "(\<forall>i < length bs. db_fork_versions db2 i = db_fork_versions db1 i) \<and>
    current_fork_index hf1 \<le> current_fork_index hf2"
  using assms(4)
proof (induction cs arbitrary: hf2 db2 rule: rev_induct)
  case (snoc b cs)
  then obtain hf3 db3 where 3: "follow (hf1, db1) cs = Some (hf3, db3)" "follow_block (hf3, db3) b = Some (hf2, db2)"
    by (auto simp: follow_append elim!: bind_SomeE)
  have "follow (hf, db) (bs @ cs) = Some (hf3, db3)" using assms(3) 3(1) by (simp add: follow_append)
  from follow_state [OF assms(1,2) this] obtain c where c: "db_blocks db3 = bs @ cs" "c < length (heights hf)"
    "hf3 = voting_state hf (bs @ cs) c" by blast
  note step = follow_step [OF assms(1) c(2,1) 3(2) [unfolded c(3)]]
  have "c \<le> get_voted_fork_index (voting_state hf ((bs @ cs) @ [b]) c) (length (bs @ cs) + 1)"
    using voted_range(1) [OF voting_state_inv [OF assms(1) c(2)]] by simp
  with step snoc.IH [OF 3(1)] c(3) show ?case by auto
qed simp

section \<open>Rescanning the database\<close>

lemma scan_votes_eq:
  assumes "last_versions hf = counts (versions hf)"
  shows "scan_votes hf db hs =
    hf\<lparr>versions := versions hf @ map (\<lambda>h. get_effective_version hf (get_block_vote (db_blocks db ! h))) hs,
       last_versions := counts (versions hf @ map (\<lambda>h. get_effective_version hf (get_block_vote (db_blocks db ! h))) hs)\<rparr>"
proof (induction hs rule: rev_induct)
  case Nil
  then show ?case using assms by (simp add: scan_votes_def)
next
  case (snoc h hs)
  then show ?case by (simp add: scan_votes_def push_version_def get_effective_version_def counts_push)
qed

lemma effective_cleared:
  "get_effective_version ((clear_votes hf)\<lparr>current_fork_index := c\<rparr>) v = get_effective_version hf v"
  by (simp add: get_effective_version_def clear_votes_def)

lemma cleared:
  "versions (clear_votes hf) = []" "last_versions (clear_votes hf) = counts []" "heights (clear_votes hf) = heights hf"
  "window_size (clear_votes hf) = window_size hf" "original_version (clear_votes hf) = original_version hf"
  "forked_time (clear_votes hf) = forked_time hf" "update_time (clear_votes hf) = update_time hf"
  "default_threshold_percent (clear_votes hf) = default_threshold_percent hf"
  by (simp_all add: clear_votes_def counts_def)

lemma scan_recent:
  assumes "db_blocks db = bs"
  shows "scan_votes ((clear_votes hf)\<lparr>current_fork_index := c\<rparr>) db [length bs - unat (window_size hf)..<length bs] = voting_state hf bs c"
proof -
  let ?s = "length bs - unat (window_size hf)"
  have "map (\<lambda>h. bs ! h) [?s..<length bs] = drop ?s bs" by (rule nth_equalityI) simp_all
  then have "map (\<lambda>h. get_effective_version hf (get_block_vote (bs ! h))) [?s..<length bs]
      = map (\<lambda>b. get_effective_version hf (get_block_vote b)) (drop ?s bs)"
    by (metis (no_types, lifting) map_map comp_apply map_eq_conv)
  also have "\<dots> = recent (unat (window_size hf)) (effective_votes hf bs)"
    by (simp add: recent_def effective_votes_def drop_map)
  finally show ?thesis
    using assms
    by (intro hardfork.equality)
      (simp_all add: scan_votes_eq cleared effective_cleared voting_state_def with_votes_def)
qed

lemma find_index_eq:
  assumes "forks_ok hf" and "c < length (heights hf)" and "n \<le> c"
  shows "find_index (heights hf) (fork_version (heights hf ! c)) n = c"
  using assms(3)
proof (induction "c - n" arbitrary: n)
  case 0
  then show ?case by (subst find_index.simps) simp
next
  case (Suc k)
  then have "n < c" by simp
  with Suc fork_versions_mono [OF assms(1) _ assms(2), of n] assms(2) show ?case
    by (subst find_index.simps) auto
qed

lemma lower_index_eq:
  assumes "forks_ok hf" and "c \<le> n" and "n < length (heights hf)"
  shows "lower_index (heights hf) (fork_version (heights hf ! c)) n = c"
  using assms(2,3)
proof (induction n)
  case (Suc n)
  show ?case
  proof (cases "c = Suc n")
    case True
    then show ?thesis by simp
  next
    case False
    with Suc.prems have "c < Suc n" by simp
    with Suc fork_versions_mono [OF assms(1) this Suc.prems(2)] show ?thesis by simp
  qed
qed simp

lemma rescan_start: "0 < w \<Longrightarrow> (if w < n then n - (w - 1) else 1) - 1 = n - (w :: nat)"
  by auto

lemma init_restores:
  assumes "fresh hf" and "db_blocks db = []" and "bs \<noteq> []" and "follow (hf, db) bs = Some (hf', db')"
  shows "init_hardfork hf db' = Some (hf', db')"
proof -
  obtain xs b where bs: "bs = xs @ [b]" using assms(3) by (cases bs rule: rev_cases) auto
  let ?w = "unat (window_size hf)"
  have ok: "forks_ok hf" and w: "0 < ?w" using assms(1) by (simp_all add: fresh_def forks_ok_def)
  have blocks: "db_blocks db' = bs" using follow_state [OF assms(1,2,4)] by simp
  obtain c where c: "c < length (heights hf)"
    "hf' = voting_state hf bs (get_voted_fork_index (voting_state hf bs c) (length bs))"
    "db_fork_versions db' (length bs - 1) = Some (fork_version (heights hf ! c))"
    using follow_last [OF assms(1,2) assms(4) [unfolded bs]] by (auto simp: bs)
  obtain b0 bs' where b0: "bs = [] @ b0 # bs'" using assms(3) by (cases bs) auto
  then obtain hf1 db1 where 1: "follow (hf, db) ([] @ [b0]) = Some (hf1, db1)" "follow (hf1, db1) bs' = Some (hf', db')"
    using assms(4) by (auto elim!: bind_SomeE)
  have "db_fork_versions db1 0 \<noteq> None" using follow_last [OF assms(1,2) 1(1)] by auto
  then have populated: "db_fork_versions db' 0 \<noteq> None"
    using follow_later [OF assms(1,2) 1] by simp
  have fresh: "(clear_votes hf)\<lparr>current_fork_index := 0\<rparr> = hf" "heights hf \<noteq> []"
    using assms(1) by (simp_all add: fresh_def clear_votes_def forks_ok_def)
  have cleared_index: "(clear_votes hf)\<lparr>current_fork_index := 0\<rparr> = clear_votes hf"
    using assms(1) by (intro hardfork.equality) (auto simp: clear_votes_def fresh_def)
  have "rescan_from_block_height hf db' (length bs - ?w) = Some (True, hf')"
  proof -
    have "scan_votes (clear_votes hf) db' [length bs - ?w..<length bs] = voting_state hf bs 0"
      using scan_recent [OF blocks, where hf = hf and c = 0] cleared_index by simp
    moreover have "\<not> length bs \<le> length bs - ?w" using w assms(3) by (simp add: not_le)
    ultimately show ?thesis
      using c(3) find_index_eq [OF ok c(1)]
      by (simp add: rescan_from_block_height_def blocks Let_def update_voting_state
          update_fork_index_eq [OF voting_state_inv [OF assms(1) c(1)]] c(2))
  qed
  moreover have "(if ?w < length bs then length bs - (?w - 1) else 1) - 1 = length bs - ?w"
    and "(if ?w < length bs then length bs - (?w - 1) else 1) \<noteq> 0"
    using rescan_start [OF w] w by auto
  ultimately have "rescan_from_chain_height hf db' (if ?w < length bs then length bs - (?w - 1) else 1) = Some (True, hf')"
    unfolding rescan_from_chain_height_def by (simp only: if_False)
  then show ?thesis
    unfolding init_hardfork_def Let_def blocks
    by (simp only: fresh populated if_False option.map prod.case)
qed

lemma reorganize_restores:
  assumes "fresh hf" and "db_blocks db = []" and "bs \<noteq> []" and "follow (hf, db) bs = Some (hf1, db1)"
    and "follow (hf1, db1) cs = Some (hf2, db2)"
  shows "reorganize_from_chain_height hf2 (db2\<lparr>db_blocks := bs\<rparr>) (length bs) = Some (True, hf1, db2\<lparr>db_blocks := bs\<rparr>)"
proof -
  obtain xs b where bs: "bs = xs @ [b]" using assms(3) by (cases bs rule: rev_cases) auto
  let ?w = "unat (window_size hf)" and ?db = "db2\<lparr>db_blocks := bs\<rparr>"
  have ok: "forks_ok hf" and w: "0 < ?w" using assms(1) by (simp_all add: fresh_def forks_ok_def)
  obtain c where c: "c < length (heights hf)"
    "hf1 = voting_state hf bs (get_voted_fork_index (voting_state hf bs c) (length bs))"
    "db_fork_versions db1 (length bs - 1) = Some (fork_version (heights hf ! c))" "length bs - 1 = 0 \<Longrightarrow> c = 0"
    using follow_last [OF assms(1,2) assms(4) [unfolded bs]] by (auto simp: bs)
  have "follow (hf, db) (bs @ cs) = Some (hf2, db2)" using assms(4,5) by (simp add: follow_append)
  from follow_state [OF assms(1,2) this] obtain c2 where c2: "c2 < length (heights hf)" "hf2 = voting_state hf (bs @ cs) c2"
    by blast
  have later: "db_fork_versions db2 (length bs - 1) = db_fork_versions db1 (length bs - 1)" and "current_fork_index hf1 \<le> c2"
    using follow_later [OF assms(1,2,4,5)] assms(3) c2(2) by auto
  then have le: "c \<le> c2"
    using voted_range(1) [OF voting_state_inv [OF assms(1) c(1)], of bs "length bs"] c(2) by simp
  have start: "(if length bs - 1 = 0 then Some (original_version hf) else db_fork_versions ?db (length bs - 1)) =
      Some (fork_version (heights hf ! c))"
    using c(3,4) later assms(1) by (auto simp: fresh_def)
  have clear: "(clear_votes hf2)\<lparr>current_fork_index := k\<rparr> = (clear_votes hf)\<lparr>current_fork_index := k\<rparr>" for k
    by (simp add: c2(2) clear_votes_def voting_state_def with_votes_def)
  have fields: "heights (clear_votes hf2) = heights hf" "window_size (clear_votes hf2) = window_size hf"
    "original_version (clear_votes hf2) = original_version hf" "current_fork_index (clear_votes hf2) = c2"
    by (simp_all add: c2(2) clear_votes_def)
  have starts: "(if ?w - 1 \<le> length bs - 1 then length bs - 1 - (?w - 1) else 0) = length bs - ?w" "length bs - 1 + 1 = length bs"
    "0 < length bs" "\<not> length bs \<le> length bs - Suc 0"
    using w assms(3) by (auto simp: not_le)
  have "reorganize_from_block_height hf2 ?db (length bs - 1) = Some (True, hf1, ?db)"
    unfolding reorganize_from_block_height_def Let_def fields starts(1,2) start option.case lower_index_eq [OF ok le c2(1)] clear
    using starts(3,4) scan_recent [of ?db bs, where hf = hf and c = c] lower_index_eq [OF ok le c2(1)]
      update_fork_index_eq [OF voting_state_inv [OF assms(1) c(1)], of bs "length bs"]
    by (simp add: clear c(2) update_voting_state)
  then show ?thesis using starts(3) by (simp add: reorganize_from_chain_height_def)
qed

section \<open>Which fork is voted for\<close>

definition fork_votes :: "hardfork \<Rightarrow> nat \<Rightarrow> nat" where
  "fork_votes hf n = length (filter (\<lambda>v. v \<in> fork_version ` set (drop n (heights hf))) (versions hf))"

text \<open>The rule: the height is reached, and the share of the window that votes for the fork or a later one
is at least the threshold in percent.\<close>

definition fork_wins :: "hardfork \<Rightarrow> nat \<Rightarrow> nat \<Rightarrow> bool" where
  "fork_wins hf h n \<longleftrightarrow> fork_height (heights hf ! n) \<le> h \<and>
    unat (fork_threshold (heights hf ! n)) * unat (window_size hf) \<le> 100 * fork_votes hf n"

lemma filter_insert_count:
  "v \<notin> S \<Longrightarrow> length (filter (\<lambda>x. x = v \<or> x \<in> S) xs) = count_list xs v + length (filter (\<lambda>x. x \<in> S) xs)"
  by (induction xs) auto

lemma fork_votes_Suc:
  assumes "forks_ok hf" and "n < length (heights hf)"
  shows "fork_votes hf n = count_list (versions hf) (fork_version (heights hf ! n)) + fork_votes hf (Suc n)"
proof -
  have "fork_version (heights hf ! n) \<notin> fork_version ` set (drop (Suc n) (heights hf))"
  proof
    assume "fork_version (heights hf ! n) \<in> fork_version ` set (drop (Suc n) (heights hf))"
    then obtain i where "i < length (drop (Suc n) (heights hf))"
      "fork_version (heights hf ! n) = fork_version (drop (Suc n) (heights hf) ! i)"
      by (auto simp: in_set_conv_nth image_iff)
    moreover from this(1) have "Suc n + i < length (heights hf)" by simp
    ultimately show False using fork_versions_mono [OF assms(1), of n "Suc n + i"] by simp
  qed
  moreover have "drop n (heights hf) = heights hf ! n # drop (Suc n) (heights hf)"
    using assms(2) by (simp add: Cons_nth_drop_Suc)
  ultimately show ?thesis by (simp add: fork_votes_def filter_insert_count)
qed

lemma ceil_percent_le: "((x :: nat) + 99) div 100 \<le> v \<longleftrightarrow> x \<le> 100 * v"
  by linarith

lemma threshold_exact:
  assumes "unat (window_size hf) < 2 ^ 32" and "unat (fork_threshold (heights hf ! n)) \<le> 100"
  shows "unat (fork_votes_needed hf n) = (unat (fork_threshold (heights hf ! n)) * unat (window_size hf) + 99) div 100"
proof -
  let ?t = "fork_threshold (heights hf ! n)" and ?w = "window_size hf"
  have "unat ?t < 2 ^ 64" by (rule less_trans [OF unat_byte_lt]) simp
  then have t: "unat (ucast ?t :: u64) = unat ?t" by (simp add: unsigned_ucast_eq take_bit_nat_eq_self)
  have "unat ?t * unat ?w \<le> 100 * unat ?w" using assms(2) by (rule mult_le_mono1)
  then have le: "unat ?t * unat ?w + 99 < 100 * 2 ^ 32" using assms(1) by linarith
  have "unat (?w * ucast ?t) = unat ?t * unat ?w"
    using le by (subst unat_mult_no_wrap) (simp_all add: t mult.commute)
  then have s: "unat (?w * ucast ?t + 99) = unat ?t * unat ?w + 99"
    using le by (subst unat_add_no_wrap) simp_all
  have "(unat ?t * unat ?w + 99) div 100 < 2 ^ 32" using le by (simp add: less_mult_imp_div_less)
  then show ?thesis
    by (simp add: fork_votes_needed_def unsigned_ucast_eq unat_div s take_bit_nat_eq_self)
qed

lemma fork_wins_iff:
  assumes "hf_inv hf" and "unat (window_size hf) < 2 ^ 32" and "unat (fork_threshold (heights hf ! n)) \<le> 100"
  shows "fork_votes_needed hf n \<le> of_nat (fork_votes hf n) \<longleftrightarrow>
    unat (fork_threshold (heights hf ! n)) * unat (window_size hf) \<le> 100 * fork_votes hf n"
proof -
  have "fork_votes hf n \<le> length (versions hf)" by (simp add: fork_votes_def)
  also have "\<dots> \<le> unat (window_size hf)" using assms(1) by (simp add: hf_inv_def votes_ok_def)
  finally have "unat (of_nat (fork_votes hf n) :: u32) = fork_votes hf n"
    using assms(2) unfolding unat_of_nat by simp
  then show ?thesis by (simp add: word_le_nat_alt threshold_exact [OF assms(2,3)] ceil_percent_le)
qed

lemma Max_insert_restrict:
  assumes "P (Suc m)" and "c < Suc m"
  shows "Max (insert c {n. c < n \<and> n \<le> Suc m \<and> P n}) = Suc m"
  using assms by (intro Max_eqI) auto

lemma voted_loop_eq:
  assumes "hf_inv hf" and "unat (window_size hf) < 2 ^ 32"
    and "list_all (\<lambda>f. unat (fork_threshold f) \<le> 100) (heights hf)"
    and "m < length (heights hf)" and "acc = of_nat (fork_votes hf (Suc m))"
  shows "voted_loop hf h m acc = Max (insert (current_fork_index hf) {n. current_fork_index hf < n \<and> n \<le> m \<and> fork_wins hf h n})"
  using assms(4,5)
proof (induction m arbitrary: acc)
  case 0
  have none: "{n. current_fork_index hf < n \<and> n \<le> 0 \<and> fork_wins hf h n} = {}" by auto
  show ?case unfolding none by simp
next
  case (Suc m)
  let ?c = "current_fork_index hf"
  show ?case
  proof (cases "?c < Suc m")
    case False
    then have none: "{n. ?c < n \<and> n \<le> Suc m \<and> fork_wins hf h n} = {}" by auto
    show ?thesis unfolding none using False by simp
  next
    case True
    have "last_versions hf = counts (versions hf)" "forks_ok hf" using assms(1) by (simp_all add: hf_inv_def votes_ok_def)
    then have acc: "acc + last_versions hf (fork_version (heights hf ! Suc m)) = of_nat (fork_votes hf (Suc m))"
      using fork_votes_Suc [OF _ Suc.prems(1)] by (simp add: Suc.prems(2) counts_def add.commute)
    have "unat (fork_threshold (heights hf ! Suc m)) \<le> 100"
      using assms(3) Suc.prems(1) by (simp add: list_all_length)
    note wins = fork_wins_iff [OF assms(1,2) this]
    show ?thesis
    proof (cases "fork_wins hf h (Suc m)")
      case w: True
      then show ?thesis
        using True wins Max_insert_restrict [of "fork_wins hf h" m ?c] by (simp add: Let_def acc fork_wins_def)
    next
      case w: False
      then have "{n. ?c < n \<and> n \<le> Suc m \<and> fork_wins hf h n} = {n. ?c < n \<and> n \<le> m \<and> fork_wins hf h n}"
        by (auto simp: le_Suc_eq)
      moreover have "voted_loop hf h (Suc m) acc = voted_loop hf h m (of_nat (fork_votes hf (Suc m)))"
        using w True wins by (auto simp: Let_def acc fork_wins_def)
      ultimately show ?thesis using Suc.IH [of "of_nat (fork_votes hf (Suc m))"] Suc.prems(1) by simp
    qed
  qed
qed

section \<open>Properties\<close>

text \<open>C36. The voting loop picks the right fork: the index it returns is the greatest scheduled fork beyond the current one
whose height is reached and which has, together with the later forks, the required percentage of the whole window,
and the current fork where there is none. The 32-bit and 64-bit arithmetic of the thresholds never changes the outcome.\<close>

theorem get_voted_fork_index_greatest:
  assumes "hf_inv hf" and "unat (window_size hf) < 2 ^ 32"
    and "list_all (\<lambda>f. unat (fork_threshold f) \<le> 100) (heights hf)"
  shows "get_voted_fork_index hf h =
    Max (insert (current_fork_index hf)
      {n. current_fork_index hf < n \<and> n < length (heights hf) \<and> fork_wins hf h n})"
proof -
  have ne: "0 < length (heights hf)" using assms(1) by (simp add: hf_inv_def forks_ok_def)
  then have le: "n \<le> length (heights hf) - 1 \<longleftrightarrow> n < length (heights hf)" for n by linarith
  have "(0 :: u32) = of_nat (fork_votes hf (Suc (length (heights hf) - 1)))"
    using ne by (simp add: fork_votes_def)
  from voted_loop_eq [OF assms _ this, of h] ne show ?thesis
    unfolding get_voted_fork_index_def le by simp
qed

definition two_forks :: "u8 list \<Rightarrow> hardfork" where
  "two_forks vs = \<lparr>forked_time = 0, update_time = 0, window_size = 4, default_threshold_percent = 80, original_version = 1,
    heights = [\<lparr>fork_version = 1, fork_threshold = 0, fork_height = 0, fork_time = 0\<rparr>,
               \<lparr>fork_version = 2, fork_threshold = 75, fork_height = 5, fork_time = 9\<rparr>],
    versions = vs, last_versions = counts vs, current_fork_index = 0\<rparr>"

lemma two_forks_inv: "length vs \<le> 4 \<Longrightarrow> list_all (\<lambda>v. v \<le> 2) vs \<Longrightarrow> hf_inv (two_forks vs)"
  by (simp add: hf_inv_def forks_ok_def votes_ok_def two_forks_def)

lemma two_forks_fields:
  "current_fork_index (two_forks vs) = 0" "length (heights (two_forks vs)) = 2" "window_size (two_forks vs) = 4"
  "list_all (\<lambda>f. unat (fork_threshold f) \<le> 100) (heights (two_forks vs))"
  by (simp_all add: two_forks_def)

theorem get_voted_fork_index_greatest_witness:
  "get_voted_fork_index (two_forks [2, 1, 2, 2]) 5 =
    Max (insert 0 {n. 0 < n \<and> n < 2 \<and> fork_wins (two_forks [2, 1, 2, 2]) 5 n}) \<and>
   fork_wins (two_forks [2, 1, 2, 2]) 5 1"
proof
  have inv: "hf_inv (two_forks [2, 1, 2, 2])" by (rule two_forks_inv) simp_all
  have "unat (window_size (two_forks [2, 1, 2, 2])) < 2 ^ 32" by (simp add: two_forks_fields)
  from get_voted_fork_index_greatest [OF inv this two_forks_fields(4), of 5]
  show "get_voted_fork_index (two_forks [2, 1, 2, 2]) 5 =
    Max (insert 0 {n. 0 < n \<and> n < 2 \<and> fork_wins (two_forks [2, 1, 2, 2]) 5 n})"
    unfolding two_forks_fields(1,2) .
  show "fork_wins (two_forks [2, 1, 2, 2]) 5 1" by (simp add: two_forks_def fork_wins_def fork_votes_def)
qed

text \<open>C37. Every accepted vote keeps the state well-formed: the window within its size, the counts equal to the
occurrences in the window, the index within the table; the version stored for the height is the one that was
current, and the current fork never goes back.\<close>

theorem add_vote_preserves:
  assumes "hf_inv hf" and "add_vote hf db bv vv h = Some (hf', db')"
  shows "hf_inv hf' \<and> current_fork_index hf \<le> current_fork_index hf' \<and>
    versions hf' = recent (unat (window_size hf)) (versions hf @ [get_effective_version hf vv]) \<and>
    db_fork_versions db' h = Some (get_current_version hf) \<and> bv = get_current_version hf"
proof -
  let ?hf = "with_votes hf (versions hf @ [get_effective_version hf vv])"
  have inv: "hf_inv ?hf"
    using assms(1) by (intro with_votes_inv) (auto simp: hf_inv_def votes_ok_def forks_ok_def effective_le)
  have step: "hf' = update_fork_index ?hf (h + 1)" "db' = set_hard_fork_version db h (get_current_version hf)" "do_check hf bv vv"
    using assms(2) by (auto simp: add_vote_eq [OF assms(1)] split: if_splits)
  have "current_fork_index hf \<le> get_voted_fork_index ?hf (h + 1)"
    using voted_range(1) [OF inv, of "h + 1"] by (simp add: with_votes_def)
  then show ?thesis
    using step add_vote_inv [OF assms]
    by (simp add: update_fork_index_eq [OF inv] set_hard_fork_version_def do_check_def get_current_version_def)
      (simp add: with_votes_def)
qed

theorem add_vote_preserves_witness:
  "\<exists>hf' db'. add_vote (two_forks [1, 1, 2, 2]) \<lparr>db_blocks = [], db_fork_versions = Map.empty\<rparr> 1 9 4 = Some (hf', db') \<and>
    hf_inv hf' \<and> versions hf' = [1, 2, 2, 2]"
proof -
  have inv: "hf_inv (two_forks [1, 1, 2, 2])" by (rule two_forks_inv) simp_all
  have "do_check (two_forks [1, 1, 2, 2]) 1 9" by (simp add: do_check_def two_forks_def)
  then obtain hf' db' where add: "add_vote (two_forks [1, 1, 2, 2]) \<lparr>db_blocks = [], db_fork_versions = Map.empty\<rparr> 1 9 4 = Some (hf', db')"
    by (simp add: add_vote_eq [OF inv])
  have "recent (unat (window_size (two_forks [1, 1, 2, 2]))) (versions (two_forks [1, 1, 2, 2]) @
      [get_effective_version (two_forks [1, 1, 2, 2]) 9]) = [1, 2, 2, 2]"
    by (simp add: recent_def two_forks_def get_effective_version_def)
  with add_vote_preserves [OF inv add] add show ?thesis by simp
qed

text \<open>C38. A restart restores the voting state: initializing a new object on the database of a node that has followed any
chain from the start gives exactly the state of that node, the window, the counts and the current fork, and
changes nothing in the database.\<close>

theorem restart_restores:
  assumes "fresh hf" and "db_blocks db = []" and "bs \<noteq> []" and "follow (hf, db) bs = Some (hf', db')"
  shows "init_hardfork hf db' = Some (hf', db')"
  using assms by (rule init_restores)

definition vote_block :: "u8 \<Rightarrow> block" where
  "vote_block v = \<lparr>major_version = 1, minor_version = v, timestamp = 0, prev_id = 0, nonce = 0,
    miner_tx = \<lparr>version = 2, unlock_time = 0, vin = [], vout = [], extra = [], signatures = [], rct_signatures = rct_null\<rparr>,
    tx_hashes = []\<rparr>"

definition no_forks_db :: fork_db where
  "no_forks_db = \<lparr>db_blocks = [], db_fork_versions = Map.empty\<rparr>"

lemma two_forks_fresh: "fresh (two_forks [])"
  by (simp add: fresh_def forks_ok_def two_forks_def counts_def)

lemma follow_two: "\<exists>hf db. follow (two_forks [], no_forks_db) [vote_block 2] = Some (hf, db)"
proof -
  have inv: "hf_inv (two_forks [])" by (rule two_forks_inv) simp_all
  have "do_check (two_forks []) (get_block_version (vote_block 2)) (get_block_vote (vote_block 2))"
    by (simp add: do_check_def two_forks_def get_block_version_def get_block_vote_def vote_block_def)
  then show ?thesis by (simp add: follow_block_def add_block_vote_def add_vote_eq [OF inv])
qed

theorem restart_restores_witness:
  "\<exists>hf db. follow (two_forks [], no_forks_db) [vote_block 2] = Some (hf, db) \<and> init_hardfork (two_forks []) db = Some (hf, db)"
proof -
  obtain hf db where f: "follow (two_forks [], no_forks_db) [vote_block 2] = Some (hf, db)" using follow_two by blast
  from restart_restores [OF two_forks_fresh _ _ f] f show ?thesis by (simp add: no_forks_db_def)
qed

text \<open>C39. A reorganization restores the voting state: after the blocks beyond a prefix of the chain are popped, the
reorganization to the height of the prefix gives exactly the state the node had when the prefix was its chain, even
where the popped blocks had activated a fork.\<close>

theorem reorganize_restores_prefix:
  assumes "fresh hf" and "db_blocks db = []" and "bs \<noteq> []" and "follow (hf, db) bs = Some (hf1, db1)"
    and "follow (hf1, db1) cs = Some (hf2, db2)"
  shows "reorganize_from_chain_height hf2 (db2\<lparr>db_blocks := bs\<rparr>) (length bs) = Some (True, hf1, db2\<lparr>db_blocks := bs\<rparr>)"
  using assms by (rule reorganize_restores)

theorem reorganize_restores_prefix_witness:
  "\<exists>hf db. follow (two_forks [], no_forks_db) [vote_block 2] = Some (hf, db) \<and>
    reorganize_from_chain_height hf (db\<lparr>db_blocks := [vote_block 2]\<rparr>) 1 = Some (True, hf, db\<lparr>db_blocks := [vote_block 2]\<rparr>)"
proof -
  obtain hf db where f: "follow (two_forks [], no_forks_db) [vote_block 2] = Some (hf, db)" using follow_two by blast
  have "follow (hf, db) [] = Some (hf, db)" by simp
  from reorganize_restores_prefix [OF two_forks_fresh _ _ f this] f show ?thesis by (simp add: no_forks_db_def)
qed

section \<open>The version to come\<close>

text \<open>Before the height of the first scheduled fork, \<open>get_next_version\<close> names the original version, not the one
that the chain will fork to next.\<close>

lemma next_version_before_first_fork:
  assumes "sorted_wrt (<) (map fork_height (heights hf))" and "1 < length (heights hf)"
    and "db_height db < fork_height (heights hf ! 1)"
  shows "get_next_version hf db = original_version hf"
proof -
  have "next_loop hf (db_height db) n = original_version hf" if "n < length (heights hf)" for n
    using that
  proof (induction n)
    case (Suc n)
    have "fork_height (heights hf ! 1) \<le> fork_height (heights hf ! Suc n)"
      using assms(1) Suc.prems by (cases n) (auto simp: sorted_wrt_iff_nth_less less_imp_le)
    with assms(3) Suc show ?case by simp
  qed simp
  then show ?thesis using assms(2) by (simp add: get_next_version_def)
qed

end
