(* ===== verification/Ordered_Map.thy ===== *)
theory Ordered_Map
  imports Prelude
begin

text \<open>
  \<open>std::map\<close>: an association list in strictly ascending order of the keys, with the operations that the
  sources use, and the contract of such containers as a locale.
\<close>

type_synonym ('k, 'v) ordered_map = "('k \<times> 'v) list"

fun om_insert :: "'k::linorder \<Rightarrow> 'v \<Rightarrow> ('k, 'v) ordered_map \<Rightarrow> ('k, 'v) ordered_map" where
  "om_insert k v [] = [(k, v)]"
| "om_insert k v ((k', v') # m) =
    (if k < k' then (k, v) # (k', v') # m
     else if k = k' then (k, v) # m
     else (k', v') # om_insert k v m)"

definition om_erase :: "'k \<Rightarrow> ('k, 'v) ordered_map \<Rightarrow> ('k, 'v) ordered_map" where
  "om_erase k m = filter (\<lambda>(k', _). k' \<noteq> k) m"

text \<open>The entries before \<open>upper_bound(k)\<close>.\<close>

definition om_up_to :: "'k::linorder \<Rightarrow> ('k, 'v) ordered_map \<Rightarrow> ('k, 'v) ordered_map" where
  "om_up_to k m = takeWhile (\<lambda>(k', _). k' \<le> k) m"

definition om_ok :: "('k::linorder, 'v) ordered_map \<Rightarrow> bool" where
  "om_ok m \<longleftrightarrow> sorted_wrt (<) (map fst m)"

section \<open>The contract\<close>

locale updatable_map =
  fixes lookup :: "'m \<Rightarrow> 'k \<Rightarrow> 'v option" and update :: "'k \<Rightarrow> 'v \<Rightarrow> 'm \<Rightarrow> 'm" and wf :: "'m \<Rightarrow> bool"
  assumes lookup_update: "wf m \<Longrightarrow> lookup (update k v m) k' = (if k' = k then Some v else lookup m k')"
    and wf_update: "wf m \<Longrightarrow> wf (update k v m)"
begin

text \<open>Writing where there is nothing, or the same value, keeps every entry.\<close>

lemma update_keeps:
  assumes "wf m" and "lookup m k = None \<or> lookup m k = Some v" and "lookup m k' = Some w"
  shows "lookup (update k v m) k' = Some w"
  using assms by (auto simp: lookup_update)

lemma wf_fold_update: "wf m \<Longrightarrow> wf (fold (\<lambda>(k, v). update k v) kvs m)"
  by (induction kvs arbitrary: m) (auto simp: wf_update)

end

lemma keys_om_insert: "fst ` set (om_insert k v m) = insert k (fst ` set m)"
  by (induction k v m rule: om_insert.induct) (auto simp: insert_commute)

lemma om_ok_Cons: "om_ok ((k, v) # m) \<longleftrightarrow> (\<forall>x \<in> fst ` set m. k < x) \<and> om_ok m"
  by (simp add: om_ok_def)

lemma om_ok_insert: "om_ok m \<Longrightarrow> om_ok (om_insert k v m)"
proof (induction k v m rule: om_insert.induct)
  case (1 k v)
  show ?case by (simp add: om_ok_def)
next
  case (2 k v k' v' m)
  show ?case
  proof (cases "k' < k")
    case True
    then have "\<not> k < k'" "k \<noteq> k'" by auto
    with 2 have "om_ok (om_insert k v m)" by (simp add: om_ok_Cons)
    moreover have "\<forall>x \<in> insert k (fst ` set m). k' < x" using "2.prems" True by (simp add: om_ok_Cons)
    ultimately show ?thesis using \<open>\<not> k < k'\<close> \<open>k \<noteq> k'\<close> by (simp add: om_ok_Cons keys_om_insert)
  next
    case False
    with "2.prems" show ?thesis by (auto simp: om_ok_Cons intro: less_trans)
  qed
qed

lemma map_of_less: "om_ok ((k', v') # m) \<Longrightarrow> k < k' \<Longrightarrow> map_of m k = None"
  by (auto simp: om_ok_def map_of_eq_None_iff)

lemma map_of_om_insert: "om_ok m \<Longrightarrow> map_of (om_insert k v m) x = (if x = k then Some v else map_of m x)"
proof (induction m)
  case (Cons e m)
  obtain k' v' where e: "e = (k', v')" by (cases e)
  have "om_ok m" using Cons.prems by (simp add: om_ok_def e)
  with Cons.IH show ?case by (auto simp: e)
qed simp

interpretation om: updatable_map "map_of :: ('k::linorder, 'v) ordered_map \<Rightarrow> 'k \<Rightarrow> 'v option" om_insert om_ok
  by unfold_locales (simp_all add: map_of_om_insert om_ok_insert)

lemma om_up_to_keys:
  assumes "om_ok m"
  shows "fst ` set (om_up_to k m) = {x \<in> fst ` set m. x \<le> k}"
  using assms
proof (induction m)
  case (Cons e m)
  obtain k' v' where e: "e = (k', v')" by (cases e)
  from Cons.prems have ok: "om_ok m" and less: "\<And>x. x \<in> fst ` set m \<Longrightarrow> k' < x" by (auto simp: om_ok_Cons e)
  show ?case
  proof (cases "k' \<le> k")
    case True
    then have "om_up_to k (e # m) = e # om_up_to k m" by (simp add: om_up_to_def e)
    with Cons.IH [OF ok] True show ?thesis by (auto simp: e)
  next
    case False
    then have "\<not> x \<le> k" if "x \<in> fst ` set m" for x using less [OF that] by auto
    with False show ?thesis by (auto simp: om_up_to_def e)
  qed
qed (simp add: om_up_to_def)

lemma om_last_greatest: "om_ok m \<Longrightarrow> x \<in> fst ` set m \<Longrightarrow> x \<le> fst (last m)"
proof (induction m)
  case (Cons e m)
  obtain k' v' where e: "e = (k', v')" by (cases e)
  have ok: "om_ok m" and less: "\<And>x. x \<in> fst ` set m \<Longrightarrow> k' < x" using Cons.prems(1) by (auto simp: om_ok_Cons e)
  show ?case
  proof (cases "m = []")
    case True
    with Cons.prems(2) show ?thesis by (simp add: e)
  next
    case False
    then have last: "last (e # m) = last m" "fst (last m) \<in> fst ` set m" by simp_all
    with Cons.IH [OF ok] less [OF last(2)] Cons.prems(2) show ?thesis by (auto simp: e)
  qed
qed simp

lemma om_ok_up_to: "om_ok m \<Longrightarrow> om_ok (om_up_to k m)"
proof (induction m)
  case (Cons e m)
  obtain k' v' where e: "e = (k', v')" by (cases e)
  have "om_ok m" using Cons.prems by (simp add: om_ok_Cons e)
  with Cons om_up_to_keys [of m k] show ?case
    by (cases "k' \<le> k") (auto simp: om_up_to_def om_ok_Cons e om_ok_def [of "[]"])
qed (simp add: om_up_to_def)

end
