(* ===== verification/Checkpoints.thy ===== *)
theory Checkpoints
  imports Ordered_Map String_Tools Serialization
begin

text \<open>
  Checkpoints: \<open>src/cryptonote_core/checkpoints.cpp\<close> with \<open>parse_tpod_from_hex_string\<close> of
  \<open>contrib/epee/include/string_tools.h\<close>. The lines of the JSON file are an argument of its loader.

  The lemmas show that checkpoints are never overwritten and which alternative blocks are allowed.
\<close>

type_synonym checkpoints = "(u64, hash) ordered_map"

section \<open>Operations\<close>

definition parse_tpod_from_hex_string :: "string \<Rightarrow> hash option" where
  "parse_tpod_from_hex_string str_hash =
    (case parse_hexstr_to_binbuff str_hash False of
       None \<Rightarrow> None
     | Some buf \<Rightarrow> if length buf \<noteq> 32 then None else Some (le_word buf))"

definition add_checkpoint :: "checkpoints \<Rightarrow> u64 \<Rightarrow> string \<Rightarrow> checkpoints option" where
  "add_checkpoint m_points h hash_str =
    (case parse_tpod_from_hex_string hash_str of
       None \<Rightarrow> None
     | Some hv \<Rightarrow>
         (case map_of m_points h of
            Some old \<Rightarrow> if hv = old then Some (om_insert h hv m_points) else None
          | None \<Rightarrow> Some (om_insert h hv m_points)))"

definition is_in_checkpoint_zone :: "checkpoints \<Rightarrow> u64 \<Rightarrow> bool" where
  "is_in_checkpoint_zone m_points h \<longleftrightarrow> m_points \<noteq> [] \<and> h \<le> fst (last m_points)"

text \<open>The result and \<open>is_a_checkpoint\<close>.\<close>

definition check_block :: "checkpoints \<Rightarrow> u64 \<Rightarrow> hash \<Rightarrow> bool \<times> bool" where
  "check_block m_points h hv =
    (case map_of m_points h of
       None \<Rightarrow> (True, False)
     | Some expected \<Rightarrow> (expected = hv, True))"

definition is_alternative_block_allowed :: "checkpoints \<Rightarrow> u64 \<Rightarrow> u64 \<Rightarrow> bool" where
  "is_alternative_block_allowed m_points blockchain_height block_height =
    (if 0 = block_height then False
     else
       let before = om_up_to blockchain_height m_points
       in if before = [] then True else fst (last before) < block_height)"

text \<open>On an empty container the code dereferences the end iterator.\<close>

definition get_max_height :: "checkpoints \<Rightarrow> u64 option" where
  "get_max_height m_points = (if m_points = [] then None else Some (Max (fst ` set m_points)))"

definition check_for_conflicts :: "checkpoints \<Rightarrow> checkpoints \<Rightarrow> bool" where
  "check_for_conflicts m_points other =
    list_all (\<lambda>(h, hv). case map_of m_points h of None \<Rightarrow> True | Some hv' \<Rightarrow> hv = hv') other"

fun add_checkpoints :: "checkpoints \<Rightarrow> (u64 \<times> string) list \<Rightarrow> checkpoints option" where
  "add_checkpoints m_points [] = Some m_points"
| "add_checkpoints m_points ((h, hash_str) # lines) =
    Option.bind (add_checkpoint m_points h hash_str) (\<lambda>m_points. add_checkpoints m_points lines)"

definition default_checkpoints :: "(u64 \<times> string) list" where
  "default_checkpoints = [
    (1, ''9f63b6539a01271baf90813fc999a1fd40fcf54d8f30377a2d437cfc98605308''),
    (100, ''b917d748282760f0139c9e411a835f2a77db5de739febbb146fcd9a2110c9be3''),
    (10000, ''58dbfcc53ecbcbfb7934d2b4fdbcdf0e6a8360887d64ec9e5c3665883886ebdf''),
    (100000, ''da154a4294099f17b63d314ecfc892853dc29644e0e5ec740f920283854142a2''),
    (271441, ''f12bda0bf1ac8f666292315c135b7f8908f754d907b95e5dac57464ee2b6ad91'')]"

definition init_default_checkpoints :: "checkpoints \<Rightarrow> checkpoints option" where
  "init_default_checkpoints m_points = add_checkpoints m_points default_checkpoints"

text \<open>\<open>hashlines\<close> are the lines of the file, \<open>None\<close> where it does not exist. The outer option is undefined
behaviour; the inner one is the \<open>false\<close> that is returned.\<close>

definition load_checkpoints_from_json ::
  "checkpoints \<Rightarrow> (u64 \<times> string) list option \<Rightarrow> checkpoints option option" where
  "load_checkpoints_from_json m_points hashlines =
    (case hashlines of
       None \<Rightarrow> Some (Some m_points)
     | Some lines \<Rightarrow>
         map_option (\<lambda>prev_max_height. add_checkpoints m_points (filter (\<lambda>(h, _). \<not> h \<le> prev_max_height) lines))
           (get_max_height m_points))"

section \<open>Checkpoints stay\<close>

lemma add_checkpoint_keeps:
  assumes "om_ok m" and "add_checkpoint m h s = Some m'"
  shows "om_ok m' \<and> (\<forall>x w. map_of m x = Some w \<longrightarrow> map_of m' x = Some w) \<and>
    map_of m' h = parse_tpod_from_hex_string s"
  using assms om.update_keeps [OF assms(1), of h]
  by (auto simp: add_checkpoint_def om.lookup_update om.wf_update split: option.splits if_splits)

lemma add_checkpoints_keep:
  "om_ok m \<Longrightarrow> add_checkpoints m lines = Some m' \<Longrightarrow>
    om_ok m' \<and> (\<forall>x w. map_of m x = Some w \<longrightarrow> map_of m' x = Some w)"
proof (induction lines arbitrary: m)
  case (Cons l lines)
  obtain h s where l: "l = (h, s)" by (cases l)
  from Cons.prems(2) obtain m1 where m1: "add_checkpoint m h s = Some m1" "add_checkpoints m1 lines = Some m'"
    by (auto simp: l bind_eq_Some_conv)
  from add_checkpoint_keeps [OF Cons.prems(1) m1(1)] Cons.IH [OF _ m1(2)] show ?case by blast
qed simp

lemma up_to_last:
  assumes "om_ok m"
  shows "om_up_to k m = [] \<or> (fst (last (om_up_to k m)) \<in> fst ` set m \<and> fst (last (om_up_to k m)) \<le> k)"
proof (cases "om_up_to k m = []")
  case False
  then have "fst (last (om_up_to k m)) \<in> fst ` set (om_up_to k m)" by simp
  then show ?thesis unfolding om_up_to_keys [OF assms] by simp
qed simp

lemma alternative_allowed_iff:
  assumes "om_ok m"
  shows "is_alternative_block_allowed m bc h \<longleftrightarrow> 0 < h \<and> (\<forall>x w. map_of m x = Some w \<longrightarrow> x \<le> bc \<longrightarrow> x < h)"
proof -
  have keys: "x \<in> fst ` set m \<longleftrightarrow> (\<exists>w. map_of m x = Some w)" for x
    by (metis map_of_eq_None_iff not_None_eq)
  have le: "x \<le> fst (last (om_up_to bc m))" if "x \<in> fst ` set m" "x \<le> bc" for x
    using om_last_greatest [OF om_ok_up_to [OF assms]] om_up_to_keys [OF assms, of bc] that by blast
  show ?thesis
  proof (cases "om_up_to bc m = []")
    case True
    then have "{x \<in> fst ` set m. x \<le> bc} = {}" using om_up_to_keys [OF assms, of bc] by simp
    then have "\<not> x \<le> bc" if "map_of m x = Some w" for x w using keys that by blast
    with True show ?thesis by (auto simp: is_alternative_block_allowed_def word_gt_0)
  next
    case False
    then obtain w where "map_of m (fst (last (om_up_to bc m))) = Some w" "fst (last (om_up_to bc m)) \<le> bc"
      using up_to_last [OF assms, of bc] keys by blast
    moreover have "x \<le> fst (last (om_up_to bc m))" if "map_of m x = Some v" "x \<le> bc" for x v
      using le keys that by blast
    ultimately show ?thesis using False by (auto simp: is_alternative_block_allowed_def word_gt_0 intro: le_less_trans)
  qed
qed



text \<open>An alternative block is allowed exactly when it is above height zero and above every checkpoint that the chain
has reached: no reorganization can rewrite a block at or below such a checkpoint.\<close>

lemma is_alternative_block_allowed_iff:
  assumes "om_ok m"
  shows "is_alternative_block_allowed m bc h \<longleftrightarrow> 0 < h \<and> (\<forall>x w. map_of m x = Some w \<longrightarrow> x \<le> bc \<longrightarrow> x < h)"
  using assms by (rule alternative_allowed_iff)

lemma is_alternative_block_allowed_iff_witness:
  "is_alternative_block_allowed [(5, 7), (9, 8)] 6 6 \<and> \<not> is_alternative_block_allowed [(5, 7), (9, 8)] 6 5"
proof -
  have ok: "om_ok [(5 :: u64, 7 :: hash), (9, 8)]" by (simp add: om_ok_def)
  show ?thesis
    unfolding is_alternative_block_allowed_iff [OF ok] by (auto split: if_splits intro: exI [of _ 5])
qed

end
