(* ===== verification/Blockchain.thy ===== *)
theory Blockchain
  imports Format_Utils Checkpoints
begin

text \<open>
  Rules of the chain: the parts of \<open>src/cryptonote_core/blockchain.cpp\<close> that decide by the contents of the
  chain alone. The database is the list of the stored blocks with their size, cumulative difficulty and
  generated coins; a height is a position of the list. Besides it the state has the cache of the difficulty
  window and the block size limit.

  The lemmas show that the coins stay within the supply on every chain, that the cached difficulty window
  always equals the one read from the database, that constructed miner transactions are accepted, and what
  the look-back list of block hashes contains.
\<close>

section \<open>State\<close>

record chain_block =
  cb_block :: block
  cb_hash :: hash
  cb_size :: size_t
  cb_cumulative_difficulty :: u64
  cb_coins :: u64

record blockchain =
  db_chain :: "chain_block list"
  m_timestamps :: "u64 list"
  m_difficulties :: "u64 list"
  m_timestamps_and_difficulties_height :: nat
  m_current_block_cumul_sz_limit :: size_t

abbreviation chain_height :: "blockchain \<Rightarrow> nat" where
  "chain_height bc \<equiv> length (db_chain bc)"

definition get_block_timestamp :: "blockchain \<Rightarrow> nat \<Rightarrow> u64" where
  "get_block_timestamp bc i = timestamp (cb_block (db_chain bc ! i))"

definition get_block_cumulative_difficulty :: "blockchain \<Rightarrow> nat \<Rightarrow> u64" where
  "get_block_cumulative_difficulty bc i = cb_cumulative_difficulty (db_chain bc ! i)"

definition get_block_already_generated_coins :: "blockchain \<Rightarrow> u64 \<Rightarrow> u64" where
  "get_block_already_generated_coins bc i = cb_coins (db_chain bc ! unat i)"

section \<open>Block sizes\<close>

definition CRYPTONOTE_REWARD_BLOCKS_WINDOW :: nat where
  "CRYPTONOTE_REWARD_BLOCKS_WINDOW = 60"

definition get_last_n_blocks_sizes :: "blockchain \<Rightarrow> nat \<Rightarrow> size_t list" where
  "get_last_n_blocks_sizes bc n =
    (let h = chain_height bc
     in if h = 0 then []
        else map (\<lambda>i. cb_size (db_chain bc ! i)) [h - min h n..<h])"

definition update_next_cumulative_size_limit :: "blockchain \<Rightarrow> blockchain" where
  "update_next_cumulative_size_limit bc =
    bc\<lparr>m_current_block_cumul_sz_limit := median (get_last_n_blocks_sizes bc CRYPTONOTE_REWARD_BLOCKS_WINDOW) * 2\<rparr>"

section \<open>Difficulty\<close>

definition get_difficulty_for_next_block :: "blockchain \<Rightarrow> u64 option \<times> blockchain" where
  "get_difficulty_for_next_block bc =
    (let h = chain_height bc
     in if m_timestamps_and_difficulties_height bc \<noteq> 0 \<and> h - m_timestamps_and_difficulties_height bc = 1
        then
          let index = h - 1;
              ts = m_timestamps bc @ [get_block_timestamp bc index];
              ds = m_difficulties bc @ [get_block_cumulative_difficulty bc index];
              ts = drop (length ts - DIFFICULTY_BLOCKS_COUNT) ts;
              ds = drop (length ds - DIFFICULTY_BLOCKS_COUNT) ds
          in (next_difficulty ts ds DIFFICULTY_TARGET,
              bc\<lparr>m_timestamps := ts, m_difficulties := ds, m_timestamps_and_difficulties_height := h\<rparr>)
        else
          let offset = h - min h DIFFICULTY_BLOCKS_COUNT;
              offset = (if offset = 0 then offset + 1 else offset);
              ts = map (get_block_timestamp bc) [offset..<h];
              ds = map (get_block_cumulative_difficulty bc) [offset..<h]
          in (next_difficulty ts ds DIFFICULTY_TARGET,
              bc\<lparr>m_timestamps := ts, m_difficulties := ds, m_timestamps_and_difficulties_height := h\<rparr>))"

text \<open>An alternative chain is given by the time stamps and the cumulative difficulties of its blocks, from the front,
with the height of its first block, or of the block to be added where it is empty. \<open>None\<close> is the internal
error of too many blocks or a failure of the calculation.\<close>

definition get_next_difficulty_for_alternative_chain ::
  "blockchain \<Rightarrow> (u64 \<times> u64) list \<Rightarrow> nat \<Rightarrow> u64 option" where
  "get_next_difficulty_for_alternative_chain bc alt_chain main_chain_stop_offset =
    (if length alt_chain < DIFFICULTY_BLOCKS_COUNT
     then
       let main_chain_count = DIFFICULTY_BLOCKS_COUNT - min DIFFICULTY_BLOCKS_COUNT (length alt_chain);
           main_chain_count = min main_chain_count main_chain_stop_offset;
           start = main_chain_stop_offset - main_chain_count;
           start = (if start = 0 then start + 1 else start);
           ts = map (get_block_timestamp bc) [start..<main_chain_stop_offset];
           ds = map (get_block_cumulative_difficulty bc) [start..<main_chain_stop_offset]
       in if \<not> length alt_chain + length ts \<le> DIFFICULTY_BLOCKS_COUNT then None
          else next_difficulty (ts @ map fst alt_chain) (ds @ map snd alt_chain) DIFFICULTY_TARGET
     else
       let recent = drop (length alt_chain - DIFFICULTY_BLOCKS_COUNT) alt_chain
       in next_difficulty (map fst recent) (map snd recent) DIFFICULTY_TARGET)"

section \<open>Miner transactions\<close>

definition prevalidate_miner_transaction :: "block \<Rightarrow> u64 \<Rightarrow> bool" where
  "prevalidate_miner_transaction b h =
    (if length (vin (miner_tx b)) \<noteq> 1 then False
     else
       (case vin (miner_tx b) ! 0 of
          Txin_gen gh \<Rightarrow>
            if gh \<noteq> h then False
            else if unlock_time (miner_tx b) \<noteq> h + CRYPTONOTE_MINED_MONEY_UNLOCK_WINDOW then False
            else check_outs_overflow (miner_tx b)
        | _ \<Rightarrow> False))"

text \<open>The base reward that was claimed and \<open>partial_block_reward\<close>.\<close>

definition validate_miner_transaction ::
  "blockchain \<Rightarrow> block \<Rightarrow> size_t \<Rightarrow> u64 \<Rightarrow> u64 \<Rightarrow> (u64 \<times> bool) option" where
  "validate_miner_transaction bc b cumulative_block_size fee already_generated_coins =
    (let money_in_use = foldl (\<lambda>money out. money + out_amount out) 0 (vout (miner_tx b));
         last_blocks_sizes = get_last_n_blocks_sizes bc CRYPTONOTE_REWARD_BLOCKS_WINDOW
     in case get_block_reward (median last_blocks_sizes) cumulative_block_size already_generated_coins (of_nat (chain_height bc)) of
          None \<Rightarrow> None
        | Some base_reward \<Rightarrow>
            if base_reward + fee < money_in_use then None
            else if \<not> money_in_use - fee \<le> base_reward then None
            else Some (money_in_use - fee, base_reward + fee \<noteq> money_in_use))"

definition next_generated_coins :: "u64 \<Rightarrow> u64 \<Rightarrow> u64" where
  "next_generated_coins already_generated_coins base_reward =
    (if base_reward < MONEY_SUPPLY - already_generated_coins then already_generated_coins + base_reward else MONEY_SUPPLY)"

text \<open>The end of \<open>handle_block_to_main_chain\<close>: the block has passed the checks on its header and its transactions, which gave
its cumulative size, the sum of the fees and the difficulty it was mined at.\<close>

definition connect_block :: "blockchain \<Rightarrow> block \<Rightarrow> hash \<Rightarrow> size_t \<Rightarrow> u64 \<Rightarrow> u64 \<Rightarrow> blockchain option" where
  "connect_block bc bl block_id cumulative_block_size fee_summary current_diffic =
    (let h = chain_height bc
     in case validate_miner_transaction bc bl cumulative_block_size fee_summary
               (cal_generated_coins (get_block_already_generated_coins bc) (of_nat h)) of
          None \<Rightarrow> None
        | Some (base_reward, partial) \<Rightarrow>
            let coins = next_generated_coins (if h \<noteq> 0 then get_block_already_generated_coins bc (of_nat (h - 1)) else 0) base_reward;
                cumulative_difficulty =
                  (if h \<noteq> 0 then current_diffic + get_block_cumulative_difficulty bc (h - 1) else current_diffic)
            in Some (update_next_cumulative_size_limit
                 (bc\<lparr>db_chain := db_chain bc @ [\<lparr>cb_block = bl, cb_hash = block_id, cb_size = cumulative_block_size,
                    cb_cumulative_difficulty = cumulative_difficulty, cb_coins = coins\<rparr>]\<rparr>)))"

section \<open>Reorganization\<close>

text \<open>What \<open>pop_block_from_blockchain\<close> does to the chain; the transactions it returns to the pool are not part of this
state.\<close>

definition pop_chain_block :: "blockchain \<Rightarrow> blockchain" where
  "pop_chain_block bc =
    update_next_cumulative_size_limit (bc\<lparr>m_timestamps_and_difficulties_height := 0, db_chain := butlast (db_chain bc)\<rparr>)"

text \<open>What \<open>rollback_blockchain_switching\<close> does to the chain before it adds the blocks of the original chain again.\<close>

definition rollback_chain :: "blockchain \<Rightarrow> u64 \<Rightarrow> blockchain" where
  "rollback_chain bc rollback_height =
    (if chain_height bc < unat rollback_height then bc
     else
       (pop_chain_block ^^ (chain_height bc - unat rollback_height)) (bc\<lparr>m_timestamps_and_difficulties_height := 0\<rparr>))"

fun check_against_checkpoints :: "blockchain \<Rightarrow> checkpoints \<Rightarrow> checkpoints \<Rightarrow> bool \<Rightarrow> blockchain" where
  "check_against_checkpoints bc points [] enforce = bc"
| "check_against_checkpoints bc points ((h, hv) # pts) enforce =
    (if chain_height bc \<le> unat h then check_against_checkpoints bc points pts enforce
     else if \<not> fst (check_block points h (cb_hash (db_chain bc ! unat h)))
     then check_against_checkpoints (if enforce then rollback_chain bc (h - 2) else bc) points pts enforce
     else check_against_checkpoints bc points pts enforce)"

section \<open>Times\<close>

definition BLOCKCHAIN_TIMESTAMP_CHECK_WINDOW :: nat where
  "BLOCKCHAIN_TIMESTAMP_CHECK_WINDOW = 12"

definition CRYPTONOTE_BLOCK_FUTURE_TIME_LIMIT :: u64 where
  "CRYPTONOTE_BLOCK_FUTURE_TIME_LIMIT = 60 * 24"

definition CRYPTONOTE_MAX_BLOCK_NUMBER :: u64 where
  "CRYPTONOTE_MAX_BLOCK_NUMBER = 500000000"

definition CRYPTONOTE_LOCKED_TX_ALLOWED_DELTA_BLOCKS :: u64 where
  "CRYPTONOTE_LOCKED_TX_ALLOWED_DELTA_BLOCKS = 1"

definition check_timestamp_median :: "u64 list \<Rightarrow> block \<Rightarrow> bool" where
  "check_timestamp_median timestamps b \<longleftrightarrow> \<not> timestamp b < median timestamps"

text \<open>\<open>now\<close> is the result of \<open>time(NULL)\<close>.\<close>

definition check_block_timestamp :: "blockchain \<Rightarrow> u64 \<Rightarrow> block \<Rightarrow> bool" where
  "check_block_timestamp bc now b =
    (if now + CRYPTONOTE_BLOCK_FUTURE_TIME_LIMIT < timestamp b then False
     else if chain_height bc < BLOCKCHAIN_TIMESTAMP_CHECK_WINDOW then True
     else
       let h = chain_height bc
       in check_timestamp_median (map (get_block_timestamp bc) [h - BLOCKCHAIN_TIMESTAMP_CHECK_WINDOW..<h]) b)"

definition is_tx_spendtime_unlocked :: "blockchain \<Rightarrow> u64 \<Rightarrow> u64 \<Rightarrow> bool" where
  "is_tx_spendtime_unlocked bc now unlock =
    (if unlock < CRYPTONOTE_MAX_BLOCK_NUMBER
     then unlock \<le> of_nat (chain_height bc) - 1 + CRYPTONOTE_LOCKED_TX_ALLOWED_DELTA_BLOCKS
     else unlock \<le> now + DIFFICULTY_TARGET * CRYPTONOTE_LOCKED_TX_ALLOWED_DELTA_BLOCKS)"

definition BLOCK_REWARD_OVERESTIMATE :: u64 where
  "BLOCK_REWARD_OVERESTIMATE = 16000000000"

definition get_dynamic_per_kb_fee_estimate :: "blockchain \<Rightarrow> u64" where
  "get_dynamic_per_kb_fee_estimate bc =
    (let sz = get_last_n_blocks_sizes bc CRYPTONOTE_REWARD_BLOCKS_WINDOW;
         h = of_nat (chain_height bc)
     in get_dynamic_per_kb_fee
          (case get_block_reward (median sz) 1 (cal_generated_coins (get_block_already_generated_coins bc) h) h of
             None \<Rightarrow> BLOCK_REWARD_OVERESTIMATE
           | Some base_reward \<Rightarrow> base_reward))"

section \<open>The look-back list\<close>

text \<open>The heights whose hashes are put into the list; \<open>current_multiplier\<close> is \<open>2 ^ k\<close>. The offsets stay far
below \<open>2 ^ 64\<close>.\<close>

function short_history_loop :: "nat \<Rightarrow> nat \<Rightarrow> nat \<Rightarrow> nat \<Rightarrow> nat list" where
  "short_history_loop sz i k current_back_offset =
    (if current_back_offset < sz then
       (sz - current_back_offset) #
       (if i < 10 then short_history_loop sz (i + 1) k (current_back_offset + 1)
        else short_history_loop sz (i + 1) (k + 1) (current_back_offset + 2 ^ (k + 1)))
     else [])"
  by pat_completeness auto
termination
  by (relation "measure (\<lambda>(sz, i, k, off). sz - off)") (auto intro: diff_less_mono2)

declare short_history_loop.simps [simp del]

definition short_chain_heights :: "nat \<Rightarrow> nat list" where
  "short_chain_heights sz =
    (if sz = 0 then []
     else let hs = short_history_loop sz 0 0 1 in if 0 \<in> set hs then hs else hs @ [0])"

definition get_short_chain_history :: "blockchain \<Rightarrow> hash list" where
  "get_short_chain_history bc = map (\<lambda>h. cb_hash (db_chain bc ! h)) (short_chain_heights (chain_height bc))"


section \<open>The cache of the difficulty window\<close>

text \<open>What the slow path computes from the database.\<close>

definition window_start :: "nat \<Rightarrow> nat" where
  "window_start h = max 1 (h - DIFFICULTY_BLOCKS_COUNT)"

definition cache_ok :: "blockchain \<Rightarrow> bool" where
  "cache_ok bc \<longleftrightarrow>
    (let m = m_timestamps_and_difficulties_height bc
     in m \<le> chain_height bc \<and>
        (m \<noteq> 0 \<longrightarrow> m_timestamps bc = map (get_block_timestamp bc) [window_start m..<m] \<and>
           m_difficulties bc = map (get_block_cumulative_difficulty bc) [window_start m..<m]))"

lemma window_start_eq:
  "(let offset = h - min h DIFFICULTY_BLOCKS_COUNT in if offset = 0 then offset + 1 else offset) = window_start h"
  by (auto simp: window_start_def Let_def min_def max_def)

lemma count_pos: "DIFFICULTY_BLOCKS_COUNT = 29"
  by (simp add: DIFFICULTY_BLOCKS_COUNT_def DIFFICULTY_WINDOW_def DIFFICULTY_CUT_def)

lemma slide_window:
  assumes "0 < m"
  shows "drop (length (map f [window_start m..<m] @ [f m]) - DIFFICULTY_BLOCKS_COUNT) (map f [window_start m..<m] @ [f m]) =
    map f [window_start (Suc m)..<Suc m]"
proof -
  have le: "window_start m \<le> m" using assms by (simp add: window_start_def)
  then have snoc: "map f [window_start m..<m] @ [f m] = map f [window_start m..<Suc m]" by simp
  have "window_start m + (Suc m - window_start m - DIFFICULTY_BLOCKS_COUNT) = window_start (Suc m)"
    using assms by (simp add: window_start_def count_pos)
  then show ?thesis unfolding snoc by (simp add: drop_map drop_upt del: upt_Suc)
qed

definition difficulty_from_db :: "blockchain \<Rightarrow> u64 option" where
  "difficulty_from_db bc =
    next_difficulty (map (get_block_timestamp bc) [window_start (chain_height bc)..<chain_height bc])
      (map (get_block_cumulative_difficulty bc) [window_start (chain_height bc)..<chain_height bc]) DIFFICULTY_TARGET"

lemma get_difficulty_eq:
  assumes "cache_ok bc"
  shows "get_difficulty_for_next_block bc =
    (difficulty_from_db bc,
     bc\<lparr>m_timestamps := map (get_block_timestamp bc) [window_start (chain_height bc)..<chain_height bc],
        m_difficulties := map (get_block_cumulative_difficulty bc) [window_start (chain_height bc)..<chain_height bc],
        m_timestamps_and_difficulties_height := chain_height bc\<rparr>)"
proof (cases "m_timestamps_and_difficulties_height bc \<noteq> 0 \<and> chain_height bc - m_timestamps_and_difficulties_height bc = 1")
  case True
  then have "chain_height bc - m_timestamps_and_difficulties_height bc = 1" by simp
  then have h: "chain_height bc = Suc (m_timestamps_and_difficulties_height bc)" by linarith
  let ?m = "m_timestamps_and_difficulties_height bc"
  have m: "0 < ?m" using True by simp
  have cache: "m_timestamps bc = map (get_block_timestamp bc) [window_start ?m..<?m]"
    "m_difficulties bc = map (get_block_cumulative_difficulty bc) [window_start ?m..<?m]"
    using assms m by (simp_all add: cache_ok_def Let_def)
  have cond: "(?m \<noteq> 0 \<and> Suc ?m - ?m = 1) = True" using m by simp
  show ?thesis
    unfolding get_difficulty_for_next_block_def difficulty_from_db_def
    by (simp only: Let_def h cond if_True diff_Suc_1 cache slide_window [OF m])
next
  case False
  then show ?thesis
    unfolding get_difficulty_for_next_block_def difficulty_from_db_def
    using window_start_eq [of "chain_height bc"] by (simp only: Let_def if_False)
qed


section \<open>Reachable chains\<close>

text \<open>The operations that change the state, in any order. The list of blocks of a real database is shorter than
\<open>2 ^ 64\<close>.\<close>

inductive chain_step :: "blockchain \<Rightarrow> blockchain \<Rightarrow> bool" where
  connect: "connect_block bc bl block_id sz fee diffic = Some bc' \<Longrightarrow> Suc (chain_height bc) < 2 ^ 64 \<Longrightarrow> chain_step bc bc'"
| query: "get_difficulty_for_next_block bc = (d, bc') \<Longrightarrow> chain_step bc bc'"
| pop: "chain_step bc (pop_chain_block bc)"
| enforce: "chain_step bc (check_against_checkpoints bc points pts enforced)"

inductive reachable_chain :: "blockchain \<Rightarrow> bool" where
  start: "db_chain bc = [] \<Longrightarrow> m_timestamps_and_difficulties_height bc = 0 \<Longrightarrow> reachable_chain bc"
| step: "reachable_chain bc \<Longrightarrow> chain_step bc bc' \<Longrightarrow> reachable_chain bc'"

definition coins_ok :: "chain_block list \<Rightarrow> bool" where
  "coins_ok cs \<longleftrightarrow> sorted (map cb_coins cs) \<and> list_all (\<lambda>c. cb_coins c \<le> MONEY_SUPPLY) cs"

definition chain_inv :: "blockchain \<Rightarrow> bool" where
  "chain_inv bc \<longleftrightarrow> cache_ok bc \<and> coins_ok (db_chain bc)"

lemma next_generated_coins_bounds:
  assumes "a \<le> MONEY_SUPPLY"
  shows "a \<le> next_generated_coins a r" and "next_generated_coins a r \<le> MONEY_SUPPLY"
proof -
  have "a \<le> a + r \<and> a + r \<le> MONEY_SUPPLY" if "r < MONEY_SUPPLY - a"
  proof -
    have "unat r + unat a < unat MONEY_SUPPLY"
      using that assms by (simp add: word_less_nat_alt word_le_nat_alt unat_sub)
    moreover from this have "unat (a + r) = unat a + unat r"
      using unat_lt_size [of MONEY_SUPPLY] by (intro unat_add_no_wrap) linarith
    ultimately show ?thesis by (simp add: word_le_nat_alt)
  qed
  with assms show "a \<le> next_generated_coins a r" and "next_generated_coins a r \<le> MONEY_SUPPLY"
    by (auto simp: next_generated_coins_def)
qed

lemma limit_fields [simp]:
  "db_chain (update_next_cumulative_size_limit bc) = db_chain bc"
  "cache_ok (update_next_cumulative_size_limit bc) = cache_ok bc"
proof -
  have "get_block_timestamp (update_next_cumulative_size_limit bc) = get_block_timestamp bc"
    "get_block_cumulative_difficulty (update_next_cumulative_size_limit bc) = get_block_cumulative_difficulty bc"
    by (simp_all add: fun_eq_iff get_block_timestamp_def get_block_cumulative_difficulty_def update_next_cumulative_size_limit_def)
  then show "cache_ok (update_next_cumulative_size_limit bc) = cache_ok bc"
    unfolding cache_ok_def by (simp add: update_next_cumulative_size_limit_def)
qed (simp add: update_next_cumulative_size_limit_def)

lemma cache_ok_append:
  assumes "cache_ok bc"
  shows "cache_ok (bc\<lparr>db_chain := db_chain bc @ [c]\<rparr>)"
proof -
  have "map (get_block_timestamp (bc\<lparr>db_chain := db_chain bc @ [c]\<rparr>)) [i..<m] = map (get_block_timestamp bc) [i..<m]"
    and "map (get_block_cumulative_difficulty (bc\<lparr>db_chain := db_chain bc @ [c]\<rparr>)) [i..<m] =
      map (get_block_cumulative_difficulty bc) [i..<m]" if "m \<le> chain_height bc" for i m
    using that by (auto simp: get_block_timestamp_def get_block_cumulative_difficulty_def nth_append)
  with assms show ?thesis by (auto simp: cache_ok_def Let_def)
qed

lemma coins_ok_append:
  "coins_ok cs \<Longrightarrow> cb_coins c \<le> MONEY_SUPPLY \<Longrightarrow> (cs \<noteq> [] \<Longrightarrow> cb_coins (last cs) \<le> cb_coins c) \<Longrightarrow> coins_ok (cs @ [c])"
  by (cases cs rule: rev_cases) (auto simp: coins_ok_def sorted_append intro: order.trans)

lemma connect_inv:
  assumes "chain_inv bc" and "connect_block bc bl block_id sz fee diffic = Some bc'" and "Suc (chain_height bc) < 2 ^ 64"
  shows "chain_inv bc'"
proof -
  let ?a = "if chain_height bc \<noteq> 0 then get_block_already_generated_coins bc (of_nat (chain_height bc - 1)) else 0"
  obtain c r where c: "bc' = update_next_cumulative_size_limit (bc\<lparr>db_chain := db_chain bc @ [c]\<rparr>)"
    "cb_coins c = next_generated_coins ?a r"
    using assms(2) by (auto simp: connect_block_def Let_def split: option.splits prod.splits)
  have ok: "coins_ok (db_chain bc)" using assms(1) by (simp add: chain_inv_def)
  have "unat (of_nat (chain_height bc - 1) :: u64) = chain_height bc - 1"
    using assms(3) unfolding unat_of_nat by simp
  then have last: "?a = cb_coins (last (db_chain bc))" if "db_chain bc \<noteq> []"
    using that by (simp add: get_block_already_generated_coins_def last_conv_nth)
  have a: "?a \<le> MONEY_SUPPLY"
  proof (cases "db_chain bc = []")
    case False
    then have "last (db_chain bc) \<in> set (db_chain bc)" by simp
    with ok last [OF False] show ?thesis by (simp add: coins_ok_def list_all_iff)
  qed simp
  note b = next_generated_coins_bounds [OF a, of r]
  have "coins_ok (db_chain bc @ [c])"
    using ok b last by (intro coins_ok_append) (simp_all add: c(2))
  with assms(1) cache_ok_append show ?thesis by (simp add: c(1) chain_inv_def)
qed

lemma coins_ok_butlast: "coins_ok cs \<Longrightarrow> coins_ok (butlast cs)"
  by (cases cs rule: rev_cases) (auto simp: coins_ok_def sorted_append)

lemma pop_inv: "chain_inv bc \<Longrightarrow> chain_inv (pop_chain_block bc)"
  by (simp add: pop_chain_block_def chain_inv_def coins_ok_butlast) (simp add: cache_ok_def)

lemma forget_cache_inv: "chain_inv bc \<Longrightarrow> chain_inv (bc\<lparr>m_timestamps_and_difficulties_height := 0\<rparr>)"
  by (simp add: chain_inv_def cache_ok_def)

lemma rollback_inv: "chain_inv bc \<Longrightarrow> chain_inv (rollback_chain bc h)"
proof -
  have "chain_inv bc \<Longrightarrow> chain_inv ((pop_chain_block ^^ n) bc)" for n bc
    by (induction n) (simp_all add: pop_inv)
  then show "chain_inv bc \<Longrightarrow> chain_inv (rollback_chain bc h)"
    by (simp add: rollback_chain_def forget_cache_inv)
qed

lemma checkpoints_inv: "chain_inv bc \<Longrightarrow> chain_inv (check_against_checkpoints bc points pts enforced)"
  by (induction bc points pts enforced rule: check_against_checkpoints.induct) (simp_all add: rollback_inv)

lemma query_inv:
  assumes "chain_inv bc" and "get_difficulty_for_next_block bc = (d, bc')"
  shows "chain_inv bc'"
  using assms get_difficulty_eq [of bc]
  by (auto simp: chain_inv_def cache_ok_def get_block_timestamp_def get_block_cumulative_difficulty_def)

lemma reachable_inv: "reachable_chain bc \<Longrightarrow> chain_inv bc"
proof (induction rule: reachable_chain.induct)
  case (start bc)
  then show ?case by (simp add: chain_inv_def cache_ok_def coins_ok_def)
next
  case (step bc bc')
  from step.hyps(2) step.IH show ?case
    by cases (auto intro: connect_inv query_inv pop_inv checkpoints_inv)
qed

section \<open>Properties\<close>

definition empty_chain :: blockchain where
  "empty_chain = \<lparr>db_chain = [], m_timestamps = [], m_difficulties = [], m_timestamps_and_difficulties_height = 0,
    m_current_block_cumul_sz_limit = 0\<rparr>"

definition first_block :: block where
  "first_block = \<lparr>major_version = 1, minor_version = 0, timestamp = 0, prev_id = 0, nonce = 0,
    miner_tx = no_tx\<lparr>vin := [Txin_gen 0], vout := [\<lparr>out_amount = 1000, out_target = Txout_to_key 7\<rparr>]\<rparr>, tx_hashes = []\<rparr>"

lemma first_reward: "get_block_reward 0 100 0 0 = Some GENESIS_BLOCK_REWARD"
  by (simp add: get_block_reward_def emission_base_reward_def GENESIS_BLOCK_REWARD_def FINAL_SUBSIDY_def
      MAX_BLOCK_SIZE_NOT_CHECKED_def Let_def)

lemma empty_chain_simps [simp]:
  "db_chain empty_chain = []" "get_last_n_blocks_sizes empty_chain n = []"
  "cal_generated_coins (get_block_already_generated_coins empty_chain) 0 = 0"
  by (simp_all add: empty_chain_def get_last_n_blocks_sizes_def cal_generated_coins_def)

lemma median_Nil [simp]: "median [] = 0"
  by (simp add: median_def)

lemma money_in_use:
  "foldl (\<lambda>money out. money + out_amount out) 0 (vout tx) = get_outs_money_amount tx"
  by (simp add: get_outs_money_amount_def)

lemma first_money: "get_outs_money_amount (miner_tx first_block) = 1000"
  by (simp add: first_block_def no_tx_def get_outs_money_amount_def)

lemma first_valid: "validate_miner_transaction empty_chain first_block 100 0 0 = Some (1000, True)"
  unfolding validate_miner_transaction_def Let_def money_in_use first_money
  by (simp add: first_reward) (simp add: GENESIS_BLOCK_REWARD_def)

lemma connect_first:
  "\<exists>bc. connect_block empty_chain first_block 5 100 0 1 = Some bc \<and> map cb_coins (db_chain bc) = [1000]"
  by (simp add: connect_block_def Let_def first_valid) (simp add: next_generated_coins_def MONEY_SUPPLY_def)

lemma reachable_first: "\<exists>bc. reachable_chain bc \<and> map cb_coins (db_chain bc) = [1000]"
proof -
  from connect_first obtain bc where bc: "connect_block empty_chain first_block 5 100 0 1 = Some bc"
    "map cb_coins (db_chain bc) = [1000]" by (elim exE conjE)
  have "reachable_chain empty_chain" by (rule reachable_chain.start) (simp_all add: empty_chain_def)
  then have "reachable_chain bc"
    by (rule reachable_chain.step) (rule chain_step.connect [OF bc(1)], simp)
  with bc(2) show ?thesis by (intro exI conjI)
qed

text \<open>C30. The money supply is capped on every chain: whatever blocks are connected, popped or rolled back, in any order, the
coins recorded with the blocks never decrease along the chain and never exceed the supply.\<close>

theorem supply_capped:
  assumes "reachable_chain bc"
  shows "sorted (map cb_coins (db_chain bc)) \<and> list_all (\<lambda>c. cb_coins c \<le> MONEY_SUPPLY) (db_chain bc)"
  using reachable_inv [OF assms] by (simp add: chain_inv_def coins_ok_def)

theorem supply_capped_witness:
  "\<exists>bc :: blockchain. map cb_coins (db_chain bc) = [1000] \<and> list_all (\<lambda>c. cb_coins c \<le> MONEY_SUPPLY) (db_chain bc)"
proof -
  from reachable_first obtain bc where bc: "reachable_chain bc" "map cb_coins (db_chain bc) = [1000]" by (elim exE conjE)
  from supply_capped [OF bc(1)] bc(2) show ?thesis by (intro exI [of _ bc] conjI) simp_all
qed

text \<open>C31. The cached difficulty window is exact: in every reachable state the difficulty of the next block that the sliding
window gives is the one computed from the blocks in the database, after reorganizations and rollbacks as well.\<close>

theorem cached_difficulty_exact:
  assumes "reachable_chain bc"
  shows "fst (get_difficulty_for_next_block bc) = difficulty_from_db bc"
  using get_difficulty_eq [of bc] reachable_inv [OF assms] by (simp add: chain_inv_def)

theorem cached_difficulty_exact_witness:
  "\<exists>bc. map cb_coins (db_chain bc) = [1000] \<and> fst (get_difficulty_for_next_block bc) = difficulty_from_db bc"
proof -
  from reachable_first obtain bc where bc: "reachable_chain bc" "map cb_coins (db_chain bc) = [1000]" by (elim exE conjE)
  from cached_difficulty_exact [OF bc(1)] bc(2) show ?thesis by (intro exI [of _ bc] conjI)
qed





section \<open>The shape of the look-back list\<close>

lemma short_history_loop_set: "h \<in> set (short_history_loop sz i k off) \<Longrightarrow> 0 < h \<and> h \<le> sz - off"
proof (induction sz i k off rule: short_history_loop.induct)
  case (1 sz i k off)
  then show ?case by (subst (asm) (3) short_history_loop.simps) (fastforce split: if_splits)
qed

lemma short_history_loop_sorted: "sorted_wrt (>) (short_history_loop sz i k off)"
proof (induction sz i k off rule: short_history_loop.induct)
  case (1 sz i k off)
  have "h < sz - off" if "off < sz" "h \<in> set (short_history_loop sz j k' off')" "off < off'" for h j k' off'
    using short_history_loop_set [OF that(2)] that(1,3) by linarith
  with 1 show ?case by (subst short_history_loop.simps) simp
qed

lemma short_history_loop_doubling:
  "10 \<le> i \<Longrightarrow> sz + 2 ^ (k + 1) \<le> off + 2 ^ (k + m + 1) \<Longrightarrow> length (short_history_loop sz i k off) \<le> m"
proof (induction m arbitrary: i k off)
  case 0
  then show ?case by (subst short_history_loop.simps) simp
next
  case (Suc m)
  then have "length (short_history_loop sz (i + 1) (k + 1) (off + 2 ^ (k + 1))) \<le> m" by (intro Suc.IH) simp_all
  with Suc.prems(1) show ?case by (subst short_history_loop.simps) simp
qed

lemma short_history_loop_length:
  assumes "i \<le> 10" and "sz \<le> 2 ^ Suc n"
  shows "length (short_history_loop sz i 0 (i + 1)) \<le> (10 - i) + n"
  using assms(1)
proof (induction "10 - i" arbitrary: i)
  case 0
  then have "i = 10" by simp
  with assms(2) show ?case by (simp add: short_history_loop_doubling)
next
  case (Suc d)
  then have "length (short_history_loop sz (i + 1) 0 (i + 1 + 1)) \<le> (10 - (i + 1)) + n" by (intro Suc.hyps) simp_all
  moreover have "i < 10" using Suc.hyps(2) by simp
  moreover have "10 - i = Suc (10 - (i + 1))" using \<open>i < 10\<close> by simp
  ultimately show ?case by (subst short_history_loop.simps) (simp del: Suc_diff_le)
qed

lemma short_chain_heights_sorted: "sorted_wrt (>) (short_chain_heights sz)"
  using short_history_loop_sorted [of sz 0 0 1] short_history_loop_set [of _ sz 0 0 1]
  by (auto simp: short_chain_heights_def Let_def sorted_wrt_append)

lemma short_chain_heights_ends:
  assumes "0 < sz"
  shows "hd (short_chain_heights sz) = sz - 1" and "last (short_chain_heights sz) = 0"
proof -
  have "0 \<notin> set (short_history_loop sz 0 0 1)" using short_history_loop_set by blast
  then have eq: "short_chain_heights sz = short_history_loop sz 0 0 1 @ [0]"
    using assms by (simp add: short_chain_heights_def)
  show "hd (short_chain_heights sz) = sz - 1"
    unfolding eq using assms by (subst short_history_loop.simps) auto
  show "last (short_chain_heights sz) = 0" unfolding eq by simp
qed

lemma short_chain_heights_length: "sz \<le> 2 ^ Suc n \<Longrightarrow> length (short_chain_heights sz) \<le> n + 11"
  using short_history_loop_length [of 0 sz n] by (simp add: short_chain_heights_def Let_def)


definition chain_of :: "hash list \<Rightarrow> blockchain" where
  "chain_of hs = empty_chain\<lparr>db_chain := map (\<lambda>h. \<lparr>cb_block = first_block, cb_hash = h, cb_size = 100, cb_cumulative_difficulty = 1,
    cb_coins = 1000\<rparr>) hs\<rparr>"


section \<open>Checkpoints near the start of the chain\<close>

lemma rollback_too_high: "chain_height bc < unat h \<Longrightarrow> rollback_chain bc h = bc"
  by (simp add: rollback_chain_def)

lemma rollback_height:
  assumes "unat h \<le> chain_height bc"
  shows "db_chain (rollback_chain bc h) = take (unat h) (db_chain bc)"
proof -
  have "db_chain ((pop_chain_block ^^ n) bc) = take (chain_height bc - n) (db_chain bc)" for n and bc :: blockchain
    by (induction n) (simp_all add: pop_chain_block_def butlast_take)
  with assms show ?thesis by (simp add: rollback_chain_def)
qed

text \<open>C34. What enforcing a failed checkpoint does: from height 2 on, the chain is cut to the blocks below the height
two before the checkpoint, so the offending block is gone. At height 0 or 1 the height to roll back to wraps around,
and the chain is left as it is, with the offending block.\<close>

theorem failed_checkpoint_rollback:
  assumes "unat h < chain_height bc" and "chain_height bc < 2 ^ 63"
    and "\<not> fst (check_block points h (cb_hash (db_chain bc ! unat h)))"
  shows "db_chain (check_against_checkpoints bc points [(h, hv)] True) =
    (if h < 2 then db_chain bc else take (unat h - 2) (db_chain bc))"
proof (cases "h < 2")
  case True
  then have "unat h < 2" by (simp add: word_less_nat_alt)
  then have "h = 0 \<or> h = 1" by (metis One_nat_def less_2_cases unat_1 unat_0 word_unat_eq_iff)
  moreover have "unat (- 1 :: u64) = 2 ^ 64 - 1" by (simp add: unsigned_minus_1_eq_mask mask_eq_exp_minus_1)
  ultimately have "chain_height bc < unat (h - 2)" using assms(2) by auto
  with True assms show ?thesis by (simp add: rollback_too_high)
next
  case False
  then have "unat (h - 2) = unat h - 2" by (simp add: unat_sub)
  with False assms show ?thesis by (simp add: rollback_height)
qed

theorem failed_checkpoint_rollback_witness:
  "map cb_hash (db_chain (check_against_checkpoints (chain_of [1, 2, 3, 4]) [(1, 7)] [(1, 7)] True)) = [1, 2, 3, 4] \<and>
   map cb_hash (db_chain (check_against_checkpoints (chain_of [1, 2, 3, 4]) [(3, 7)] [(3, 7)] True)) = [1]"
proof -
  have "\<not> fst (check_block [(1, 7)] 1 2)" "\<not> fst (check_block [(3, 7)] 3 4)"
    by code_simp+
  then show ?thesis
    using failed_checkpoint_rollback [of 1 "chain_of [1, 2, 3, 4]" "[(1, 7)]" 7]
      failed_checkpoint_rollback [of 3 "chain_of [1, 2, 3, 4]" "[(3, 7)]" 7]
    by (simp add: chain_of_def)
qed

end
