(* ===== verification/Signed_Words.thy ===== *)
theory Signed_Words
  imports Prelude
begin

text \<open>
  Signed machine words: the C types \<open>int32_t\<close> and \<open>int64_t\<close> are words read by \<^const>\<open>sint\<close>, the operator \<open>>>\<close> on them is
  the arithmetic shift \<^const>\<open>signed_drop_bit\<close>. The lemmas replace word operations by integer operations wherever the
  integer result is within the range of the type.
\<close>

type_synonym i32 = "32 word"
type_synonym i64 = "64 word"

definition to_i64 :: "i32 \<Rightarrow> i64" where
  "to_i64 x = scast x"

definition to_i32 :: "i64 \<Rightarrow> i32" where
  "to_i32 x = ucast x"

lemma to_i64_eq: "to_i64 x = word_of_int (sint x)"
  by (simp add: to_i64_def)

lemma sint_word_of_int_id:
  assumes "- (2 ^ (LENGTH('a) - 1)) \<le> x" and "x < 2 ^ (LENGTH('a) - 1)"
  shows "sint (word_of_int x :: 'a :: len word) = x"
  using assms by (simp add: signed_of_int signed_take_bit_int_eq_self)

lemma sint_i64 [simp]: "\<bar>x\<bar> < 2 ^ 63 \<Longrightarrow> sint (word_of_int x :: i64) = x"
  by (rule sint_word_of_int_id) auto

lemma sint_i32 [simp]: "\<bar>x\<bar> < 2 ^ 31 \<Longrightarrow> sint (word_of_int x :: i32) = x"
  by (rule sint_word_of_int_id) auto

lemma to_i32_of_int: "to_i32 (word_of_int x) = word_of_int x"
  by (rule bit_word_eqI) (simp add: to_i32_def bit_simps)

lemma abs_div_less: "\<bar>x\<bar> < b \<Longrightarrow> \<bar>x div 2 ^ n\<bar> < b" for x b :: int
proof -
  assume x: "\<bar>x\<bar> < b"
  have "x div 2 ^ n \<le> \<bar>x\<bar>"
    by (cases "0 \<le> x") (auto intro: order.trans [OF zdiv_mono2 [of x 1]] order.trans [OF div_nonpos_pos_le0])
  moreover have "- \<bar>x\<bar> * 2 ^ n \<le> x"
    using mult_left_mono [of 1 "2 ^ n" "\<bar>x\<bar>"] by simp
  then have "- \<bar>x\<bar> \<le> x div 2 ^ n"
    using zdiv_mono1 [of "- \<bar>x\<bar> * 2 ^ n" x "2 ^ n"]
    by (metis nonzero_mult_div_cancel_right power_not_zero zero_less_numeral zero_less_power zero_neq_numeral)
  ultimately show ?thesis using x by linarith
qed

lemma signed_drop_bit_i64:
  assumes "\<bar>x\<bar> < 2 ^ 63"
  shows "signed_drop_bit n (word_of_int x :: i64) = word_of_int (x div 2 ^ n)"
proof (rule signed_word_eqI)
  show "sint (signed_drop_bit n (word_of_int x :: i64)) = sint (word_of_int (x div 2 ^ n) :: i64)"
    using assms abs_div_less [OF assms, of n] by (simp add: sint_signed_drop_bit_eq drop_bit_eq_div)
qed

lemma signed_drop_bit_i32:
  assumes "\<bar>x\<bar> < 2 ^ 31"
  shows "signed_drop_bit n (word_of_int x :: i32) = word_of_int (x div 2 ^ n)"
proof (rule signed_word_eqI)
  show "sint (signed_drop_bit n (word_of_int x :: i32)) = sint (word_of_int (x div 2 ^ n) :: i32)"
    using assms abs_div_less [OF assms, of n] by (simp add: sint_signed_drop_bit_eq drop_bit_eq_div)
qed

end
