(* ===== verification/Field_Arith.thy ===== *)
theory Field_Arith
  imports Signed_Words
begin

text \<open>
  Field arithmetic modulo \<open>2 ^ 255 - 19\<close>: the functions \<open>fe_*\<close> of \<open>src/crypto/crypto-ops.c\<close>. A field element is an
  array of ten \<open>int32_t\<close> limbs of alternately 26 and 25 bits. Products and carries are computed in \<open>int64_t\<close>, as in the
  code. The value of an element is the sum of its limbs at their bit positions.

  The lemmas show for every operation that no product, sum or carry leaves the range of its type under the bounds the
  code states, that the result is within the bounds it states, and that the value of the result is the sum,
  difference, product or square modulo \<open>2 ^ 255 - 19\<close>.
\<close>

section \<open>Elements\<close>

datatype 'a limbs = Limbs 'a 'a 'a 'a 'a 'a 'a 'a 'a 'a

type_synonym fe = "i32 limbs"

definition fe_0 :: fe where
  "fe_0 = Limbs 0 0 0 0 0 0 0 0 0 0"

definition fe_1 :: fe where
  "fe_1 = Limbs 1 0 0 0 0 0 0 0 0 0"

fun fe_add :: "fe \<Rightarrow> fe \<Rightarrow> fe" where
  "fe_add (Limbs f0 f1 f2 f3 f4 f5 f6 f7 f8 f9) (Limbs g0 g1 g2 g3 g4 g5 g6 g7 g8 g9) =
    Limbs (f0 + g0) (f1 + g1) (f2 + g2) (f3 + g3) (f4 + g4) (f5 + g5) (f6 + g6) (f7 + g7) (f8 + g8) (f9 + g9)"

fun fe_sub :: "fe \<Rightarrow> fe \<Rightarrow> fe" where
  "fe_sub (Limbs f0 f1 f2 f3 f4 f5 f6 f7 f8 f9) (Limbs g0 g1 g2 g3 g4 g5 g6 g7 g8 g9) =
    Limbs (f0 - g0) (f1 - g1) (f2 - g2) (f3 - g3) (f4 - g4) (f5 - g5) (f6 - g6) (f7 - g7) (f8 - g8) (f9 - g9)"

fun fe_neg :: "fe \<Rightarrow> fe" where
  "fe_neg (Limbs f0 f1 f2 f3 f4 f5 f6 f7 f8 f9) =
    Limbs (- f0) (- f1) (- f2) (- f3) (- f4) (- f5) (- f6) (- f7) (- f8) (- f9)"

definition fe_copy :: "fe \<Rightarrow> fe" where
  "fe_copy f = f"

text \<open>\<open>None\<close> is a failed assertion.\<close>

definition fe_cmov :: "fe \<Rightarrow> fe \<Rightarrow> u32 \<Rightarrow> fe option" where
  "fe_cmov f g b =
    (case f of Limbs f0 f1 f2 f3 f4 f5 f6 f7 f8 f9 \<Rightarrow> case g of Limbs g0 g1 g2 g3 g4 g5 g6 g7 g8 g9 \<Rightarrow>
     let x0 = f0 XOR g0; x1 = f1 XOR g1; x2 = f2 XOR g2; x3 = f3 XOR g3; x4 = f4 XOR g4;
         x5 = f5 XOR g5; x6 = f6 XOR g6; x7 = f7 XOR g7; x8 = f8 XOR g8; x9 = f9 XOR g9
     in if ((b - 1) AND NOT b) OR ((b - 2) AND NOT (b - 1)) \<noteq> - 1 then None
        else
          let b = - b;
              x0 = x0 AND b; x1 = x1 AND b; x2 = x2 AND b; x3 = x3 AND b; x4 = x4 AND b; x5 = x5 AND b; x6 = x6 AND b; x7 = x7 AND b; x8 = x8 AND b; x9 = x9 AND b
          in Some (Limbs (f0 XOR x0) (f1 XOR x1) (f2 XOR x2) (f3 XOR x3) (f4 XOR x4)
               (f5 XOR x5) (f6 XOR x6) (f7 XOR x7) (f8 XOR x8) (f9 XOR x9)))"

section \<open>Multiplication\<close>

text \<open>The ten sums of products of \<open>fe_mul\<close>, before the carries.\<close>

definition fe_mul_sums :: "fe \<Rightarrow> fe \<Rightarrow> i64 limbs" where
  "fe_mul_sums f g =
    (case f of Limbs f0 f1 f2 f3 f4 f5 f6 f7 f8 f9 \<Rightarrow> case g of Limbs g0 g1 g2 g3 g4 g5 g6 g7 g8 g9 \<Rightarrow> let
      g1_19 = 19 * g1; g2_19 = 19 * g2; g3_19 = 19 * g3; g4_19 = 19 * g4; g5_19 = 19 * g5; g6_19 = 19 * g6;
      g7_19 = 19 * g7; g8_19 = 19 * g8; g9_19 = 19 * g9; f1_2 = 2 * f1; f3_2 = 2 * f3; f5_2 = 2 * f5; f7_2 = 2 * f7;
      f9_2 = 2 * f9; f0g0 = to_i64 f0 * to_i64 g0; f0g1 = to_i64 f0 * to_i64 g1; f0g2 = to_i64 f0 * to_i64 g2;
      f0g3 = to_i64 f0 * to_i64 g3; f0g4 = to_i64 f0 * to_i64 g4; f0g5 = to_i64 f0 * to_i64 g5;
      f0g6 = to_i64 f0 * to_i64 g6; f0g7 = to_i64 f0 * to_i64 g7; f0g8 = to_i64 f0 * to_i64 g8;
      f0g9 = to_i64 f0 * to_i64 g9; f1g0 = to_i64 f1 * to_i64 g0; f1g1_2 = to_i64 f1_2 * to_i64 g1;
      f1g2 = to_i64 f1 * to_i64 g2; f1g3_2 = to_i64 f1_2 * to_i64 g3; f1g4 = to_i64 f1 * to_i64 g4;
      f1g5_2 = to_i64 f1_2 * to_i64 g5; f1g6 = to_i64 f1 * to_i64 g6; f1g7_2 = to_i64 f1_2 * to_i64 g7;
      f1g8 = to_i64 f1 * to_i64 g8; f1g9_38 = to_i64 f1_2 * to_i64 g9_19; f2g0 = to_i64 f2 * to_i64 g0;
      f2g1 = to_i64 f2 * to_i64 g1; f2g2 = to_i64 f2 * to_i64 g2; f2g3 = to_i64 f2 * to_i64 g3;
      f2g4 = to_i64 f2 * to_i64 g4; f2g5 = to_i64 f2 * to_i64 g5; f2g6 = to_i64 f2 * to_i64 g6;
      f2g7 = to_i64 f2 * to_i64 g7; f2g8_19 = to_i64 f2 * to_i64 g8_19; f2g9_19 = to_i64 f2 * to_i64 g9_19;
      f3g0 = to_i64 f3 * to_i64 g0; f3g1_2 = to_i64 f3_2 * to_i64 g1; f3g2 = to_i64 f3 * to_i64 g2;
      f3g3_2 = to_i64 f3_2 * to_i64 g3; f3g4 = to_i64 f3 * to_i64 g4; f3g5_2 = to_i64 f3_2 * to_i64 g5;
      f3g6 = to_i64 f3 * to_i64 g6; f3g7_38 = to_i64 f3_2 * to_i64 g7_19; f3g8_19 = to_i64 f3 * to_i64 g8_19;
      f3g9_38 = to_i64 f3_2 * to_i64 g9_19; f4g0 = to_i64 f4 * to_i64 g0; f4g1 = to_i64 f4 * to_i64 g1;
      f4g2 = to_i64 f4 * to_i64 g2; f4g3 = to_i64 f4 * to_i64 g3; f4g4 = to_i64 f4 * to_i64 g4;
      f4g5 = to_i64 f4 * to_i64 g5; f4g6_19 = to_i64 f4 * to_i64 g6_19; f4g7_19 = to_i64 f4 * to_i64 g7_19;
      f4g8_19 = to_i64 f4 * to_i64 g8_19; f4g9_19 = to_i64 f4 * to_i64 g9_19; f5g0 = to_i64 f5 * to_i64 g0;
      f5g1_2 = to_i64 f5_2 * to_i64 g1; f5g2 = to_i64 f5 * to_i64 g2; f5g3_2 = to_i64 f5_2 * to_i64 g3;
      f5g4 = to_i64 f5 * to_i64 g4; f5g5_38 = to_i64 f5_2 * to_i64 g5_19; f5g6_19 = to_i64 f5 * to_i64 g6_19;
      f5g7_38 = to_i64 f5_2 * to_i64 g7_19; f5g8_19 = to_i64 f5 * to_i64 g8_19; f5g9_38 = to_i64 f5_2 * to_i64 g9_19;
      f6g0 = to_i64 f6 * to_i64 g0; f6g1 = to_i64 f6 * to_i64 g1; f6g2 = to_i64 f6 * to_i64 g2;
      f6g3 = to_i64 f6 * to_i64 g3; f6g4_19 = to_i64 f6 * to_i64 g4_19; f6g5_19 = to_i64 f6 * to_i64 g5_19;
      f6g6_19 = to_i64 f6 * to_i64 g6_19; f6g7_19 = to_i64 f6 * to_i64 g7_19; f6g8_19 = to_i64 f6 * to_i64 g8_19;
      f6g9_19 = to_i64 f6 * to_i64 g9_19; f7g0 = to_i64 f7 * to_i64 g0; f7g1_2 = to_i64 f7_2 * to_i64 g1;
      f7g2 = to_i64 f7 * to_i64 g2; f7g3_38 = to_i64 f7_2 * to_i64 g3_19; f7g4_19 = to_i64 f7 * to_i64 g4_19;
      f7g5_38 = to_i64 f7_2 * to_i64 g5_19; f7g6_19 = to_i64 f7 * to_i64 g6_19; f7g7_38 = to_i64 f7_2 * to_i64 g7_19;
      f7g8_19 = to_i64 f7 * to_i64 g8_19; f7g9_38 = to_i64 f7_2 * to_i64 g9_19; f8g0 = to_i64 f8 * to_i64 g0;
      f8g1 = to_i64 f8 * to_i64 g1; f8g2_19 = to_i64 f8 * to_i64 g2_19; f8g3_19 = to_i64 f8 * to_i64 g3_19;
      f8g4_19 = to_i64 f8 * to_i64 g4_19; f8g5_19 = to_i64 f8 * to_i64 g5_19; f8g6_19 = to_i64 f8 * to_i64 g6_19;
      f8g7_19 = to_i64 f8 * to_i64 g7_19; f8g8_19 = to_i64 f8 * to_i64 g8_19; f8g9_19 = to_i64 f8 * to_i64 g9_19;
      f9g0 = to_i64 f9 * to_i64 g0; f9g1_38 = to_i64 f9_2 * to_i64 g1_19; f9g2_19 = to_i64 f9 * to_i64 g2_19;
      f9g3_38 = to_i64 f9_2 * to_i64 g3_19; f9g4_19 = to_i64 f9 * to_i64 g4_19; f9g5_38 = to_i64 f9_2 * to_i64 g5_19;
      f9g6_19 = to_i64 f9 * to_i64 g6_19; f9g7_38 = to_i64 f9_2 * to_i64 g7_19; f9g8_19 = to_i64 f9 * to_i64 g8_19;
      f9g9_38 = to_i64 f9_2 * to_i64 g9_19;
      h0 = f0g0 + f1g9_38 + f2g8_19 + f3g7_38 + f4g6_19 + f5g5_38 + f6g4_19 + f7g3_38 + f8g2_19 + f9g1_38;
      h1 = f0g1 + f1g0 + f2g9_19 + f3g8_19 + f4g7_19 + f5g6_19 + f6g5_19 + f7g4_19 + f8g3_19 + f9g2_19;
      h2 = f0g2 + f1g1_2 + f2g0 + f3g9_38 + f4g8_19 + f5g7_38 + f6g6_19 + f7g5_38 + f8g4_19 + f9g3_38;
      h3 = f0g3 + f1g2 + f2g1 + f3g0 + f4g9_19 + f5g8_19 + f6g7_19 + f7g6_19 + f8g5_19 + f9g4_19;
      h4 = f0g4 + f1g3_2 + f2g2 + f3g1_2 + f4g0 + f5g9_38 + f6g8_19 + f7g7_38 + f8g6_19 + f9g5_38;
      h5 = f0g5 + f1g4 + f2g3 + f3g2 + f4g1 + f5g0 + f6g9_19 + f7g8_19 + f8g7_19 + f9g6_19;
      h6 = f0g6 + f1g5_2 + f2g4 + f3g3_2 + f4g2 + f5g1_2 + f6g0 + f7g9_38 + f8g8_19 + f9g7_38;
      h7 = f0g7 + f1g6 + f2g5 + f3g4 + f4g3 + f5g2 + f6g1 + f7g0 + f8g9_19 + f9g8_19;
      h8 = f0g8 + f1g7_2 + f2g6 + f3g5_2 + f4g4 + f5g3_2 + f6g2 + f7g1_2 + f8g0 + f9g9_38;
      h9 = f0g9 + f1g8 + f2g7 + f3g6 + f4g5 + f5g4 + f6g3 + f7g2 + f8g1 + f9g0
     in Limbs h0 h1 h2 h3 h4 h5 h6 h7 h8 h9)"

text \<open>One line of the carry chain: \<open>carry = (h + (1 << (n - 1))) >> n; h' += carry; h -= carry << n;\<close>\<close>

definition carry :: "nat \<Rightarrow> i64 \<Rightarrow> i64 \<Rightarrow> i64 \<times> i64" where
  "carry n h h' = (let c = signed_drop_bit n (h + push_bit (n - 1) 1) in (h - push_bit n c, h' + c))"

text \<open>The line that brings the carry of the last limb back to the first one.\<close>

definition carry_wrap :: "i64 \<Rightarrow> i64 \<Rightarrow> i64 \<times> i64" where
  "carry_wrap h9 h0 = (let c = signed_drop_bit 25 (h9 + push_bit 24 1) in (h9 - push_bit 25 c, h0 + c * 19))"

text \<open>The carry chain that ends \<open>fe_mul\<close>, \<open>fe_sq\<close> and \<open>fe_sq2\<close>.\<close>

definition fe_carry :: "i64 limbs \<Rightarrow> fe" where
  "fe_carry h =
    (case h of Limbs h0 h1 h2 h3 h4 h5 h6 h7 h8 h9 \<Rightarrow>
     let (h0, h1) = carry 26 h0 h1; (h4, h5) = carry 26 h4 h5;
         (h1, h2) = carry 25 h1 h2; (h5, h6) = carry 25 h5 h6;
         (h2, h3) = carry 26 h2 h3; (h6, h7) = carry 26 h6 h7;
         (h3, h4) = carry 25 h3 h4; (h7, h8) = carry 25 h7 h8;
         (h4, h5) = carry 26 h4 h5; (h8, h9) = carry 26 h8 h9;
         (h9, h0) = carry_wrap h9 h0;
         (h0, h1) = carry 26 h0 h1
     in Limbs (to_i32 h0) (to_i32 h1) (to_i32 h2) (to_i32 h3) (to_i32 h4) (to_i32 h5) (to_i32 h6) (to_i32 h7) (to_i32 h8) (to_i32 h9))"

definition fe_mul :: "fe \<Rightarrow> fe \<Rightarrow> fe" where
  "fe_mul f g = fe_carry (fe_mul_sums f g)"

definition fe_sq_sums :: "fe \<Rightarrow> i64 limbs" where
  "fe_sq_sums f =
    (case f of Limbs f0 f1 f2 f3 f4 f5 f6 f7 f8 f9 \<Rightarrow> let
      f0_2 = 2 * f0; f1_2 = 2 * f1; f2_2 = 2 * f2; f3_2 = 2 * f3; f4_2 = 2 * f4; f5_2 = 2 * f5; f6_2 = 2 * f6;
      f7_2 = 2 * f7; f5_38 = 38 * f5; f6_19 = 19 * f6; f7_38 = 38 * f7; f8_19 = 19 * f8; f9_38 = 38 * f9;
      f0f0 = to_i64 f0 * to_i64 f0; f0f1_2 = to_i64 f0_2 * to_i64 f1; f0f2_2 = to_i64 f0_2 * to_i64 f2;
      f0f3_2 = to_i64 f0_2 * to_i64 f3; f0f4_2 = to_i64 f0_2 * to_i64 f4; f0f5_2 = to_i64 f0_2 * to_i64 f5;
      f0f6_2 = to_i64 f0_2 * to_i64 f6; f0f7_2 = to_i64 f0_2 * to_i64 f7; f0f8_2 = to_i64 f0_2 * to_i64 f8;
      f0f9_2 = to_i64 f0_2 * to_i64 f9; f1f1_2 = to_i64 f1_2 * to_i64 f1; f1f2_2 = to_i64 f1_2 * to_i64 f2;
      f1f3_4 = to_i64 f1_2 * to_i64 f3_2; f1f4_2 = to_i64 f1_2 * to_i64 f4; f1f5_4 = to_i64 f1_2 * to_i64 f5_2;
      f1f6_2 = to_i64 f1_2 * to_i64 f6; f1f7_4 = to_i64 f1_2 * to_i64 f7_2; f1f8_2 = to_i64 f1_2 * to_i64 f8;
      f1f9_76 = to_i64 f1_2 * to_i64 f9_38; f2f2 = to_i64 f2 * to_i64 f2; f2f3_2 = to_i64 f2_2 * to_i64 f3;
      f2f4_2 = to_i64 f2_2 * to_i64 f4; f2f5_2 = to_i64 f2_2 * to_i64 f5; f2f6_2 = to_i64 f2_2 * to_i64 f6;
      f2f7_2 = to_i64 f2_2 * to_i64 f7; f2f8_38 = to_i64 f2_2 * to_i64 f8_19; f2f9_38 = to_i64 f2 * to_i64 f9_38;
      f3f3_2 = to_i64 f3_2 * to_i64 f3; f3f4_2 = to_i64 f3_2 * to_i64 f4; f3f5_4 = to_i64 f3_2 * to_i64 f5_2;
      f3f6_2 = to_i64 f3_2 * to_i64 f6; f3f7_76 = to_i64 f3_2 * to_i64 f7_38; f3f8_38 = to_i64 f3_2 * to_i64 f8_19;
      f3f9_76 = to_i64 f3_2 * to_i64 f9_38; f4f4 = to_i64 f4 * to_i64 f4; f4f5_2 = to_i64 f4_2 * to_i64 f5;
      f4f6_38 = to_i64 f4_2 * to_i64 f6_19; f4f7_38 = to_i64 f4 * to_i64 f7_38; f4f8_38 = to_i64 f4_2 * to_i64 f8_19;
      f4f9_38 = to_i64 f4 * to_i64 f9_38; f5f5_38 = to_i64 f5 * to_i64 f5_38; f5f6_38 = to_i64 f5_2 * to_i64 f6_19;
      f5f7_76 = to_i64 f5_2 * to_i64 f7_38; f5f8_38 = to_i64 f5_2 * to_i64 f8_19;
      f5f9_76 = to_i64 f5_2 * to_i64 f9_38; f6f6_19 = to_i64 f6 * to_i64 f6_19; f6f7_38 = to_i64 f6 * to_i64 f7_38;
      f6f8_38 = to_i64 f6_2 * to_i64 f8_19; f6f9_38 = to_i64 f6 * to_i64 f9_38; f7f7_38 = to_i64 f7 * to_i64 f7_38;
      f7f8_38 = to_i64 f7_2 * to_i64 f8_19; f7f9_76 = to_i64 f7_2 * to_i64 f9_38; f8f8_19 = to_i64 f8 * to_i64 f8_19;
      f8f9_38 = to_i64 f8 * to_i64 f9_38; f9f9_38 = to_i64 f9 * to_i64 f9_38;
      h0 = f0f0 + f1f9_76 + f2f8_38 + f3f7_76 + f4f6_38 + f5f5_38;
      h1 = f0f1_2 + f2f9_38 + f3f8_38 + f4f7_38 + f5f6_38;
      h2 = f0f2_2 + f1f1_2 + f3f9_76 + f4f8_38 + f5f7_76 + f6f6_19;
      h3 = f0f3_2 + f1f2_2 + f4f9_38 + f5f8_38 + f6f7_38; h4 = f0f4_2 + f1f3_4 + f2f2 + f5f9_76 + f6f8_38 + f7f7_38;
      h5 = f0f5_2 + f1f4_2 + f2f3_2 + f6f9_38 + f7f8_38; h6 = f0f6_2 + f1f5_4 + f2f4_2 + f3f3_2 + f7f9_76 + f8f8_19;
      h7 = f0f7_2 + f1f6_2 + f2f5_2 + f3f4_2 + f8f9_38; h8 = f0f8_2 + f1f7_4 + f2f6_2 + f3f5_4 + f4f4 + f9f9_38;
      h9 = f0f9_2 + f1f8_2 + f2f7_2 + f3f6_2 + f4f5_2
     in Limbs h0 h1 h2 h3 h4 h5 h6 h7 h8 h9)"

definition fe_sq :: "fe \<Rightarrow> fe" where
  "fe_sq f = fe_carry (fe_sq_sums f)"

text \<open>The sums of \<open>fe_sq2\<close> are those of \<open>fe_sq\<close>, each doubled before the carries.\<close>

fun double_sums :: "i64 limbs \<Rightarrow> i64 limbs" where
  "double_sums (Limbs h0 h1 h2 h3 h4 h5 h6 h7 h8 h9) = Limbs (h0 + h0) (h1 + h1) (h2 + h2) (h3 + h3) (h4 + h4) (h5 + h5) (h6 + h6) (h7 + h7) (h8 + h8) (h9 + h9)"

definition fe_sq2 :: "fe \<Rightarrow> fe" where
  "fe_sq2 f = fe_carry (double_sums (fe_sq_sums f))"

section \<open>Values and bounds\<close>

definition p25519 :: int where
  "p25519 = 2 ^ 255 - 19"

fun limbs_val :: "int limbs \<Rightarrow> int" where
  "limbs_val (Limbs f0 f1 f2 f3 f4 f5 f6 f7 f8 f9) =
    f0 + f1 * 2 ^ 26 + f2 * 2 ^ 51 + f3 * 2 ^ 77 + f4 * 2 ^ 102 + f5 * 2 ^ 128 + f6 * 2 ^ 153 + f7 * 2 ^ 179 + f8 * 2 ^ 204 + f9 * 2 ^ 230"

definition fe_val :: "fe \<Rightarrow> int" where
  "fe_val f = limbs_val (map_limbs sint f)"

text \<open>A bound for the even and one for the odd limbs.\<close>

fun limbs_le :: "int \<Rightarrow> int \<Rightarrow> int limbs \<Rightarrow> bool" where
  "limbs_le a b (Limbs f0 f1 f2 f3 f4 f5 f6 f7 f8 f9) \<longleftrightarrow>
    \<bar>f0\<bar> \<le> a \<and> \<bar>f1\<bar> \<le> b \<and> \<bar>f2\<bar> \<le> a \<and> \<bar>f3\<bar> \<le> b \<and> \<bar>f4\<bar> \<le> a \<and> \<bar>f5\<bar> \<le> b \<and> \<bar>f6\<bar> \<le> a \<and> \<bar>f7\<bar> \<le> b \<and> \<bar>f8\<bar> \<le> a \<and> \<bar>f9\<bar> \<le> b"

text \<open>The bounds \<open>1.65 * 2 ^ 26\<close> and \<open>1.65 * 2 ^ 25\<close> that the multiplications require, \<open>1.01 * 2 ^ 25\<close> and
\<open>1.01 * 2 ^ 24\<close> that they ensure, and \<open>1.1 * 2 ^ 26\<close> and \<open>1.1 * 2 ^ 25\<close> that sums and differences ensure.\<close>

definition fe_mul_pre :: "fe \<Rightarrow> bool" where
  "fe_mul_pre f \<longleftrightarrow> limbs_le 110729625 55364812 (map_limbs sint f)"

definition fe_mul_post :: "fe \<Rightarrow> bool" where
  "fe_mul_post f \<longleftrightarrow> limbs_le 33889976 16944988 (map_limbs sint f)"

definition fe_sum_post :: "fe \<Rightarrow> bool" where
  "fe_sum_post f \<longleftrightarrow> limbs_le 73819750 36909875 (map_limbs sint f)"

section \<open>Carries over the integers\<close>

definition icarry :: "nat \<Rightarrow> int \<Rightarrow> int \<Rightarrow> int \<times> int" where
  "icarry n x y = (let c = (x + 2 ^ (n - 1)) div 2 ^ n in (x - c * 2 ^ n, y + c))"

lemma carry_of_int:
  assumes "\<bar>x\<bar> \<le> 9223370000000000000" and "n \<le> 32"
  shows "carry n (word_of_int x) (word_of_int y) = map_prod word_of_int word_of_int (icarry n x y)"
proof -
  have "(2 :: int) ^ (n - 1) \<le> 2 ^ 32" using assms(2) by (intro power_increasing) auto
  then have "(2 :: int) ^ (n - 1) \<le> 4294967296" by simp
  moreover have "(0 :: int) < 2 ^ (n - 1)" by simp
  ultimately have "\<bar>x + 2 ^ (n - 1)\<bar> < 9223372036854775808" using assms(1) by linarith
  then have "\<bar>x + 2 ^ (n - 1)\<bar> < 2 ^ 63" by simp
  moreover have "(word_of_int x :: i64) + push_bit (n - 1) 1 = word_of_int (x + 2 ^ (n - 1))"
    by (simp add: push_bit_eq_mult)
  ultimately have "signed_drop_bit n ((word_of_int x :: i64) + push_bit (n - 1) 1) = word_of_int ((x + 2 ^ (n - 1)) div 2 ^ n)"
    by (simp only: signed_drop_bit_i64)
  then show ?thesis by (simp add: carry_def icarry_def Let_def) (simp add: push_bit_eq_mult)
qed

lemma carry_wrap_of_int:
  assumes "\<bar>x\<bar> \<le> 9223370000000000000"
  shows "carry_wrap (word_of_int x) (word_of_int y) =
    (word_of_int (fst (icarry 25 x 0)), word_of_int (y + snd (icarry 25 x 0) * 19))"
proof -
  have "\<bar>x + 2 ^ 24\<bar> < 2 ^ 63" using assms by simp
  moreover have "(word_of_int x :: i64) + push_bit 24 1 = word_of_int (x + 2 ^ 24)"
    by (simp add: push_bit_eq_mult)
  ultimately have "signed_drop_bit 25 ((word_of_int x :: i64) + push_bit 24 1) = word_of_int ((x + 2 ^ 24) div 2 ^ 25)"
    by (simp only: signed_drop_bit_i64)
  then show ?thesis unfolding carry_wrap_def icarry_def Let_def by (simp only:) (simp add: push_bit_eq_mult)
qed

lemma carry_arith:
  fixes d h x c b m :: int
  assumes "d = 2 * h" "d * c \<le> x + h" "x + h < d * c + d" "- b \<le> x" "x \<le> b" "b + h < d * (m + 1)" "0 < d"
  shows "\<bar>c\<bar> \<le> m"
proof -
  obtain k l where kl: "k = d * c" "l = d * m" by simp
  have "k \<le> x + h" "x + h < k + d" "b + h < l + d"
    using assms(2,3,6) unfolding kl by (simp_all add: algebra_simps)
  with assms(1,4,5) have "k < l + d" "- l - d < k" by linarith+
  then have "d * c < d * (m + 1)" "d * (- m - 1) < d * c" unfolding kl by (simp_all add: algebra_simps)
  then show ?thesis using assms(7) by (simp add: mult_less_cancel_left_pos abs_le_iff)
qed

lemma icarry_props:
  assumes "icarry n x y = (x', y')" and "0 < n"
  shows "x' + 2 ^ n * y' = x + 2 ^ n * y" and "\<bar>x'\<bar> \<le> 2 ^ (n - 1)"
    and "\<bar>x\<bar> \<le> b \<Longrightarrow> b + 2 ^ (n - 1) < 2 ^ n * (m + 1) \<Longrightarrow> \<bar>y' - y\<bar> \<le> m"
proof -
  let ?h = "2 ^ (n - 1) :: int"
  let ?c = "(x + ?h) div 2 ^ n"
  have n: "2 ^ n = 2 * ?h" using assms(2) by (metis power_minus_mult mult.commute)
  have r: "2 ^ n * ?c \<le> x + ?h" "x + ?h < 2 ^ n * ?c + 2 ^ n"
    using pos_mod_sign [of "2 ^ n" "x + ?h"] pos_mod_bound [of "2 ^ n" "x + ?h"] mult_div_mod_eq [of "2 ^ n" "x + ?h"]
      zero_less_power [of "2 :: int" n] by linarith+
  have eq: "x' = x - ?c * 2 ^ n" "y' = y + ?c" using assms(1) by (auto simp: icarry_def Let_def)
  show "x' + 2 ^ n * y' = x + 2 ^ n * y" by (simp add: eq algebra_simps)
  show "\<bar>x'\<bar> \<le> ?h" using r unfolding eq n by (simp add: algebra_simps abs_le_iff)
  assume b: "\<bar>x\<bar> \<le> b" "b + ?h < 2 ^ n * (m + 1)"
  have "\<bar>?c\<bar> \<le> m"
    using r b n by (intro carry_arith [of "2 ^ n" ?h _ x b]) (simp_all add: abs_le_iff)
  then show "\<bar>y' - y\<bar> \<le> m" unfolding eq by simp
qed

section \<open>The carry chain\<close>

lemma carry_step:
  assumes "\<bar>x\<bar> \<le> b" and "\<bar>y\<bar> \<le> b'" and "0 < n" and "n \<le> 32" and "b \<le> 9223370000000000000"
    and "b + 2 ^ (n - 1) < 2 ^ n * (m + 1)"
  obtains x' y' where "carry n (word_of_int x) (word_of_int y) = (word_of_int x', word_of_int y')"
    "x' + 2 ^ n * y' = x + 2 ^ n * y" "\<bar>x'\<bar> \<le> 2 ^ (n - 1)" "\<bar>y'\<bar> \<le> b' + m"
proof (cases "icarry n x y")
  case (Pair x' y')
  note p = icarry_props [OF Pair assms(3)]
  have "\<bar>y'\<bar> \<le> b' + m" using p(3) [OF assms(1,6)] assms(2) by linarith
  with Pair p(1,2) carry_of_int [of x n y] assms(1,4,5) show ?thesis by (intro that) auto
qed

lemma carry_wrap_step:
  assumes "\<bar>x\<bar> \<le> b" and "\<bar>y\<bar> \<le> b'" and "b \<le> 9223370000000000000" and "b + 2 ^ 24 < 2 ^ 25 * (m + 1)"
  obtains x' y' c where "carry_wrap (word_of_int x) (word_of_int y) = (word_of_int x', word_of_int y')"
    "x' + 2 ^ 25 * c = x" "\<bar>x'\<bar> \<le> 2 ^ 24" "\<bar>y'\<bar> \<le> b' + m * 19" "y' = y + c * 19"
proof (cases "icarry 25 x 0")
  case (Pair x' c)
  note p = icarry_props [OF Pair]
  have "\<bar>c\<bar> \<le> m" using p(3) [OF _ assms(1)] assms(4) by simp
  then have "\<bar>y + c * 19\<bar> \<le> b' + m * 19" using assms(2) by linarith
  with Pair p(1,2) carry_wrap_of_int [of x y] assms(1,3) show ?thesis by (intro that [of x' "y + c * 19" c]) auto
qed

lemma fe_carry_correct:
  assumes "limbs_le 9000000000000000000 9000000000000000000 H"
  shows "\<exists>R. fe_carry (map_limbs word_of_int H) = map_limbs word_of_int R \<and> limbs_le 33889976 16944988 R \<and>
    p25519 dvd limbs_val R - limbs_val H"
proof -
  obtain h0 h1 h2 h3 h4 h5 h6 h7 h8 h9 where H: "H = Limbs h0 h1 h2 h3 h4 h5 h6 h7 h8 h9" by (cases H)
  have h: "\<bar>h0\<bar> \<le> 9000000000000000000" "\<bar>h1\<bar> \<le> 9000000000000000000" "\<bar>h2\<bar> \<le> 9000000000000000000" "\<bar>h3\<bar> \<le> 9000000000000000000" "\<bar>h4\<bar> \<le> 9000000000000000000" "\<bar>h5\<bar> \<le> 9000000000000000000" "\<bar>h6\<bar> \<le> 9000000000000000000" "\<bar>h7\<bar> \<le> 9000000000000000000" "\<bar>h8\<bar> \<le> 9000000000000000000" "\<bar>h9\<bar> \<le> 9000000000000000000"
    using assms by (simp_all add: H)
  from carry_step [OF h(1) h(2), of 26 134110450745] obtain x0 y1
    where s1: "carry 26 (word_of_int h0) (word_of_int h1) = (word_of_int x0, word_of_int y1)"
      "x0 + 2 ^ 26 * y1 = h0 + 2 ^ 26 * h1" "\<bar>x0\<bar> \<le> 33554432" "\<bar>y1\<bar> \<le> 9000000134110450745" by auto
  from carry_step [OF h(5) h(6), of 26 134110450745] obtain x4 y5
    where s2: "carry 26 (word_of_int h4) (word_of_int h5) = (word_of_int x4, word_of_int y5)"
      "x4 + 2 ^ 26 * y5 = h4 + 2 ^ 26 * h5" "\<bar>x4\<bar> \<le> 33554432" "\<bar>y5\<bar> \<le> 9000000134110450745" by auto
  from carry_step [OF s1(4) h(3), of 25 268220905486] obtain x1 y2
    where s3: "carry 25 (word_of_int y1) (word_of_int h2) = (word_of_int x1, word_of_int y2)"
      "x1 + 2 ^ 25 * y2 = y1 + 2 ^ 25 * h2" "\<bar>x1\<bar> \<le> 16777216" "\<bar>y2\<bar> \<le> 9000000268220905486" by auto
  from carry_step [OF s2(4) h(7), of 25 268220905486] obtain x5 y6
    where s4: "carry 25 (word_of_int y5) (word_of_int h6) = (word_of_int x5, word_of_int y6)"
      "x5 + 2 ^ 25 * y6 = y5 + 2 ^ 25 * h6" "\<bar>x5\<bar> \<le> 16777216" "\<bar>y6\<bar> \<le> 9000000268220905486" by auto
  from carry_step [OF s3(4) h(4), of 26 134110454741] obtain x2 y3
    where s5: "carry 26 (word_of_int y2) (word_of_int h3) = (word_of_int x2, word_of_int y3)"
      "x2 + 2 ^ 26 * y3 = y2 + 2 ^ 26 * h3" "\<bar>x2\<bar> \<le> 33554432" "\<bar>y3\<bar> \<le> 9000000134110454741" by auto
  from carry_step [OF s4(4) h(8), of 26 134110454741] obtain x6 y7
    where s6: "carry 26 (word_of_int y6) (word_of_int h7) = (word_of_int x6, word_of_int y7)"
      "x6 + 2 ^ 26 * y7 = y6 + 2 ^ 26 * h7" "\<bar>x6\<bar> \<le> 33554432" "\<bar>y7\<bar> \<le> 9000000134110454741" by auto
  from carry_step [OF s5(4) s2(3), of 25 268220905486] obtain x3 y4
    where s7: "carry 25 (word_of_int y3) (word_of_int x4) = (word_of_int x3, word_of_int y4)"
      "x3 + 2 ^ 25 * y4 = y3 + 2 ^ 25 * x4" "\<bar>x3\<bar> \<le> 16777216" "\<bar>y4\<bar> \<le> 268254459918" by auto
  from carry_step [OF s6(4) h(9), of 25 268220905486] obtain x7 y8
    where s8: "carry 25 (word_of_int y7) (word_of_int h8) = (word_of_int x7, word_of_int y8)"
      "x7 + 2 ^ 25 * y8 = y7 + 2 ^ 25 * h8" "\<bar>x7\<bar> \<le> 16777216" "\<bar>y8\<bar> \<le> 9000000268220905486" by auto
  from carry_step [OF s7(4) s4(3), of 26 3997] obtain z4 z5
    where s9: "carry 26 (word_of_int y4) (word_of_int x5) = (word_of_int z4, word_of_int z5)"
      "z4 + 2 ^ 26 * z5 = y4 + 2 ^ 26 * x5" "\<bar>z4\<bar> \<le> 33554432" "\<bar>z5\<bar> \<le> 16781213" by auto
  from carry_step [OF s8(4) h(10), of 26 134110454741] obtain x8 y9
    where s10: "carry 26 (word_of_int y8) (word_of_int h9) = (word_of_int x8, word_of_int y9)"
      "x8 + 2 ^ 26 * y9 = y8 + 2 ^ 26 * h9" "\<bar>x8\<bar> \<le> 33554432" "\<bar>y9\<bar> \<le> 9000000134110454741" by auto
  from carry_wrap_step [OF s10(4) s1(3), of 268220905486] obtain x9 z0 c9
    where s11: "carry_wrap (word_of_int y9) (word_of_int x0) = (word_of_int x9, word_of_int z0)"
      "x9 + 2 ^ 25 * c9 = y9" "\<bar>x9\<bar> \<le> 16777216" "\<bar>z0\<bar> \<le> 5096230758666" "z0 = x0 + c9 * 19" by auto
  from carry_step [OF s11(4) s3(3), of 26 75940] obtain w0 w1
    where s12: "carry 26 (word_of_int z0) (word_of_int x1) = (word_of_int w0, word_of_int w1)"
      "w0 + 2 ^ 26 * w1 = z0 + 2 ^ 26 * x1" "\<bar>w0\<bar> \<le> 33554432" "\<bar>w1\<bar> \<le> 16853156" by auto
  let ?R = "Limbs w0 w1 x2 x3 z4 z5 x6 x7 x8 x9"
  have "fe_carry (map_limbs word_of_int H) = map_limbs word_of_int ?R"
    by (simp add: fe_carry_def H s1(1) s2(1) s3(1) s4(1) s5(1) s6(1) s7(1) s8(1) s9(1) s10(1) s11(1) s12(1) to_i32_of_int)
  moreover have "limbs_le 33889976 16944988 ?R"
    using s12(3) s12(4) s5(3) s7(3) s9(3) s9(4) s6(3) s8(3) s10(3) s11(3) by simp
  moreover have "limbs_val ?R - limbs_val H = p25519 * (- c9)"
    using s1(2) s2(2) s3(2) s4(2) s5(2) s6(2) s7(2) s8(2) s9(2) s10(2) s11(2) s12(2) s11(5)
    by (simp add: H p25519_def)
  ultimately show ?thesis by (intro exI [of _ ?R]) simp
qed

section \<open>Products\<close>

text \<open>The product of two elements as polynomials, reduced by \<open>2 ^ 255 = 19\<close>.\<close>

definition mul_limbs :: "int limbs \<Rightarrow> int limbs \<Rightarrow> int limbs" where
  "mul_limbs f g = (case f of Limbs f0 f1 f2 f3 f4 f5 f6 f7 f8 f9 \<Rightarrow> case g of Limbs g0 g1 g2 g3 g4 g5 g6 g7 g8 g9 \<Rightarrow> Limbs
    ((f0 * g0) + 38 * (f1 * g9) + 19 * (f2 * g8) + 38 * (f3 * g7) + 19 * (f4 * g6) + 38 * (f5 * g5) + 19 * (f6 * g4) + 38 * (f7 * g3) + 19 * (f8 * g2) + 38 * (f9 * g1))
    ((f0 * g1) + (f1 * g0) + 19 * (f2 * g9) + 19 * (f3 * g8) + 19 * (f4 * g7) + 19 * (f5 * g6) + 19 * (f6 * g5) + 19 * (f7 * g4) + 19 * (f8 * g3) + 19 * (f9 * g2))
    ((f0 * g2) + 2 * (f1 * g1) + (f2 * g0) + 38 * (f3 * g9) + 19 * (f4 * g8) + 38 * (f5 * g7) + 19 * (f6 * g6) + 38 * (f7 * g5) + 19 * (f8 * g4) + 38 * (f9 * g3))
    ((f0 * g3) + (f1 * g2) + (f2 * g1) + (f3 * g0) + 19 * (f4 * g9) + 19 * (f5 * g8) + 19 * (f6 * g7) + 19 * (f7 * g6) + 19 * (f8 * g5) + 19 * (f9 * g4))
    ((f0 * g4) + 2 * (f1 * g3) + (f2 * g2) + 2 * (f3 * g1) + (f4 * g0) + 38 * (f5 * g9) + 19 * (f6 * g8) + 38 * (f7 * g7) + 19 * (f8 * g6) + 38 * (f9 * g5))
    ((f0 * g5) + (f1 * g4) + (f2 * g3) + (f3 * g2) + (f4 * g1) + (f5 * g0) + 19 * (f6 * g9) + 19 * (f7 * g8) + 19 * (f8 * g7) + 19 * (f9 * g6))
    ((f0 * g6) + 2 * (f1 * g5) + (f2 * g4) + 2 * (f3 * g3) + (f4 * g2) + 2 * (f5 * g1) + (f6 * g0) + 38 * (f7 * g9) + 19 * (f8 * g8) + 38 * (f9 * g7))
    ((f0 * g7) + (f1 * g6) + (f2 * g5) + (f3 * g4) + (f4 * g3) + (f5 * g2) + (f6 * g1) + (f7 * g0) + 19 * (f8 * g9) + 19 * (f9 * g8))
    ((f0 * g8) + 2 * (f1 * g7) + (f2 * g6) + 2 * (f3 * g5) + (f4 * g4) + 2 * (f5 * g3) + (f6 * g2) + 2 * (f7 * g1) + (f8 * g0) + 38 * (f9 * g9))
    ((f0 * g9) + (f1 * g8) + (f2 * g7) + (f3 * g6) + (f4 * g5) + (f5 * g4) + (f6 * g3) + (f7 * g2) + (f8 * g1) + (f9 * g0)))"

lemma mul_limbs_val: "p25519 dvd limbs_val (mul_limbs F G) - limbs_val F * limbs_val G"
proof -
  obtain f0 f1 f2 f3 f4 f5 f6 f7 f8 f9 where F: "F = Limbs f0 f1 f2 f3 f4 f5 f6 f7 f8 f9" by (cases F)
  obtain g0 g1 g2 g3 g4 g5 g6 g7 g8 g9 where G: "G = Limbs g0 g1 g2 g3 g4 g5 g6 g7 g8 g9" by (cases G)
  have r0: "1 * limbs_val G = 1 * g0 + 67108864 * g1 + 2251799813685248 * g2 + 151115727451828646838272 * g3 + 5070602400912917605986812821504 * g4 + 340282366920938463463374607431768211456 * g5 + 11417981541647679048466287755595961091061972992 * g6 + 766247770432944429179173513575154591809369561091801088 * g7 + 25711008708143844408671393477458601640355247900524685364822016 * g8 + 1725436586697640946858688965569256363112777243042596638790631055949824 * g9 + p25519 * (0)"
    by (simp add: G p25519_def)
  have r1: "67108864 * limbs_val G = 67108864 * g0 + 4503599627370496 * g1 + 151115727451828646838272 * g2 + 10141204801825835211973625643008 * g3 + 340282366920938463463374607431768211456 * g4 + 22835963083295358096932575511191922182123945984 * g5 + 766247770432944429179173513575154591809369561091801088 * g6 + 51422017416287688817342786954917203280710495801049370729644032 * g7 + 1725436586697640946858688965569256363112777243042596638790631055949824 * g8 + 38 * g9 + p25519 * (2 * g9)"
    by (simp add: G p25519_def)
  have r2: "2251799813685248 * limbs_val G = 2251799813685248 * g0 + 151115727451828646838272 * g1 + 5070602400912917605986812821504 * g2 + 340282366920938463463374607431768211456 * g3 + 11417981541647679048466287755595961091061972992 * g4 + 766247770432944429179173513575154591809369561091801088 * g5 + 25711008708143844408671393477458601640355247900524685364822016 * g6 + 1725436586697640946858688965569256363112777243042596638790631055949824 * g7 + 19 * g8 + 1275068416 * g9 + p25519 * (1 * g8 + 67108864 * g9)"
    by (simp add: G p25519_def)
  have r3: "151115727451828646838272 * limbs_val G = 151115727451828646838272 * g0 + 10141204801825835211973625643008 * g1 + 340282366920938463463374607431768211456 * g2 + 22835963083295358096932575511191922182123945984 * g3 + 766247770432944429179173513575154591809369561091801088 * g4 + 51422017416287688817342786954917203280710495801049370729644032 * g5 + 1725436586697640946858688965569256363112777243042596638790631055949824 * g6 + 38 * g7 + 1275068416 * g8 + 85568392920039424 * g9 + p25519 * (2 * g7 + 67108864 * g8 + 4503599627370496 * g9)"
    by (simp add: G p25519_def)
  have r4: "5070602400912917605986812821504 * limbs_val G = 5070602400912917605986812821504 * g0 + 340282366920938463463374607431768211456 * g1 + 11417981541647679048466287755595961091061972992 * g2 + 766247770432944429179173513575154591809369561091801088 * g3 + 25711008708143844408671393477458601640355247900524685364822016 * g4 + 1725436586697640946858688965569256363112777243042596638790631055949824 * g5 + 19 * g6 + 1275068416 * g7 + 42784196460019712 * g8 + 2871198821584744289927168 * g9 + p25519 * (1 * g6 + 67108864 * g7 + 2251799813685248 * g8 + 151115727451828646838272 * g9)"
    by (simp add: G p25519_def)
  have r5: "340282366920938463463374607431768211456 * limbs_val G = 340282366920938463463374607431768211456 * g0 + 22835963083295358096932575511191922182123945984 * g1 + 766247770432944429179173513575154591809369561091801088 * g2 + 51422017416287688817342786954917203280710495801049370729644032 * g3 + 1725436586697640946858688965569256363112777243042596638790631055949824 * g4 + 38 * g5 + 1275068416 * g6 + 85568392920039424 * g7 + 2871198821584744289927168 * g8 + 192682891234690869027498887217152 * g9 + p25519 * (2 * g5 + 67108864 * g6 + 4503599627370496 * g7 + 151115727451828646838272 * g8 + 10141204801825835211973625643008 * g9)"
    by (simp add: G p25519_def)
  have r6: "11417981541647679048466287755595961091061972992 * limbs_val G = 11417981541647679048466287755595961091061972992 * g0 + 766247770432944429179173513575154591809369561091801088 * g1 + 25711008708143844408671393477458601640355247900524685364822016 * g2 + 1725436586697640946858688965569256363112777243042596638790631055949824 * g3 + 19 * g4 + 1275068416 * g5 + 42784196460019712 * g6 + 2871198821584744289927168 * g7 + 96341445617345434513749443608576 * g8 + 6465364971497830805804117541203596017664 * g9 + p25519 * (1 * g4 + 67108864 * g5 + 2251799813685248 * g6 + 151115727451828646838272 * g7 + 5070602400912917605986812821504 * g8 + 340282366920938463463374607431768211456 * g9)"
    by (simp add: G p25519_def)
  have r7: "766247770432944429179173513575154591809369561091801088 * limbs_val G = 766247770432944429179173513575154591809369561091801088 * g0 + 51422017416287688817342786954917203280710495801049370729644032 * g1 + 1725436586697640946858688965569256363112777243042596638790631055949824 * g2 + 38 * g3 + 1275068416 * g4 + 85568392920039424 * g5 + 2871198821584744289927168 * g6 + 192682891234690869027498887217152 * g7 + 6465364971497830805804117541203596017664 * g8 + 433883298582611803841718934712646521460354973696 * g9 + p25519 * (2 * g3 + 67108864 * g4 + 4503599627370496 * g5 + 151115727451828646838272 * g6 + 10141204801825835211973625643008 * g7 + 340282366920938463463374607431768211456 * g8 + 22835963083295358096932575511191922182123945984 * g9)"
    by (simp add: G p25519_def)
  have r8: "25711008708143844408671393477458601640355247900524685364822016 * limbs_val G = 25711008708143844408671393477458601640355247900524685364822016 * g0 + 1725436586697640946858688965569256363112777243042596638790631055949824 * g1 + 19 * g2 + 1275068416 * g3 + 42784196460019712 * g4 + 2871198821584744289927168 * g5 + 96341445617345434513749443608576 * g6 + 6465364971497830805804117541203596017664 * g7 + 216941649291305901920859467356323260730177486848 * g8 + 14558707638225944154404296757927937244378021660744220672 * g9 + p25519 * (1 * g2 + 67108864 * g3 + 2251799813685248 * g4 + 151115727451828646838272 * g5 + 5070602400912917605986812821504 * g6 + 340282366920938463463374607431768211456 * g7 + 11417981541647679048466287755595961091061972992 * g8 + 766247770432944429179173513575154591809369561091801088 * g9)"
    by (simp add: G p25519_def)
  have r9: "1725436586697640946858688965569256363112777243042596638790631055949824 * limbs_val G = 1725436586697640946858688965569256363112777243042596638790631055949824 * g0 + 38 * g1 + 1275068416 * g2 + 85568392920039424 * g3 + 2871198821584744289927168 * g4 + 192682891234690869027498887217152 * g5 + 6465364971497830805804117541203596017664 * g6 + 433883298582611803841718934712646521460354973696 * g7 + 14558707638225944154404296757927937244378021660744220672 * g8 + 977018330909466087529512952143426862333499420219938043863236608 * g9 + p25519 * (2 * g1 + 67108864 * g2 + 4503599627370496 * g3 + 151115727451828646838272 * g4 + 10141204801825835211973625643008 * g5 + 340282366920938463463374607431768211456 * g6 + 22835963083295358096932575511191922182123945984 * g7 + 766247770432944429179173513575154591809369561091801088 * g8 + 51422017416287688817342786954917203280710495801049370729644032 * g9)"
    by (simp add: G p25519_def)
  have "limbs_val F * limbs_val G = f0 * (1 * limbs_val G) + f1 * (67108864 * limbs_val G) + f2 * (2251799813685248 * limbs_val G) + f3 * (151115727451828646838272 * limbs_val G) + f4 * (5070602400912917605986812821504 * limbs_val G) + f5 * (340282366920938463463374607431768211456 * limbs_val G) + f6 * (11417981541647679048466287755595961091061972992 * limbs_val G) + f7 * (766247770432944429179173513575154591809369561091801088 * limbs_val G) + f8 * (25711008708143844408671393477458601640355247900524685364822016 * limbs_val G) + f9 * (1725436586697640946858688965569256363112777243042596638790631055949824 * limbs_val G)"
    by (simp add: F algebra_simps)
  also have "\<dots> = f0 * (1 * g0 + 67108864 * g1 + 2251799813685248 * g2 + 151115727451828646838272 * g3 + 5070602400912917605986812821504 * g4 + 340282366920938463463374607431768211456 * g5 + 11417981541647679048466287755595961091061972992 * g6 + 766247770432944429179173513575154591809369561091801088 * g7 + 25711008708143844408671393477458601640355247900524685364822016 * g8 + 1725436586697640946858688965569256363112777243042596638790631055949824 * g9) + f1 * (67108864 * g0 + 4503599627370496 * g1 + 151115727451828646838272 * g2 + 10141204801825835211973625643008 * g3 + 340282366920938463463374607431768211456 * g4 + 22835963083295358096932575511191922182123945984 * g5 + 766247770432944429179173513575154591809369561091801088 * g6 + 51422017416287688817342786954917203280710495801049370729644032 * g7 + 1725436586697640946858688965569256363112777243042596638790631055949824 * g8 + 38 * g9) + f2 * (2251799813685248 * g0 + 151115727451828646838272 * g1 + 5070602400912917605986812821504 * g2 + 340282366920938463463374607431768211456 * g3 + 11417981541647679048466287755595961091061972992 * g4 + 766247770432944429179173513575154591809369561091801088 * g5 + 25711008708143844408671393477458601640355247900524685364822016 * g6 + 1725436586697640946858688965569256363112777243042596638790631055949824 * g7 + 19 * g8 + 1275068416 * g9) + f3 * (151115727451828646838272 * g0 + 10141204801825835211973625643008 * g1 + 340282366920938463463374607431768211456 * g2 + 22835963083295358096932575511191922182123945984 * g3 + 766247770432944429179173513575154591809369561091801088 * g4 + 51422017416287688817342786954917203280710495801049370729644032 * g5 + 1725436586697640946858688965569256363112777243042596638790631055949824 * g6 + 38 * g7 + 1275068416 * g8 + 85568392920039424 * g9) + f4 * (5070602400912917605986812821504 * g0 + 340282366920938463463374607431768211456 * g1 + 11417981541647679048466287755595961091061972992 * g2 + 766247770432944429179173513575154591809369561091801088 * g3 + 25711008708143844408671393477458601640355247900524685364822016 * g4 + 1725436586697640946858688965569256363112777243042596638790631055949824 * g5 + 19 * g6 + 1275068416 * g7 + 42784196460019712 * g8 + 2871198821584744289927168 * g9) + f5 * (340282366920938463463374607431768211456 * g0 + 22835963083295358096932575511191922182123945984 * g1 + 766247770432944429179173513575154591809369561091801088 * g2 + 51422017416287688817342786954917203280710495801049370729644032 * g3 + 1725436586697640946858688965569256363112777243042596638790631055949824 * g4 + 38 * g5 + 1275068416 * g6 + 85568392920039424 * g7 + 2871198821584744289927168 * g8 + 192682891234690869027498887217152 * g9) + f6 * (11417981541647679048466287755595961091061972992 * g0 + 766247770432944429179173513575154591809369561091801088 * g1 + 25711008708143844408671393477458601640355247900524685364822016 * g2 + 1725436586697640946858688965569256363112777243042596638790631055949824 * g3 + 19 * g4 + 1275068416 * g5 + 42784196460019712 * g6 + 2871198821584744289927168 * g7 + 96341445617345434513749443608576 * g8 + 6465364971497830805804117541203596017664 * g9) + f7 * (766247770432944429179173513575154591809369561091801088 * g0 + 51422017416287688817342786954917203280710495801049370729644032 * g1 + 1725436586697640946858688965569256363112777243042596638790631055949824 * g2 + 38 * g3 + 1275068416 * g4 + 85568392920039424 * g5 + 2871198821584744289927168 * g6 + 192682891234690869027498887217152 * g7 + 6465364971497830805804117541203596017664 * g8 + 433883298582611803841718934712646521460354973696 * g9) + f8 * (25711008708143844408671393477458601640355247900524685364822016 * g0 + 1725436586697640946858688965569256363112777243042596638790631055949824 * g1 + 19 * g2 + 1275068416 * g3 + 42784196460019712 * g4 + 2871198821584744289927168 * g5 + 96341445617345434513749443608576 * g6 + 6465364971497830805804117541203596017664 * g7 + 216941649291305901920859467356323260730177486848 * g8 + 14558707638225944154404296757927937244378021660744220672 * g9) + f9 * (1725436586697640946858688965569256363112777243042596638790631055949824 * g0 + 38 * g1 + 1275068416 * g2 + 85568392920039424 * g3 + 2871198821584744289927168 * g4 + 192682891234690869027498887217152 * g5 + 6465364971497830805804117541203596017664 * g6 + 433883298582611803841718934712646521460354973696 * g7 + 14558707638225944154404296757927937244378021660744220672 * g8 + 977018330909466087529512952143426862333499420219938043863236608 * g9) + p25519 * (f0 * (0) + f1 * (2 * g9) + f2 * (1 * g8 + 67108864 * g9) + f3 * (2 * g7 + 67108864 * g8 + 4503599627370496 * g9) + f4 * (1 * g6 + 67108864 * g7 + 2251799813685248 * g8 + 151115727451828646838272 * g9) + f5 * (2 * g5 + 67108864 * g6 + 4503599627370496 * g7 + 151115727451828646838272 * g8 + 10141204801825835211973625643008 * g9) + f6 * (1 * g4 + 67108864 * g5 + 2251799813685248 * g6 + 151115727451828646838272 * g7 + 5070602400912917605986812821504 * g8 + 340282366920938463463374607431768211456 * g9) + f7 * (2 * g3 + 67108864 * g4 + 4503599627370496 * g5 + 151115727451828646838272 * g6 + 10141204801825835211973625643008 * g7 + 340282366920938463463374607431768211456 * g8 + 22835963083295358096932575511191922182123945984 * g9) + f8 * (1 * g2 + 67108864 * g3 + 2251799813685248 * g4 + 151115727451828646838272 * g5 + 5070602400912917605986812821504 * g6 + 340282366920938463463374607431768211456 * g7 + 11417981541647679048466287755595961091061972992 * g8 + 766247770432944429179173513575154591809369561091801088 * g9) + f9 * (2 * g1 + 67108864 * g2 + 4503599627370496 * g3 + 151115727451828646838272 * g4 + 10141204801825835211973625643008 * g5 + 340282366920938463463374607431768211456 * g6 + 22835963083295358096932575511191922182123945984 * g7 + 766247770432944429179173513575154591809369561091801088 * g8 + 51422017416287688817342786954917203280710495801049370729644032 * g9))"
    unfolding r0 r1 r2 r3 r4 r5 r6 r7 r8 r9 distrib_left mult.left_commute [of _ p25519] by (simp only: ac_simps)
  also have "f0 * (1 * g0 + 67108864 * g1 + 2251799813685248 * g2 + 151115727451828646838272 * g3 + 5070602400912917605986812821504 * g4 + 340282366920938463463374607431768211456 * g5 + 11417981541647679048466287755595961091061972992 * g6 + 766247770432944429179173513575154591809369561091801088 * g7 + 25711008708143844408671393477458601640355247900524685364822016 * g8 + 1725436586697640946858688965569256363112777243042596638790631055949824 * g9) + f1 * (67108864 * g0 + 4503599627370496 * g1 + 151115727451828646838272 * g2 + 10141204801825835211973625643008 * g3 + 340282366920938463463374607431768211456 * g4 + 22835963083295358096932575511191922182123945984 * g5 + 766247770432944429179173513575154591809369561091801088 * g6 + 51422017416287688817342786954917203280710495801049370729644032 * g7 + 1725436586697640946858688965569256363112777243042596638790631055949824 * g8 + 38 * g9) + f2 * (2251799813685248 * g0 + 151115727451828646838272 * g1 + 5070602400912917605986812821504 * g2 + 340282366920938463463374607431768211456 * g3 + 11417981541647679048466287755595961091061972992 * g4 + 766247770432944429179173513575154591809369561091801088 * g5 + 25711008708143844408671393477458601640355247900524685364822016 * g6 + 1725436586697640946858688965569256363112777243042596638790631055949824 * g7 + 19 * g8 + 1275068416 * g9) + f3 * (151115727451828646838272 * g0 + 10141204801825835211973625643008 * g1 + 340282366920938463463374607431768211456 * g2 + 22835963083295358096932575511191922182123945984 * g3 + 766247770432944429179173513575154591809369561091801088 * g4 + 51422017416287688817342786954917203280710495801049370729644032 * g5 + 1725436586697640946858688965569256363112777243042596638790631055949824 * g6 + 38 * g7 + 1275068416 * g8 + 85568392920039424 * g9) + f4 * (5070602400912917605986812821504 * g0 + 340282366920938463463374607431768211456 * g1 + 11417981541647679048466287755595961091061972992 * g2 + 766247770432944429179173513575154591809369561091801088 * g3 + 25711008708143844408671393477458601640355247900524685364822016 * g4 + 1725436586697640946858688965569256363112777243042596638790631055949824 * g5 + 19 * g6 + 1275068416 * g7 + 42784196460019712 * g8 + 2871198821584744289927168 * g9) + f5 * (340282366920938463463374607431768211456 * g0 + 22835963083295358096932575511191922182123945984 * g1 + 766247770432944429179173513575154591809369561091801088 * g2 + 51422017416287688817342786954917203280710495801049370729644032 * g3 + 1725436586697640946858688965569256363112777243042596638790631055949824 * g4 + 38 * g5 + 1275068416 * g6 + 85568392920039424 * g7 + 2871198821584744289927168 * g8 + 192682891234690869027498887217152 * g9) + f6 * (11417981541647679048466287755595961091061972992 * g0 + 766247770432944429179173513575154591809369561091801088 * g1 + 25711008708143844408671393477458601640355247900524685364822016 * g2 + 1725436586697640946858688965569256363112777243042596638790631055949824 * g3 + 19 * g4 + 1275068416 * g5 + 42784196460019712 * g6 + 2871198821584744289927168 * g7 + 96341445617345434513749443608576 * g8 + 6465364971497830805804117541203596017664 * g9) + f7 * (766247770432944429179173513575154591809369561091801088 * g0 + 51422017416287688817342786954917203280710495801049370729644032 * g1 + 1725436586697640946858688965569256363112777243042596638790631055949824 * g2 + 38 * g3 + 1275068416 * g4 + 85568392920039424 * g5 + 2871198821584744289927168 * g6 + 192682891234690869027498887217152 * g7 + 6465364971497830805804117541203596017664 * g8 + 433883298582611803841718934712646521460354973696 * g9) + f8 * (25711008708143844408671393477458601640355247900524685364822016 * g0 + 1725436586697640946858688965569256363112777243042596638790631055949824 * g1 + 19 * g2 + 1275068416 * g3 + 42784196460019712 * g4 + 2871198821584744289927168 * g5 + 96341445617345434513749443608576 * g6 + 6465364971497830805804117541203596017664 * g7 + 216941649291305901920859467356323260730177486848 * g8 + 14558707638225944154404296757927937244378021660744220672 * g9) + f9 * (1725436586697640946858688965569256363112777243042596638790631055949824 * g0 + 38 * g1 + 1275068416 * g2 + 85568392920039424 * g3 + 2871198821584744289927168 * g4 + 192682891234690869027498887217152 * g5 + 6465364971497830805804117541203596017664 * g6 + 433883298582611803841718934712646521460354973696 * g7 + 14558707638225944154404296757927937244378021660744220672 * g8 + 977018330909466087529512952143426862333499420219938043863236608 * g9) = limbs_val (mul_limbs F G)"
    by (simp add: F G mul_limbs_def distrib_left distrib_right ac_simps)
  finally show ?thesis by simp
qed

lemma abs_prod_le: "\<bar>x\<bar> \<le> a \<Longrightarrow> \<bar>y\<bar> \<le> b \<Longrightarrow> \<bar>x * y\<bar> \<le> a * b" for x y a b :: int
  by (simp add: abs_mult mult_mono)

lemma abs_sum_le: "\<bar>x\<bar> \<le> a \<Longrightarrow> \<bar>y\<bar> \<le> b \<Longrightarrow> \<bar>x + y\<bar> \<le> a + b" for x y a b :: int
  by linarith

lemma abs_numeral_le: "\<bar>x\<bar> \<le> a \<Longrightarrow> \<bar>numeral k * x\<bar> \<le> numeral k * a" for x a :: int
  by (simp add: abs_mult)

lemmas abs_bounds = abs_sum_le abs_numeral_le abs_prod_le

lemma mul_limbs_le:
  assumes "limbs_le 110729625 55364812 F" and "limbs_le 110729625 55364812 G"
  shows "limbs_le 4300000000000000000 4300000000000000000 (mul_limbs F G)"
proof -
  obtain f0 f1 f2 f3 f4 f5 f6 f7 f8 f9 where F: "F = Limbs f0 f1 f2 f3 f4 f5 f6 f7 f8 f9" by (cases F)
  obtain g0 g1 g2 g3 g4 g5 g6 g7 g8 g9 where G: "G = Limbs g0 g1 g2 g3 g4 g5 g6 g7 g8 g9" by (cases G)
  have f: "\<bar>f0\<bar> \<le> 110729625" "\<bar>f1\<bar> \<le> 55364812" "\<bar>f2\<bar> \<le> 110729625" "\<bar>f3\<bar> \<le> 55364812" "\<bar>f4\<bar> \<le> 110729625" "\<bar>f5\<bar> \<le> 55364812" "\<bar>f6\<bar> \<le> 110729625" "\<bar>f7\<bar> \<le> 55364812" "\<bar>f8\<bar> \<le> 110729625" "\<bar>f9\<bar> \<le> 55364812"
    using assms by (simp_all add: F)
  have g: "\<bar>g0\<bar> \<le> 110729625" "\<bar>g1\<bar> \<le> 55364812" "\<bar>g2\<bar> \<le> 110729625" "\<bar>g3\<bar> \<le> 55364812" "\<bar>g4\<bar> \<le> 110729625" "\<bar>g5\<bar> \<le> 55364812" "\<bar>g6\<bar> \<le> 110729625" "\<bar>g7\<bar> \<le> 55364812" "\<bar>g8\<bar> \<le> 110729625" "\<bar>g9\<bar> \<le> 55364812"
    using assms by (simp_all add: G)
  show ?thesis
    unfolding F G mul_limbs_def limbs.case limbs_le.simps
    by (intro conjI; (rule order.trans, (rule abs_sum_le | rule abs_numeral_le | rule abs_prod_le | rule f | rule g)+, simp))
qed

lemma sint_numeral_times:
  assumes "\<bar>numeral k * sint x\<bar> < 2 ^ 31"
  shows "sint (numeral k * x :: i32) = numeral k * sint x"
proof -
  have "numeral k * x = word_of_int (numeral k * sint x)" by simp
  with assms show ?thesis by (simp only: sint_i32)
qed

lemma to_i64_19: "\<bar>sint x\<bar> \<le> 110729625 \<Longrightarrow> to_i64 (19 * x) = 19 * to_i64 x"
  and to_i64_2: "\<bar>sint x\<bar> \<le> 110729625 \<Longrightarrow> to_i64 (2 * x) = 2 * to_i64 x"
  and to_i64_38: "\<bar>sint x\<bar> \<le> 55364812 \<Longrightarrow> to_i64 (38 * x) = 38 * to_i64 x"
  by (simp_all add: to_i64_eq sint_numeral_times abs_mult)

lemma limb_products:
  "2 * to_i64 x * a = 2 * (to_i64 x * a)" "to_i64 x * (2 * a) = 2 * (to_i64 x * a)" "to_i64 x * (19 * a) = 19 * (to_i64 x * a)"
  "to_i64 x * (38 * a) = 38 * (to_i64 x * a)" "2 * (2 * a) = 4 * a" "2 * (19 * a) = 38 * a" "2 * (38 * a) = 76 * a"
  "19 * (2 * a) = 38 * a" "38 * (2 * a) = 76 * a"
  by (simp_all add: algebra_simps)

lemma fe_mul_sums_eq:
  assumes "fe_mul_pre f" and "fe_mul_pre g"
  shows "fe_mul_sums f g = map_limbs word_of_int (mul_limbs (map_limbs sint f) (map_limbs sint g))"
proof -
  obtain f0 f1 f2 f3 f4 f5 f6 f7 f8 f9 where F: "f = Limbs f0 f1 f2 f3 f4 f5 f6 f7 f8 f9" by (cases f)
  obtain g0 g1 g2 g3 g4 g5 g6 g7 g8 g9 where G: "g = Limbs g0 g1 g2 g3 g4 g5 g6 g7 g8 g9" by (cases g)
  have "\<bar>sint f1\<bar> \<le> 110729625" "\<bar>sint f3\<bar> \<le> 110729625" "\<bar>sint f5\<bar> \<le> 110729625" "\<bar>sint f7\<bar> \<le> 110729625" "\<bar>sint f9\<bar> \<le> 110729625"
    "\<bar>sint g1\<bar> \<le> 110729625" "\<bar>sint g2\<bar> \<le> 110729625" "\<bar>sint g3\<bar> \<le> 110729625" "\<bar>sint g4\<bar> \<le> 110729625" "\<bar>sint g5\<bar> \<le> 110729625" "\<bar>sint g6\<bar> \<le> 110729625" "\<bar>sint g7\<bar> \<le> 110729625" "\<bar>sint g8\<bar> \<le> 110729625" "\<bar>sint g9\<bar> \<le> 110729625"
    using assms by (simp_all add: F G fe_mul_pre_def)
  note b = this
  show ?thesis
    unfolding F G fe_mul_sums_def mul_limbs_def limbs.case limbs.map Let_def of_int_add of_int_mult of_int_numeral
      to_i64_eq [symmetric] b [THEN to_i64_19] b [THEN to_i64_2] limb_products
    by (rule refl)
qed

lemma mul_limbs_square:
  "mul_limbs (Limbs f0 f1 f2 f3 f4 f5 f6 f7 f8 f9) (Limbs f0 f1 f2 f3 f4 f5 f6 f7 f8 f9) = Limbs
    ((f0 * f0) + 76 * (f1 * f9) + 38 * (f2 * f8) + 76 * (f3 * f7) + 38 * (f4 * f6) + 38 * (f5 * f5))
    (2 * (f0 * f1) + 38 * (f2 * f9) + 38 * (f3 * f8) + 38 * (f4 * f7) + 38 * (f5 * f6))
    (2 * (f0 * f2) + 2 * (f1 * f1) + 76 * (f3 * f9) + 38 * (f4 * f8) + 76 * (f5 * f7) + 19 * (f6 * f6))
    (2 * (f0 * f3) + 2 * (f1 * f2) + 38 * (f4 * f9) + 38 * (f5 * f8) + 38 * (f6 * f7))
    (2 * (f0 * f4) + 4 * (f1 * f3) + (f2 * f2) + 76 * (f5 * f9) + 38 * (f6 * f8) + 38 * (f7 * f7))
    (2 * (f0 * f5) + 2 * (f1 * f4) + 2 * (f2 * f3) + 38 * (f6 * f9) + 38 * (f7 * f8))
    (2 * (f0 * f6) + 4 * (f1 * f5) + 2 * (f2 * f4) + 2 * (f3 * f3) + 76 * (f7 * f9) + 19 * (f8 * f8))
    (2 * (f0 * f7) + 2 * (f1 * f6) + 2 * (f2 * f5) + 2 * (f3 * f4) + 38 * (f8 * f9))
    (2 * (f0 * f8) + 4 * (f1 * f7) + 2 * (f2 * f6) + 4 * (f3 * f5) + (f4 * f4) + 38 * (f9 * f9))
    (2 * (f0 * f9) + 2 * (f1 * f8) + 2 * (f2 * f7) + 2 * (f3 * f6) + 2 * (f4 * f5))"
  unfolding mul_limbs_def limbs.case limbs.inject by (intro conjI; algebra)

lemma fe_sq_sums_eq:
  assumes "fe_mul_pre f"
  shows "fe_sq_sums f = map_limbs word_of_int (mul_limbs (map_limbs sint f) (map_limbs sint f))"
proof -
  obtain f0 f1 f2 f3 f4 f5 f6 f7 f8 f9 where F: "f = Limbs f0 f1 f2 f3 f4 f5 f6 f7 f8 f9" by (cases f)
  have "\<bar>sint f0\<bar> \<le> 110729625" "\<bar>sint f1\<bar> \<le> 110729625" "\<bar>sint f2\<bar> \<le> 110729625" "\<bar>sint f3\<bar> \<le> 110729625" "\<bar>sint f4\<bar> \<le> 110729625" "\<bar>sint f5\<bar> \<le> 110729625" "\<bar>sint f6\<bar> \<le> 110729625" "\<bar>sint f7\<bar> \<le> 110729625" "\<bar>sint f8\<bar> \<le> 110729625" "\<bar>sint f9\<bar> \<le> 110729625"
    "\<bar>sint f5\<bar> \<le> 55364812" "\<bar>sint f7\<bar> \<le> 55364812" "\<bar>sint f9\<bar> \<le> 55364812"
    using assms by (simp_all add: F fe_mul_pre_def)
  note b = this
  show ?thesis
    unfolding F fe_sq_sums_def mul_limbs_square limbs.case limbs.map Let_def of_int_add of_int_mult of_int_numeral
      to_i64_eq [symmetric] b(1-10) [THEN to_i64_19] b(1-10) [THEN to_i64_2] b(11-13) [THEN to_i64_38] limb_products
    by (rule refl)
qed

section \<open>Operations on elements\<close>

lemma limbs_le_mono: "limbs_le a b f \<Longrightarrow> a \<le> a' \<Longrightarrow> b \<le> b' \<Longrightarrow> limbs_le a' b' f"
  by (cases f) auto

lemma sint_of_int_limbs: "limbs_le 2147483647 2147483647 R \<Longrightarrow> map_limbs sint (map_limbs word_of_int R :: fe) = R"
  by (cases R) (simp add: sint_i32)

lemma fe_carry_elem:
  assumes "limbs_le 9000000000000000000 9000000000000000000 H"
  shows "fe_mul_post (fe_carry (map_limbs word_of_int H))"
    and "fe_val (fe_carry (map_limbs word_of_int H)) mod p25519 = limbs_val H mod p25519"
proof -
  obtain R where R: "fe_carry (map_limbs word_of_int H) = map_limbs word_of_int R" "limbs_le 33889976 16944988 R"
    "p25519 dvd limbs_val R - limbs_val H"
    using fe_carry_correct [OF assms] by blast
  have id: "map_limbs sint (map_limbs word_of_int R :: fe) = R"
    using R(2) by (intro sint_of_int_limbs limbs_le_mono [OF R(2)]) simp_all
  show "fe_mul_post (fe_carry (map_limbs word_of_int H))" using R(2) by (simp add: R(1) fe_mul_post_def id)
  show "fe_val (fe_carry (map_limbs word_of_int H)) mod p25519 = limbs_val H mod p25519"
    using R(3) by (simp add: R(1) fe_val_def id mod_eq_dvd_iff)
qed

lemma mul_limbs_mod: "limbs_val (mul_limbs F G) mod p25519 = limbs_val F * limbs_val G mod p25519"
  by (simp add: mod_eq_dvd_iff mul_limbs_val)

lemma fe_mul_elem:
  assumes "fe_mul_pre f" and "fe_mul_pre g"
  shows "fe_mul_post (fe_mul f g)" and "fe_val (fe_mul f g) mod p25519 = fe_val f * fe_val g mod p25519"
proof -
  let ?H = "mul_limbs (map_limbs sint f) (map_limbs sint g)"
  have "limbs_le 9000000000000000000 9000000000000000000 ?H"
    using assms unfolding fe_mul_pre_def by (intro limbs_le_mono [OF mul_limbs_le]) simp_all
  from fe_carry_elem [OF this]
  show "fe_mul_post (fe_mul f g)" and "fe_val (fe_mul f g) mod p25519 = fe_val f * fe_val g mod p25519"
    unfolding fe_mul_def fe_mul_sums_eq [OF assms] mul_limbs_mod by (simp_all add: fe_val_def)
qed

lemma fe_sq_eq_mul: "fe_mul_pre f \<Longrightarrow> fe_sq f = fe_mul f f"
  by (simp add: fe_sq_def fe_mul_def fe_sq_sums_eq fe_mul_sums_eq)

lemma double_sums_of_int: "double_sums (map_limbs word_of_int H) = map_limbs word_of_int (map_limbs (\<lambda>h. h + h) H)"
  by (cases H) simp

lemma double_limbs: "limbs_val (map_limbs (\<lambda>h. h + h) H) = 2 * limbs_val H"
  "limbs_le (2 * a) (2 * b) (map_limbs (\<lambda>h. h + h) H) = limbs_le a b H"
proof -
  have "\<bar>h + h\<bar> \<le> 2 * c \<longleftrightarrow> \<bar>h\<bar> \<le> c" for h c :: int by linarith
  then show "limbs_le (2 * a) (2 * b) (map_limbs (\<lambda>h. h + h) H) = limbs_le a b H"
    by (cases H) (simp only: limbs.map limbs_le.simps)
  show "limbs_val (map_limbs (\<lambda>h. h + h) H) = 2 * limbs_val H" by (cases H) (simp add: algebra_simps)
qed

lemma fe_sq2_elem:
  assumes "fe_mul_pre f"
  shows "fe_mul_post (fe_sq2 f)" and "fe_val (fe_sq2 f) mod p25519 = 2 * (fe_val f * fe_val f) mod p25519"
proof -
  let ?H = "mul_limbs (map_limbs sint f) (map_limbs sint f)"
  have "limbs_le 4300000000000000000 4300000000000000000 ?H"
    using assms unfolding fe_mul_pre_def by (intro mul_limbs_le)
  then have "limbs_le 9000000000000000000 9000000000000000000 (map_limbs (\<lambda>h. h + h) ?H)"
    by (rule limbs_le_mono [OF double_limbs(2) [THEN iffD2]]) linarith+
  note c = fe_carry_elem [OF this]
  have "2 * limbs_val ?H mod p25519 = 2 * (fe_val f * fe_val f) mod p25519"
    unfolding fe_val_def by (metis mod_mult_right_eq mul_limbs_mod)
  with c
  show "fe_mul_post (fe_sq2 f)" and "fe_val (fe_sq2 f) mod p25519 = 2 * (fe_val f * fe_val f) mod p25519"
    unfolding fe_sq2_def fe_sq_sums_eq [OF assms] double_sums_of_int double_limbs(1)
    by (simp_all only:)
qed

text \<open>Sums and differences need no carries as long as the operands are within the bounds that multiplications ensure.\<close>

lemma sint_plus_i32: "\<bar>sint x + sint y\<bar> < 2 ^ 31 \<Longrightarrow> sint (x + y :: i32) = sint x + sint y"
  and sint_minus_i32: "\<bar>sint x - sint y\<bar> < 2 ^ 31 \<Longrightarrow> sint (x - y :: i32) = sint x - sint y"
  and sint_uminus_i32: "\<bar>sint x\<bar> < 2 ^ 31 \<Longrightarrow> sint (- x :: i32) = - sint x"
proof -
  have "x + y = word_of_int (sint x + sint y)" "x - y = word_of_int (sint x - sint y)" "- x = word_of_int (- sint x)" by simp_all
  then show "\<bar>sint x + sint y\<bar> < 2 ^ 31 \<Longrightarrow> sint (x + y) = sint x + sint y"
    and "\<bar>sint x - sint y\<bar> < 2 ^ 31 \<Longrightarrow> sint (x - y) = sint x - sint y"
    and "\<bar>sint x\<bar> < 2 ^ 31 \<Longrightarrow> sint (- x) = - sint x"
    by (simp_all only: sint_i32 abs_minus_cancel)
qed

lemma sint_add_bound:
  assumes "\<bar>sint x\<bar> \<le> a" and "\<bar>sint y\<bar> \<le> a" and "a \<le> 36909875"
  shows "sint (x + y :: i32) = sint x + sint y \<and> \<bar>sint x + sint y\<bar> \<le> 2 * a"
  using sint_plus_i32 [of x y] assms by auto

lemma sint_sub_bound:
  assumes "\<bar>sint x\<bar> \<le> a" and "\<bar>sint y\<bar> \<le> a" and "a \<le> 36909875"
  shows "sint (x - y :: i32) = sint x - sint y \<and> \<bar>sint x - sint y\<bar> \<le> 2 * a"
  using sint_minus_i32 [of x y] assms by auto

lemma fe_add_elem:
  assumes "limbs_le 36909875 18454937 (map_limbs sint f)" and "limbs_le 36909875 18454937 (map_limbs sint g)"
  shows "fe_sum_post (fe_add f g)" and "fe_val (fe_add f g) = fe_val f + fe_val g"
proof -
  obtain f0 f1 f2 f3 f4 f5 f6 f7 f8 f9 where F: "f = Limbs f0 f1 f2 f3 f4 f5 f6 f7 f8 f9" by (cases f)
  obtain g0 g1 g2 g3 g4 g5 g6 g7 g8 g9 where G: "g = Limbs g0 g1 g2 g3 g4 g5 g6 g7 g8 g9" by (cases g)
  have f: "\<bar>sint f0\<bar> \<le> 36909875" "\<bar>sint f1\<bar> \<le> 18454937" "\<bar>sint f2\<bar> \<le> 36909875" "\<bar>sint f3\<bar> \<le> 18454937" "\<bar>sint f4\<bar> \<le> 36909875" "\<bar>sint f5\<bar> \<le> 18454937" "\<bar>sint f6\<bar> \<le> 36909875" "\<bar>sint f7\<bar> \<le> 18454937" "\<bar>sint f8\<bar> \<le> 36909875" "\<bar>sint f9\<bar> \<le> 18454937"
    using assms by (simp_all add: F)
  have g: "\<bar>sint g0\<bar> \<le> 36909875" "\<bar>sint g1\<bar> \<le> 18454937" "\<bar>sint g2\<bar> \<le> 36909875" "\<bar>sint g3\<bar> \<le> 18454937" "\<bar>sint g4\<bar> \<le> 36909875" "\<bar>sint g5\<bar> \<le> 18454937" "\<bar>sint g6\<bar> \<le> 36909875" "\<bar>sint g7\<bar> \<le> 18454937" "\<bar>sint g8\<bar> \<le> 36909875" "\<bar>sint g9\<bar> \<le> 18454937"
    using assms by (simp_all add: G)
  note s = sint_add_bound [OF f(1) g(1)] sint_add_bound [OF f(2) g(2)] sint_add_bound [OF f(3) g(3)] sint_add_bound [OF f(4) g(4)] sint_add_bound [OF f(5) g(5)] sint_add_bound [OF f(6) g(6)] sint_add_bound [OF f(7) g(7)] sint_add_bound [OF f(8) g(8)] sint_add_bound [OF f(9) g(9)] sint_add_bound [OF f(10) g(10)]
  show "fe_sum_post (fe_add f g)" and "fe_val (fe_add f g) = fe_val f + fe_val g"
    using s by (simp_all add: F G fe_sum_post_def fe_val_def)
qed

lemma fe_sub_elem:
  assumes "limbs_le 36909875 18454937 (map_limbs sint f)" and "limbs_le 36909875 18454937 (map_limbs sint g)"
  shows "fe_sum_post (fe_sub f g)" and "fe_val (fe_sub f g) = fe_val f - fe_val g"
proof -
  obtain f0 f1 f2 f3 f4 f5 f6 f7 f8 f9 where F: "f = Limbs f0 f1 f2 f3 f4 f5 f6 f7 f8 f9" by (cases f)
  obtain g0 g1 g2 g3 g4 g5 g6 g7 g8 g9 where G: "g = Limbs g0 g1 g2 g3 g4 g5 g6 g7 g8 g9" by (cases g)
  have f: "\<bar>sint f0\<bar> \<le> 36909875" "\<bar>sint f1\<bar> \<le> 18454937" "\<bar>sint f2\<bar> \<le> 36909875" "\<bar>sint f3\<bar> \<le> 18454937" "\<bar>sint f4\<bar> \<le> 36909875" "\<bar>sint f5\<bar> \<le> 18454937" "\<bar>sint f6\<bar> \<le> 36909875" "\<bar>sint f7\<bar> \<le> 18454937" "\<bar>sint f8\<bar> \<le> 36909875" "\<bar>sint f9\<bar> \<le> 18454937"
    using assms by (simp_all add: F)
  have g: "\<bar>sint g0\<bar> \<le> 36909875" "\<bar>sint g1\<bar> \<le> 18454937" "\<bar>sint g2\<bar> \<le> 36909875" "\<bar>sint g3\<bar> \<le> 18454937" "\<bar>sint g4\<bar> \<le> 36909875" "\<bar>sint g5\<bar> \<le> 18454937" "\<bar>sint g6\<bar> \<le> 36909875" "\<bar>sint g7\<bar> \<le> 18454937" "\<bar>sint g8\<bar> \<le> 36909875" "\<bar>sint g9\<bar> \<le> 18454937"
    using assms by (simp_all add: G)
  note s = sint_sub_bound [OF f(1) g(1)] sint_sub_bound [OF f(2) g(2)] sint_sub_bound [OF f(3) g(3)] sint_sub_bound [OF f(4) g(4)] sint_sub_bound [OF f(5) g(5)] sint_sub_bound [OF f(6) g(6)] sint_sub_bound [OF f(7) g(7)] sint_sub_bound [OF f(8) g(8)] sint_sub_bound [OF f(9) g(9)] sint_sub_bound [OF f(10) g(10)]
  show "fe_sum_post (fe_sub f g)" and "fe_val (fe_sub f g) = fe_val f - fe_val g"
    using s by (simp_all add: F G fe_sum_post_def fe_val_def)
qed

lemma fe_neg_elem:
  assumes "limbs_le a b (map_limbs sint f)" and "a < 2 ^ 31" and "b < 2 ^ 31"
  shows "limbs_le a b (map_limbs sint (fe_neg f))" and "fe_val (fe_neg f) = - fe_val f"
proof -
  obtain f0 f1 f2 f3 f4 f5 f6 f7 f8 f9 where F: "f = Limbs f0 f1 f2 f3 f4 f5 f6 f7 f8 f9" by (cases f)
  have s: "sint (- f0) = - sint f0" "sint (- f1) = - sint f1" "sint (- f2) = - sint f2" "sint (- f3) = - sint f3" "sint (- f4) = - sint f4" "sint (- f5) = - sint f5" "sint (- f6) = - sint f6" "sint (- f7) = - sint f7" "sint (- f8) = - sint f8" "sint (- f9) = - sint f9"
    using assms by (simp_all add: F sint_uminus_i32)
  show "limbs_le a b (map_limbs sint (fe_neg f))" and "fe_val (fe_neg f) = - fe_val f"
    using assms by (simp_all add: F fe_val_def s)
qed

lemma fe_cmov_eq: "fe_cmov f g 0 = Some f" "fe_cmov f g 1 = Some g"
  by (cases f; cases g; simp add: fe_cmov_def Let_def)+

section \<open>The operations on bounded field elements\<close>

lemma fe_post_mono: "fe_mul_post f \<Longrightarrow> limbs_le 36909875 18454937 (map_limbs sint f)"
  "fe_mul_post f \<Longrightarrow> fe_sum_post f" "fe_sum_post f \<Longrightarrow> fe_mul_pre f"
  by (auto simp: fe_mul_post_def fe_sum_post_def fe_mul_pre_def elim: limbs_le_mono)

lemma fe_post_const: "fe_mul_post fe_0" "fe_mul_post fe_1"
  by (simp_all add: fe_mul_post_def fe_0_def fe_1_def)

lemma fe_neg_post: "fe_mul_post f \<Longrightarrow> fe_mul_post (fe_neg f) \<and> fe_val (fe_neg f) = - fe_val f"
  unfolding fe_mul_post_def using fe_neg_elem [of 33889976 16944988 f] by simp

text \<open>C12. The limb bounds are a type discipline for the field code: every product, square and doubled square of two sums
is again bounded like a product, and sums and differences of products are bounded like sums, so any alternation of one
addition and one multiplication stays within the bounds that exclude an overflow.\<close>

theorem fe_bounds_closed:
  assumes "fe_mul_post f" and "fe_mul_post g" and "fe_sum_post h" and "fe_sum_post k"
  shows "fe_sum_post (fe_add f g) \<and> fe_sum_post (fe_sub f g) \<and> fe_mul_post (fe_neg f) \<and> fe_sum_post f \<and>
    fe_mul_post (fe_mul h k) \<and> fe_mul_post (fe_sq h) \<and> fe_mul_post (fe_sq2 h) \<and> fe_mul_post fe_0 \<and> fe_mul_post fe_1"
  using assms fe_mul_elem(1) [of h k] fe_mul_elem(1) [of h h] fe_sq2_elem(1) [of h]
  by (simp add: fe_add_elem fe_sub_elem fe_neg_post fe_sq_eq_mul fe_post_const fe_post_mono)

theorem fe_bounds_closed_witness:
  "fe_sum_post (fe_add fe_1 fe_0) \<and> fe_sum_post (fe_sub fe_1 fe_0) \<and> fe_mul_post (fe_mul fe_1 fe_1) \<and> fe_mul_post (fe_sq2 fe_1)"
  using fe_bounds_closed [of fe_1 fe_0 fe_1 fe_1] fe_post_const fe_post_mono(2) by blast

text \<open>C9. Arithmetic modulo \<open>2 ^ 255 - 19\<close>: within the limb bounds no operation overflows, additions are exact, and the
products and squares are those of the field.\<close>

theorem fe_ops_correct:
  assumes "fe_mul_post f" and "fe_mul_post g" and "fe_sum_post h" and "fe_sum_post k"
  shows "fe_val (fe_add f g) = fe_val f + fe_val g \<and> fe_val (fe_sub f g) = fe_val f - fe_val g \<and>
    fe_val (fe_neg f) = - fe_val f \<and>
    fe_val (fe_mul h k) mod p25519 = fe_val h * fe_val k mod p25519 \<and> fe_sq h = fe_mul h h \<and>
    fe_val (fe_sq2 h) mod p25519 = 2 * (fe_val h * fe_val h) mod p25519"
  using assms fe_mul_elem(2) [of h k] fe_sq2_elem(2) [of h]
  by (simp add: fe_add_elem fe_sub_elem fe_neg_post fe_sq_eq_mul fe_post_mono)

theorem fe_ops_correct_witness:
  "fe_val (fe_add fe_1 fe_1) = 2 \<and> fe_val (fe_sub fe_0 fe_1) = - 1 \<and> fe_sq fe_1 = fe_mul fe_1 fe_1 \<and>
   fe_val (fe_mul (fe_add fe_1 fe_1) (fe_add fe_1 fe_1)) mod p25519 = 4"
proof -
  have v: "fe_val fe_1 = 1" "fe_val fe_0 = 0" by (simp_all add: fe_val_def fe_0_def fe_1_def)
  note p = fe_post_const fe_post_mono(2) [OF fe_post_const(2)]
  have 1: "fe_val (fe_add fe_1 fe_1) = 2" "fe_sum_post (fe_add fe_1 fe_1)"
    using fe_ops_correct [OF p(2,2,3,3)] v fe_add_elem(1) [OF fe_post_mono(1,1) [OF p(2)]] by simp_all
  from fe_ops_correct [OF p(1,2) this(2,2)] fe_ops_correct [OF p(2,2,3,3)] 1(1) v show ?thesis
    by (simp add: p25519_def)
qed

end
