(* ===== verification/Field_Bytes.thy ===== *)
theory Field_Bytes
  imports Field_Arith
begin

text \<open>
  Powers and the byte form of field elements: the addition chains of \<open>fe_invert\<close> and \<open>fe_divpowm1\<close> and the reduction
  to the canonical representative in \<open>fe_tobytes\<close>, of \<open>src/crypto/crypto-ops.c\<close>.

  The lemmas show which powers the chains compute, and that the 32 bytes are the little-endian digits of the residue
  modulo \<open>2 ^ 255 - 19\<close> that is at least zero and less than the modulus, for all elements within the bounds that sums
  and differences have.
\<close>

section \<open>Powers\<close>

definition fe_invert :: "fe \<Rightarrow> fe" where
  "fe_invert z =
    (let t0 = fe_sq z;
         t1 = fe_sq t0;
         t1 = fe_sq t1;
         t1 = fe_mul z t1;
         t0 = fe_mul t0 t1;
         t2 = fe_sq t0;
         t1 = fe_mul t1 t2;
         t2 = fe_sq t1;
         t2 = (fe_sq ^^ 4) t2;
         t1 = fe_mul t2 t1;
         t2 = fe_sq t1;
         t2 = (fe_sq ^^ 9) t2;
         t2 = fe_mul t2 t1;
         t3 = fe_sq t2;
         t3 = (fe_sq ^^ 19) t3;
         t2 = fe_mul t3 t2;
         t2 = fe_sq t2;
         t2 = (fe_sq ^^ 9) t2;
         t1 = fe_mul t2 t1;
         t2 = fe_sq t1;
         t2 = (fe_sq ^^ 49) t2;
         t2 = fe_mul t2 t1;
         t3 = fe_sq t2;
         t3 = (fe_sq ^^ 99) t3;
         t2 = fe_mul t3 t2;
         t2 = fe_sq t2;
         t2 = (fe_sq ^^ 49) t2;
         t1 = fe_mul t2 t1;
         t1 = fe_sq t1;
         t1 = (fe_sq ^^ 4) t1
     in fe_mul t1 t0)"

text \<open>The part of \<open>fe_divpowm1\<close> that is taken from \<open>fe_pow22523.c\<close>.\<close>

definition fe_pow22523 :: "fe \<Rightarrow> fe" where
  "fe_pow22523 uv7 =
    (let t0 = fe_sq uv7;
         t1 = fe_sq t0;
         t1 = fe_sq t1;
         t1 = fe_mul uv7 t1;
         t0 = fe_mul t0 t1;
         t0 = fe_sq t0;
         t0 = fe_mul t1 t0;
         t1 = fe_sq t0;
         t1 = (fe_sq ^^ 4) t1;
         t0 = fe_mul t1 t0;
         t1 = fe_sq t0;
         t1 = (fe_sq ^^ 9) t1;
         t1 = fe_mul t1 t0;
         t2 = fe_sq t1;
         t2 = (fe_sq ^^ 19) t2;
         t1 = fe_mul t2 t1;
         t1 = (fe_sq ^^ 10) t1;
         t0 = fe_mul t1 t0;
         t1 = fe_sq t0;
         t1 = (fe_sq ^^ 49) t1;
         t1 = fe_mul t1 t0;
         t2 = fe_sq t1;
         t2 = (fe_sq ^^ 99) t2;
         t1 = fe_mul t2 t1;
         t1 = (fe_sq ^^ 50) t1;
         t0 = fe_mul t1 t0;
         t0 = fe_sq t0;
         t0 = fe_sq t0
     in fe_mul t0 uv7)"

definition fe_divpowm1 :: "fe \<Rightarrow> fe \<Rightarrow> fe" where
  "fe_divpowm1 u v =
    (let v3 = fe_sq v;
         v3 = fe_mul v3 v;
         uv7 = fe_sq v3;
         uv7 = fe_mul uv7 v;
         uv7 = fe_mul uv7 u;
         t0 = fe_pow22523 uv7;
         t0 = fe_mul t0 v3
     in fe_mul t0 u)"

text \<open>An element within the bounds for multiplication that represents a residue.\<close>

definition fe_rep :: "int \<Rightarrow> fe \<Rightarrow> bool" where
  "fe_rep v f \<longleftrightarrow> fe_mul_pre f \<and> fe_val f mod p25519 = v mod p25519"

lemma fe_mul_post_pre: "fe_mul_post f \<Longrightarrow> fe_mul_pre f"
  unfolding fe_mul_post_def fe_mul_pre_def by (erule limbs_le_mono) simp_all

lemma fe_rep_mul: "fe_rep a f \<Longrightarrow> fe_rep b g \<Longrightarrow> fe_rep (a * b) (fe_mul f g)"
  using fe_mul_elem [of f g] by (auto simp: fe_rep_def fe_mul_post_pre intro: mod_mult_cong)

lemma fe_rep_sq: "fe_rep a f \<Longrightarrow> fe_rep (a * a) (fe_sq f)"
  using fe_rep_mul [of a f a f] fe_sq_eq_mul [of f] by (simp add: fe_rep_def)

lemma fe_rep_pow_mul: "fe_rep (z ^ a) f \<Longrightarrow> fe_rep (z ^ b) g \<Longrightarrow> fe_rep (z ^ (a + b)) (fe_mul f g)"
  using fe_rep_mul [of "z ^ a" f "z ^ b" g] by (simp add: power_add)

lemma fe_rep_pow_sq: "fe_rep (z ^ a) f \<Longrightarrow> fe_rep (z ^ (2 * a)) (fe_sq f)"
  using fe_rep_sq [of "z ^ a" f] by (simp add: mult_2 power_add)

lemma fe_rep_pow_sqs: "fe_rep (z ^ a) f \<Longrightarrow> fe_rep (z ^ (2 ^ n * a)) ((fe_sq ^^ n) f)"
proof (induction n)
  case (Suc n)
  from fe_rep_pow_sq [OF Suc.IH [OF Suc.prems]] show ?case by (simp add: mult.assoc)
qed simp

lemmas fe_rep_pows = fe_rep_pow_mul fe_rep_pow_sq fe_rep_pow_sqs

lemma fe_rep_exp: "fe_rep (z ^ a) f \<Longrightarrow> a = b \<Longrightarrow> fe_rep (z ^ b) f"
  by simp

lemma fe_invert_rep:
  assumes "fe_rep z f"
  shows "fe_rep (z ^ (2 ^ 255 - 21)) (fe_invert f)"
proof -
  have f: "fe_rep (z ^ 1) f" using assms by simp
  show ?thesis
    unfolding fe_invert_def Let_def
    by (rule fe_rep_exp, (rule fe_rep_pow_mul | rule fe_rep_pow_sqs | rule fe_rep_pow_sq | rule f)+) simp
qed

lemma fe_pow22523_rep:
  assumes "fe_rep z f"
  shows "fe_rep (z ^ (2 ^ 252 - 3)) (fe_pow22523 f)"
proof -
  have f: "fe_rep (z ^ 1) f" using assms by simp
  show ?thesis
    unfolding fe_pow22523_def Let_def
    by (rule fe_rep_exp, (rule fe_rep_pow_mul | rule fe_rep_pow_sqs | rule fe_rep_pow_sq | rule f)+) simp
qed

lemma fe_divpowm1_rep:
  assumes "fe_rep a u" and "fe_rep b v"
  shows "fe_rep (a * b ^ 3 * (a * b ^ 7) ^ (2 ^ 252 - 3)) (fe_divpowm1 u v)"
proof -
  have v3: "fe_rep (b ^ 3) (fe_mul (fe_sq v) v)"
    using fe_rep_mul [OF fe_rep_sq [OF assms(2)] assms(2)] by (simp add: power3_eq_cube)
  have "fe_rep (b ^ 3 * b ^ 3 * b * a) (fe_mul (fe_mul (fe_sq (fe_mul (fe_sq v) v)) v) u)"
    by (intro fe_rep_mul fe_rep_sq v3 assms)
  moreover have "b ^ 3 * b ^ 3 * b * a = a * b ^ 7" by (simp add: eval_nat_numeral)
  ultimately have uv7: "fe_rep (a * b ^ 7) (fe_mul (fe_mul (fe_sq (fe_mul (fe_sq v) v)) v) u)" by (simp only:)
  from fe_rep_mul [OF fe_rep_mul [OF fe_pow22523_rep [OF uv7] v3] assms(1)] show ?thesis
    unfolding fe_divpowm1_def Let_def by (simp only: ac_simps)
qed

section \<open>Bytes\<close>

text \<open>The quotient \<open>q\<close> that is subtracted, then the ten limbs after the subtraction and the carries.\<close>

definition fe_tobytes_q :: "fe \<Rightarrow> i32" where
  "fe_tobytes_q h =
    (case h of Limbs h0 h1 h2 h3 h4 h5 h6 h7 h8 h9 \<Rightarrow>
     let q = signed_drop_bit 25 (19 * h9 + push_bit 24 1);
         q = signed_drop_bit 26 (h0 + q); q = signed_drop_bit 25 (h1 + q);
         q = signed_drop_bit 26 (h2 + q); q = signed_drop_bit 25 (h3 + q);
         q = signed_drop_bit 26 (h4 + q); q = signed_drop_bit 25 (h5 + q);
         q = signed_drop_bit 26 (h6 + q); q = signed_drop_bit 25 (h7 + q);
         q = signed_drop_bit 26 (h8 + q)
     in signed_drop_bit 25 (h9 + q))"

definition floor_carry :: "nat \<Rightarrow> i32 \<Rightarrow> i32 \<Rightarrow> i32 \<times> i32" where
  "floor_carry n h h' = (let c = signed_drop_bit n h in (h - push_bit n c, h' + c))"

definition fe_tobytes_limbs :: "fe \<Rightarrow> fe" where
  "fe_tobytes_limbs h =
    (case h of Limbs h0 h1 h2 h3 h4 h5 h6 h7 h8 h9 \<Rightarrow>
     let h0 = h0 + 19 * fe_tobytes_q h;
         (h0, h1) = floor_carry 26 h0 h1; (h1, h2) = floor_carry 25 h1 h2;
         (h2, h3) = floor_carry 26 h2 h3; (h3, h4) = floor_carry 25 h3 h4;
         (h4, h5) = floor_carry 26 h4 h5; (h5, h6) = floor_carry 25 h5 h6;
         (h6, h7) = floor_carry 26 h6 h7; (h7, h8) = floor_carry 25 h7 h8;
         (h8, h9) = floor_carry 26 h8 h9;
         h9 = h9 - push_bit 25 (signed_drop_bit 25 h9)
     in Limbs h0 h1 h2 h3 h4 h5 h6 h7 h8 h9)"

definition fe_tobytes :: "fe \<Rightarrow> byte list" where
  "fe_tobytes h =
    (case fe_tobytes_limbs h of Limbs h0 h1 h2 h3 h4 h5 h6 h7 h8 h9 \<Rightarrow>
        [ucast (signed_drop_bit 0 h0), ucast (signed_drop_bit 8 h0), ucast (signed_drop_bit 16 h0),
         ucast (signed_drop_bit 24 h0 OR push_bit 2 h1), ucast (signed_drop_bit 6 h1), ucast (signed_drop_bit 14 h1),
         ucast (signed_drop_bit 22 h1 OR push_bit 3 h2), ucast (signed_drop_bit 5 h2), ucast (signed_drop_bit 13 h2),
         ucast (signed_drop_bit 21 h2 OR push_bit 5 h3), ucast (signed_drop_bit 3 h3), ucast (signed_drop_bit 11 h3),
         ucast (signed_drop_bit 19 h3 OR push_bit 6 h4), ucast (signed_drop_bit 2 h4), ucast (signed_drop_bit 10 h4),
         ucast (signed_drop_bit 18 h4), ucast (signed_drop_bit 0 h5), ucast (signed_drop_bit 8 h5),
         ucast (signed_drop_bit 16 h5), ucast (signed_drop_bit 24 h5 OR push_bit 1 h6), ucast (signed_drop_bit 7 h6),
         ucast (signed_drop_bit 15 h6), ucast (signed_drop_bit 23 h6 OR push_bit 3 h7), ucast (signed_drop_bit 5 h7),
         ucast (signed_drop_bit 13 h7), ucast (signed_drop_bit 21 h7 OR push_bit 4 h8), ucast (signed_drop_bit 4 h8),
         ucast (signed_drop_bit 12 h8), ucast (signed_drop_bit 20 h8 OR push_bit 6 h9), ucast (signed_drop_bit 2 h9),
         ucast (signed_drop_bit 10 h9), ucast (signed_drop_bit 18 h9)])"

definition fe_isnegative :: "fe \<Rightarrow> byte" where
  "fe_isnegative f = fe_tobytes f ! 0 AND 1"

text \<open>The sum of the bytes by \<open>|\<close>, and the constant-time test that it is not zero.\<close>

definition fe_isnonzero :: "fe \<Rightarrow> i32" where
  "fe_isnonzero f = signed_drop_bit 8 (ucast (foldl (OR) 0 (fe_tobytes f)) - 1) + 1"

section \<open>Reduction to the canonical representative\<close>

lemma abs_div_le:
  assumes "\<bar>x\<bar> \<le> b" and "b \<le> 2 ^ n * m"
  shows "\<bar>x div 2 ^ n\<bar> \<le> (m :: int)"
proof -
  have "x \<le> m * 2 ^ n" "- m * 2 ^ n \<le> x" using assms by (auto simp: algebra_simps abs_le_iff)
  then have "x div 2 ^ n \<le> m * 2 ^ n div 2 ^ n" "- m * 2 ^ n div 2 ^ n \<le> x div 2 ^ n"
    by (simp_all only: zdiv_mono1 zero_less_power zero_less_numeral)
  moreover have "m * 2 ^ n div 2 ^ n = m" "- m * 2 ^ n div 2 ^ n = - m"
    by (rule nonzero_mult_div_cancel_right, simp)+
  ultimately show ?thesis by linarith
qed

lemma q_step:
  assumes "\<bar>sint h\<bar> \<le> b" and "\<bar>q\<bar> \<le> c" and "s = b + c" and "s < 2 ^ 31" and "s \<le> 2 ^ n * m"
  obtains q' where "signed_drop_bit n (h + word_of_int q :: i32) = word_of_int q'" "q' = (sint h + q) div 2 ^ n" "\<bar>q'\<bar> \<le> m"
proof -
  have "\<bar>sint h + q\<bar> \<le> s" using assms(1-3) by linarith
  moreover have "h + word_of_int q = word_of_int (sint h + q)" by simp
  moreover from calculation have "\<bar>(sint h + q) div 2 ^ n\<bar> \<le> m" using assms(5) by (intro abs_div_le [of _ s]) simp_all
  ultimately show ?thesis
    using assms(4) by (intro that [of "(sint h + q) div 2 ^ n"]) (simp_all only: signed_drop_bit_i32)
qed

lemma div_plus_div: "(a + b div 2 ^ m) div 2 ^ n = (a * 2 ^ m + b) div 2 ^ (m + n)" for a b :: int
proof -
  have "(a * 2 ^ m + b) div 2 ^ m = a + b div 2 ^ m" by simp
  then show ?thesis by (metis power_add zdiv_zmult2_eq zero_le_numeral zero_le_power)
qed

lemma fe_tobytes_q_eq:
  assumes "fe_sum_post (Limbs h0 h1 h2 h3 h4 h5 h6 h7 h8 h9)"
  shows "fe_tobytes_q (Limbs h0 h1 h2 h3 h4 h5 h6 h7 h8 h9) = word_of_int ((fe_val (Limbs h0 h1 h2 h3 h4 h5 h6 h7 h8 h9) + (19 * sint h9 + 2 ^ 24) div 2 ^ 25) div 2 ^ 255)"
proof -
  have h: "\<bar>sint h0\<bar> \<le> 73819750" "\<bar>sint h1\<bar> \<le> 36909875" "\<bar>sint h2\<bar> \<le> 73819750" "\<bar>sint h3\<bar> \<le> 36909875" "\<bar>sint h4\<bar> \<le> 73819750" "\<bar>sint h5\<bar> \<le> 36909875" "\<bar>sint h6\<bar> \<le> 73819750" "\<bar>sint h7\<bar> \<le> 36909875" "\<bar>sint h8\<bar> \<le> 73819750" "\<bar>sint h9\<bar> \<le> 36909875"
    using assms by (simp_all add: fe_sum_post_def)
  define q0 where "q0 = (19 * sint h9 + 2 ^ 24) div 2 ^ 25"
  have b0: "\<bar>q0\<bar> \<le> 22" unfolding q0_def using h(10) by (intro abs_div_le [of _ 718064841]) simp_all
  have w0: "signed_drop_bit 25 (19 * h9 + push_bit 24 1) = word_of_int q0"
    using signed_drop_bit_i32 [of "19 * sint h9 + 2 ^ 24" 25] h(10) unfolding q0_def by (simp add: push_bit_eq_mult)
  from q_step [OF h(1) b0 refl, of 26 2] obtain q1
    where s1: "signed_drop_bit 26 (h0 + word_of_int q0) = word_of_int q1" "q1 = (sint h0 + q0) div 2 ^ 26"
      and b1: "\<bar>q1\<bar> \<le> 2" by auto
  from q_step [OF h(2) b1 refl, of 25 2] obtain q2
    where s2: "signed_drop_bit 25 (h1 + word_of_int q1) = word_of_int q2" "q2 = (sint h1 + q1) div 2 ^ 25"
      and b2: "\<bar>q2\<bar> \<le> 2" by auto
  from q_step [OF h(3) b2 refl, of 26 2] obtain q3
    where s3: "signed_drop_bit 26 (h2 + word_of_int q2) = word_of_int q3" "q3 = (sint h2 + q2) div 2 ^ 26"
      and b3: "\<bar>q3\<bar> \<le> 2" by auto
  from q_step [OF h(4) b3 refl, of 25 2] obtain q4
    where s4: "signed_drop_bit 25 (h3 + word_of_int q3) = word_of_int q4" "q4 = (sint h3 + q3) div 2 ^ 25"
      and b4: "\<bar>q4\<bar> \<le> 2" by auto
  from q_step [OF h(5) b4 refl, of 26 2] obtain q5
    where s5: "signed_drop_bit 26 (h4 + word_of_int q4) = word_of_int q5" "q5 = (sint h4 + q4) div 2 ^ 26"
      and b5: "\<bar>q5\<bar> \<le> 2" by auto
  from q_step [OF h(6) b5 refl, of 25 2] obtain q6
    where s6: "signed_drop_bit 25 (h5 + word_of_int q5) = word_of_int q6" "q6 = (sint h5 + q5) div 2 ^ 25"
      and b6: "\<bar>q6\<bar> \<le> 2" by auto
  from q_step [OF h(7) b6 refl, of 26 2] obtain q7
    where s7: "signed_drop_bit 26 (h6 + word_of_int q6) = word_of_int q7" "q7 = (sint h6 + q6) div 2 ^ 26"
      and b7: "\<bar>q7\<bar> \<le> 2" by auto
  from q_step [OF h(8) b7 refl, of 25 2] obtain q8
    where s8: "signed_drop_bit 25 (h7 + word_of_int q7) = word_of_int q8" "q8 = (sint h7 + q7) div 2 ^ 25"
      and b8: "\<bar>q8\<bar> \<le> 2" by auto
  from q_step [OF h(9) b8 refl, of 26 2] obtain q9
    where s9: "signed_drop_bit 26 (h8 + word_of_int q8) = word_of_int q9" "q9 = (sint h8 + q8) div 2 ^ 26"
      and b9: "\<bar>q9\<bar> \<le> 2" by auto
  from q_step [OF h(10) b9 refl, of 25 2] obtain q10
    where s10: "signed_drop_bit 25 (h9 + word_of_int q9) = word_of_int q10" "q10 = (sint h9 + q9) div 2 ^ 25"
      and b10: "\<bar>q10\<bar> \<le> 2" by auto
  have c2: "q2 = (q0 + sint h0 + sint h1 * 2 ^ 26) div 2 ^ 51"
    unfolding s2(2) s1(2) by (simp add: div_plus_div algebra_simps)
  have c3: "q3 = (q0 + sint h0 + sint h1 * 2 ^ 26 + sint h2 * 2 ^ 51) div 2 ^ 77"
    unfolding s3(2) c2 by (simp add: div_plus_div algebra_simps)
  have c4: "q4 = (q0 + sint h0 + sint h1 * 2 ^ 26 + sint h2 * 2 ^ 51 + sint h3 * 2 ^ 77) div 2 ^ 102"
    unfolding s4(2) c3 by (simp add: div_plus_div algebra_simps)
  have c5: "q5 = (q0 + sint h0 + sint h1 * 2 ^ 26 + sint h2 * 2 ^ 51 + sint h3 * 2 ^ 77 + sint h4 * 2 ^ 102) div 2 ^ 128"
    unfolding s5(2) c4 by (simp add: div_plus_div algebra_simps)
  have c6: "q6 = (q0 + sint h0 + sint h1 * 2 ^ 26 + sint h2 * 2 ^ 51 + sint h3 * 2 ^ 77 + sint h4 * 2 ^ 102 + sint h5 * 2 ^ 128) div 2 ^ 153"
    unfolding s6(2) c5 by (simp add: div_plus_div algebra_simps)
  have c7: "q7 = (q0 + sint h0 + sint h1 * 2 ^ 26 + sint h2 * 2 ^ 51 + sint h3 * 2 ^ 77 + sint h4 * 2 ^ 102 + sint h5 * 2 ^ 128 + sint h6 * 2 ^ 153) div 2 ^ 179"
    unfolding s7(2) c6 by (simp add: div_plus_div algebra_simps)
  have c8: "q8 = (q0 + sint h0 + sint h1 * 2 ^ 26 + sint h2 * 2 ^ 51 + sint h3 * 2 ^ 77 + sint h4 * 2 ^ 102 + sint h5 * 2 ^ 128 + sint h6 * 2 ^ 153 + sint h7 * 2 ^ 179) div 2 ^ 204"
    unfolding s8(2) c7 by (simp add: div_plus_div algebra_simps)
  have c9: "q9 = (q0 + sint h0 + sint h1 * 2 ^ 26 + sint h2 * 2 ^ 51 + sint h3 * 2 ^ 77 + sint h4 * 2 ^ 102 + sint h5 * 2 ^ 128 + sint h6 * 2 ^ 153 + sint h7 * 2 ^ 179 + sint h8 * 2 ^ 204) div 2 ^ 230"
    unfolding s9(2) c8 by (simp add: div_plus_div algebra_simps)
  have c10: "q10 = (q0 + sint h0 + sint h1 * 2 ^ 26 + sint h2 * 2 ^ 51 + sint h3 * 2 ^ 77 + sint h4 * 2 ^ 102 + sint h5 * 2 ^ 128 + sint h6 * 2 ^ 153 + sint h7 * 2 ^ 179 + sint h8 * 2 ^ 204 + sint h9 * 2 ^ 230) div 2 ^ 255"
    unfolding s10(2) c9 by (simp add: div_plus_div algebra_simps)
  have "q10 = (fe_val (Limbs h0 h1 h2 h3 h4 h5 h6 h7 h8 h9) + q0) div 2 ^ 255"
    unfolding c10 fe_val_def by (simp add: algebra_simps)
  then show ?thesis
    unfolding fe_tobytes_q_def limbs.case Let_def w0 s1(1) s2(1) s3(1) s4(1) s5(1) s6(1) s7(1) s8(1) s9(1) s10(1) q0_def [symmetric] by (simp only:)
qed

lemma tobytes_quotient:
  fixes h l :: int
  assumes h: "\<bar>h\<bar> \<le> 36909875" and l: "\<bar>l\<bar> \<le> 2 ^ 231"
  shows "(h * 2 ^ 230 + l + (19 * h + 2 ^ 24) div 2 ^ 25) div 2 ^ 255 = (h * 2 ^ 230 + l) div p25519"
proof -
  define q f k r where "q = (19 * h + 16777216) div 33554432" and "f = h * 1725436586697640946858688965569256363112777243042596638790631055949824 + l" and "k = f div 57896044618658097711785492504343953926634992332820282019728792003956564819949" and "r = f mod 57896044618658097711785492504343953926634992332820282019728792003956564819949"
  have "33554432 * q + (19 * h + 16777216) mod 33554432 = 19 * h + 16777216" unfolding q_def by (rule mult_div_mod_eq)
  moreover have "0 \<le> (19 * h + 16777216) mod 33554432" "(19 * h + 16777216) mod 33554432 < 33554432" by simp_all
  ultimately have q: "33554432 * q \<le> 19 * h + 16777216" "19 * h + 16777216 < 33554432 * q + 33554432" by linarith+
  have f: "f = 57896044618658097711785492504343953926634992332820282019728792003956564819949 * k + r" "0 \<le> r" "r < 57896044618658097711785492504343953926634992332820282019728792003956564819949" unfolding k_def r_def by simp_all
  have hl: "- 36909875 \<le> h" "h \<le> 36909875" "- 3450873173395281893717377931138512726225554486085193277581262111899648 \<le> l" "l \<le> 3450873173395281893717377931138512726225554486085193277581262111899648" using h l by (simp_all add: abs_le_iff)
  have k: "- 3 < k" "k < 2" using f hl unfolding f_def by linarith+
  have "0 \<le> q - 19 * k" "r + (q - 19 * k) < 57896044618658097711785492504343953926634992332820282019728792003956564819968" using q f hl k unfolding f_def by linarith+
  then have "0 \<le> r + (q - 19 * k)" "r + (q - 19 * k) < 57896044618658097711785492504343953926634992332820282019728792003956564819968" using f(2) by linarith+
  moreover have "f + q = 57896044618658097711785492504343953926634992332820282019728792003956564819968 * k + (r + (q - 19 * k))" using f(1) by linarith
  ultimately have "(f + q) div 57896044618658097711785492504343953926634992332820282019728792003956564819968 = k" by simp
  then show ?thesis by (simp add: q_def k_def f_def p25519_def)
qed

fun limbs_canonical :: "int limbs \<Rightarrow> bool" where
  "limbs_canonical (Limbs h0 h1 h2 h3 h4 h5 h6 h7 h8 h9) \<longleftrightarrow>
    0 \<le> h0 \<and> h0 < 67108864 \<and> 0 \<le> h1 \<and> h1 < 33554432 \<and> 0 \<le> h2 \<and> h2 < 67108864 \<and> 0 \<le> h3 \<and> h3 < 33554432 \<and> 0 \<le> h4 \<and> h4 < 67108864 \<and> 0 \<le> h5 \<and> h5 < 33554432 \<and> 0 \<le> h6 \<and> h6 < 67108864 \<and> 0 \<le> h7 \<and> h7 < 33554432 \<and> 0 \<le> h8 \<and> h8 < 67108864 \<and> 0 \<le> h9 \<and> h9 < 33554432"

lemma floor_carry_step:
  assumes "\<bar>x\<bar> \<le> b" and "\<bar>y\<bar> \<le> b'" and "b < 2 ^ 31" and "b \<le> 2 ^ n * m"
  obtains x' y' where "floor_carry n (word_of_int x) (word_of_int y) = (word_of_int x', word_of_int y')"
    "x' + 2 ^ n * y' = x + 2 ^ n * y" "0 \<le> x'" "x' < 2 ^ n" "\<bar>y'\<bar> \<le> b' + m"
proof -
  have "signed_drop_bit n (word_of_int x :: i32) = word_of_int (x div 2 ^ n)"
    using assms(1,3) by (intro signed_drop_bit_i32) simp
  then have 1: "floor_carry n (word_of_int x) (word_of_int y) = (word_of_int (x mod 2 ^ n), word_of_int (y + x div 2 ^ n))"
    by (simp add: floor_carry_def Let_def push_bit_eq_mult minus_div_mult_eq_mod [symmetric])
  have 2: "x mod 2 ^ n + 2 ^ n * (y + x div 2 ^ n) = x + 2 ^ n * y" by (simp add: algebra_simps)
  have 3: "0 \<le> x mod 2 ^ n" and 4: "x mod 2 ^ n < 2 ^ n" by simp_all
  have "\<bar>y + x div 2 ^ n\<bar> \<le> b' + m"
    using abs_div_le [OF assms(1,4)] assms(2) by linarith
  with 1 2 3 4 show ?thesis by (rule that)
qed

lemma abs_quotient_le:
  fixes x p :: int
  assumes "\<bar>x\<bar> < 2 * p" and "0 < p"
  shows "\<bar>x div p\<bar> \<le> 2"
proof -
  have "x div p \<le> 2 * p div p" "(- 2) * p div p \<le> x div p" using assms by (intro zdiv_mono1; simp)+
  moreover have "2 * p div p = 2" "(- 2) * p div p = - 2" using assms(2) by (intro nonzero_mult_div_cancel_right; simp)+
  ultimately show ?thesis by linarith
qed

lemma abs_times_le: "\<bar>x\<bar> \<le> a \<Longrightarrow> \<bar>x * 2 ^ n\<bar> \<le> a * 2 ^ n" for x a :: int
  by (simp add: abs_mult)

lemma canonical_range: "limbs_canonical R \<Longrightarrow> 0 \<le> limbs_val R \<and> limbs_val R < 2 ^ 255"
  by (cases R) simp

lemma canonical_residue:
  assumes "limbs_canonical R" and "limbs_val R + 2 ^ 255 * c = f + 19 * q" and "q = f div p25519"
  shows "limbs_val R = f mod p25519"
proof -
  have "f = 57896044618658097711785492504343953926634992332820282019728792003956564819949 * q + f mod 57896044618658097711785492504343953926634992332820282019728792003956564819949" unfolding assms(3) p25519_def by simp
  moreover have "0 \<le> f mod 57896044618658097711785492504343953926634992332820282019728792003956564819949" "f mod 57896044618658097711785492504343953926634992332820282019728792003956564819949 < 57896044618658097711785492504343953926634992332820282019728792003956564819949" by simp_all
  moreover have "limbs_val R + 57896044618658097711785492504343953926634992332820282019728792003956564819968 * c = f + 19 * q" "0 \<le> limbs_val R" "limbs_val R < 57896044618658097711785492504343953926634992332820282019728792003956564819968"
    using assms(2) canonical_range [OF assms(1)] by simp_all
  moreover obtain d where d: "d = q - c" by simp
  ultimately have "limbs_val R - f mod 57896044618658097711785492504343953926634992332820282019728792003956564819949 = 57896044618658097711785492504343953926634992332820282019728792003956564819968 * d" "\<bar>limbs_val R - f mod 57896044618658097711785492504343953926634992332820282019728792003956564819949\<bar> < 57896044618658097711785492504343953926634992332820282019728792003956564819968" by linarith+
  then have "limbs_val R = f mod 57896044618658097711785492504343953926634992332820282019728792003956564819949" by (cases "d = 0") (simp_all add: abs_mult)
  then show ?thesis by (simp add: p25519_def)
qed

lemma limbs_val_split: "fe_val (Limbs h0 h1 h2 h3 h4 h5 h6 h7 h8 h9) = sint h9 * 2 ^ 230 + (sint h0 + sint h1 * 2 ^ 26 + sint h2 * 2 ^ 51 + sint h3 * 2 ^ 77 + sint h4 * 2 ^ 102 + sint h5 * 2 ^ 128 + sint h6 * 2 ^ 153 + sint h7 * 2 ^ 179 + sint h8 * 2 ^ 204)"
  by (simp add: fe_val_def)

lemma fe_tobytes_quotient:
  assumes "fe_sum_post (Limbs h0 h1 h2 h3 h4 h5 h6 h7 h8 h9)"
  shows "fe_tobytes_q (Limbs h0 h1 h2 h3 h4 h5 h6 h7 h8 h9) = word_of_int (fe_val (Limbs h0 h1 h2 h3 h4 h5 h6 h7 h8 h9) div p25519)"
    and "\<bar>fe_val (Limbs h0 h1 h2 h3 h4 h5 h6 h7 h8 h9) div p25519\<bar> \<le> 2"
proof -
  let ?l = "sint h0 + sint h1 * 2 ^ 26 + sint h2 * 2 ^ 51 + sint h3 * 2 ^ 77 + sint h4 * 2 ^ 102 + sint h5 * 2 ^ 128 + sint h6 * 2 ^ 153 + sint h7 * 2 ^ 179 + sint h8 * 2 ^ 204"
  have h: "\<bar>sint h0\<bar> \<le> 73819750" "\<bar>sint h1\<bar> \<le> 36909875" "\<bar>sint h2\<bar> \<le> 73819750" "\<bar>sint h3\<bar> \<le> 36909875" "\<bar>sint h4\<bar> \<le> 73819750" "\<bar>sint h5\<bar> \<le> 36909875" "\<bar>sint h6\<bar> \<le> 73819750" "\<bar>sint h7\<bar> \<le> 36909875" "\<bar>sint h8\<bar> \<le> 73819750" "\<bar>sint h9\<bar> \<le> 36909875"
    using assms by (simp_all add: fe_sum_post_def)
  have l: "\<bar>?l\<bar> \<le> 2 ^ 231"
    by (rule order.trans, (rule abs_sum_le | rule abs_times_le | rule h)+) simp
  show "fe_tobytes_q (Limbs h0 h1 h2 h3 h4 h5 h6 h7 h8 h9) = word_of_int (fe_val (Limbs h0 h1 h2 h3 h4 h5 h6 h7 h8 h9) div p25519)"
    unfolding fe_tobytes_q_eq [OF assms] unfolding limbs_val_split tobytes_quotient [OF h(10) l] ..
  have "\<bar>fe_val (Limbs h0 h1 h2 h3 h4 h5 h6 h7 h8 h9)\<bar> < 2 * p25519"
    using h(10) l unfolding limbs_val_split p25519_def by simp
  then show "\<bar>fe_val (Limbs h0 h1 h2 h3 h4 h5 h6 h7 h8 h9) div p25519\<bar> \<le> 2" by (rule abs_quotient_le) (simp add: p25519_def)
qed

lemma fe_tobytes_limbs_correct:
  assumes "fe_sum_post f"
  shows "\<exists>R. fe_tobytes_limbs f = map_limbs word_of_int R \<and> limbs_canonical R \<and> limbs_val R = fe_val f mod p25519"
proof -
  obtain h0 h1 h2 h3 h4 h5 h6 h7 h8 h9 where F: "f = Limbs h0 h1 h2 h3 h4 h5 h6 h7 h8 h9" by (cases f)
  have h: "\<bar>sint h0\<bar> \<le> 73819750" "\<bar>sint h1\<bar> \<le> 36909875" "\<bar>sint h2\<bar> \<le> 73819750" "\<bar>sint h3\<bar> \<le> 36909875" "\<bar>sint h4\<bar> \<le> 73819750" "\<bar>sint h5\<bar> \<le> 36909875" "\<bar>sint h6\<bar> \<le> 73819750" "\<bar>sint h7\<bar> \<le> 36909875" "\<bar>sint h8\<bar> \<le> 73819750" "\<bar>sint h9\<bar> \<le> 36909875" and h0: "\<bar>0 :: int\<bar> \<le> 0"
    using assms by (simp_all add: F fe_sum_post_def)
  define q z0 where "q = fe_val f div p25519" and "z0 = sint h0 + 19 * q"
  have q: "fe_tobytes_q f = word_of_int q" "\<bar>q\<bar> \<le> 2" using fe_tobytes_quotient [OF assms [unfolded F]] by (simp_all add: q_def F)
  have z: "\<bar>z0\<bar> \<le> 73819788" using h(1) q(2) unfolding z0_def by linarith
  from floor_carry_step [OF z h(2), of 26 2] obtain x0 y1
    where s0: "floor_carry 26 (word_of_int z0) (word_of_int (sint h1)) = (word_of_int x0, word_of_int y1)"
      "x0 + 2 ^ 26 * y1 = z0 + 2 ^ 26 * sint h1" "0 \<le> x0" "x0 < 67108864" "\<bar>y1\<bar> \<le> 36909877" by auto
  from floor_carry_step [OF s0(5) h(3), of 25 2] obtain x1 y2
    where s1: "floor_carry 25 (word_of_int y1) (word_of_int (sint h2)) = (word_of_int x1, word_of_int y2)"
      "x1 + 2 ^ 25 * y2 = y1 + 2 ^ 25 * sint h2" "0 \<le> x1" "x1 < 33554432" "\<bar>y2\<bar> \<le> 73819752" by auto
  from floor_carry_step [OF s1(5) h(4), of 26 2] obtain x2 y3
    where s2: "floor_carry 26 (word_of_int y2) (word_of_int (sint h3)) = (word_of_int x2, word_of_int y3)"
      "x2 + 2 ^ 26 * y3 = y2 + 2 ^ 26 * sint h3" "0 \<le> x2" "x2 < 67108864" "\<bar>y3\<bar> \<le> 36909877" by auto
  from floor_carry_step [OF s2(5) h(5), of 25 2] obtain x3 y4
    where s3: "floor_carry 25 (word_of_int y3) (word_of_int (sint h4)) = (word_of_int x3, word_of_int y4)"
      "x3 + 2 ^ 25 * y4 = y3 + 2 ^ 25 * sint h4" "0 \<le> x3" "x3 < 33554432" "\<bar>y4\<bar> \<le> 73819752" by auto
  from floor_carry_step [OF s3(5) h(6), of 26 2] obtain x4 y5
    where s4: "floor_carry 26 (word_of_int y4) (word_of_int (sint h5)) = (word_of_int x4, word_of_int y5)"
      "x4 + 2 ^ 26 * y5 = y4 + 2 ^ 26 * sint h5" "0 \<le> x4" "x4 < 67108864" "\<bar>y5\<bar> \<le> 36909877" by auto
  from floor_carry_step [OF s4(5) h(7), of 25 2] obtain x5 y6
    where s5: "floor_carry 25 (word_of_int y5) (word_of_int (sint h6)) = (word_of_int x5, word_of_int y6)"
      "x5 + 2 ^ 25 * y6 = y5 + 2 ^ 25 * sint h6" "0 \<le> x5" "x5 < 33554432" "\<bar>y6\<bar> \<le> 73819752" by auto
  from floor_carry_step [OF s5(5) h(8), of 26 2] obtain x6 y7
    where s6: "floor_carry 26 (word_of_int y6) (word_of_int (sint h7)) = (word_of_int x6, word_of_int y7)"
      "x6 + 2 ^ 26 * y7 = y6 + 2 ^ 26 * sint h7" "0 \<le> x6" "x6 < 67108864" "\<bar>y7\<bar> \<le> 36909877" by auto
  from floor_carry_step [OF s6(5) h(9), of 25 2] obtain x7 y8
    where s7: "floor_carry 25 (word_of_int y7) (word_of_int (sint h8)) = (word_of_int x7, word_of_int y8)"
      "x7 + 2 ^ 25 * y8 = y7 + 2 ^ 25 * sint h8" "0 \<le> x7" "x7 < 33554432" "\<bar>y8\<bar> \<le> 73819752" by auto
  from floor_carry_step [OF s7(5) h(10), of 26 2] obtain x8 y9
    where s8: "floor_carry 26 (word_of_int y8) (word_of_int (sint h9)) = (word_of_int x8, word_of_int y9)"
      "x8 + 2 ^ 26 * y9 = y8 + 2 ^ 26 * sint h9" "0 \<le> x8" "x8 < 67108864" "\<bar>y9\<bar> \<le> 36909877" by auto
  from floor_carry_step [OF s8(5) h0, of 25 2] obtain x9 c9
    where s9: "floor_carry 25 (word_of_int y9) (word_of_int 0) = (word_of_int x9, word_of_int c9)"
      "x9 + 2 ^ 25 * c9 = y9 + 2 ^ 25 * 0" "0 \<le> x9" "x9 < 33554432" "\<bar>c9\<bar> \<le> 2" by auto
  let ?R = "Limbs x0 x1 x2 x3 x4 x5 x6 x7 x8 x9"
  have "h0 + 19 * fe_tobytes_q f = word_of_int z0" by (simp add: q(1) z0_def)
  then have eq: "fe_tobytes_limbs f = map_limbs word_of_int ?R"
    using s9(1) unfolding fe_tobytes_limbs_def F limbs.case Let_def
    by (simp only: s0(1) [simplified] s1(1) [simplified] s2(1) [simplified] s3(1) [simplified] s4(1) [simplified] s5(1) [simplified] s6(1) [simplified] s7(1) [simplified] s8(1) [simplified] prod.case limbs.map floor_carry_def [of 25 "word_of_int y9"] Let_def prod.inject)
  have can: "limbs_canonical ?R" using s0(3,4) s1(3,4) s2(3,4) s3(3,4) s4(3,4) s5(3,4) s6(3,4) s7(3,4) s8(3,4) s9(3,4) by simp
  have sum: "limbs_val ?R + 2 ^ 255 * c9 = fe_val f + 19 * q"
    using s0(2) s1(2) s2(2) s3(2) s4(2) s5(2) s6(2) s7(2) s8(2) s9(2) by (simp add: F fe_val_def z0_def)
  have "limbs_val ?R = fe_val f mod p25519"
    by (rule canonical_residue [OF can sum q_def])
  with eq can show ?thesis by blast
qed

section \<open>The bytes of an element\<close>

fun le_val :: "byte list \<Rightarrow> int" where
  "le_val [] = 0"
| "le_val (b # bs) = uint b + 256 * le_val bs"

lemma uint_ucast_byte: "uint (ucast (word_of_int y :: i32) :: byte) = y mod 256"
proof -
  have "(ucast (word_of_int y :: i32) :: byte) = word_of_int y" by (rule bit_word_eqI) (simp add: bit_simps)
  then show ?thesis by (simp add: uint_word_of_int)
qed

lemma byte_shift:
  assumes "0 \<le> x \<and> x < b" and "b \<le> 2 ^ 31"
  shows "uint (ucast (signed_drop_bit k (word_of_int x :: i32)) :: byte) = x div 2 ^ k mod 256"
  using assms by (simp add: signed_drop_bit_i32 uint_ucast_byte)

lemma or_shifted:
  fixes a y :: int
  assumes "0 \<le> a" and "a < 2 ^ m"
  shows "a OR push_bit m y = a + 2 ^ m * y"
proof -
  have a: "take_bit m a = a" using assms by (simp add: take_bit_int_eq_self)
  have "\<not> bit (take_bit m a) n \<or> \<not> bit (push_bit m y) n" for n by (auto simp: bit_simps)
  then have "take_bit m a + push_bit m y = take_bit m a OR push_bit m y" by (rule disjunctive_add)
  then show ?thesis by (simp add: a push_bit_eq_mult mult.commute)
qed

lemma div_less_pow:
  fixes x :: int
  assumes "x < 2 ^ m * 2 ^ k"
  shows "x div 2 ^ k < 2 ^ m"
proof -
  have "2 ^ k * (x div 2 ^ k) \<le> x"
    using mult_div_mod_eq [of "2 ^ k" x] pos_mod_sign [of "2 ^ k" x] zero_less_power [of "2 :: int" k] by linarith
  also have "x < 2 ^ k * 2 ^ m" using assms by (simp only: mult.commute)
  finally have "2 ^ k * (x div 2 ^ k) < 2 ^ k * 2 ^ m" .
  then show ?thesis by (simp only: mult_less_cancel_left_pos zero_less_power zero_less_numeral)
qed

lemma div_less_bound: "0 \<le> x \<and> x < b \<Longrightarrow> b \<le> 256 * 2 ^ k \<Longrightarrow> x div 2 ^ k mod 256 = x div 2 ^ k" for x :: int
  using div_less_pow [of x 8 k] by (intro mod_pos_pos_trivial) (simp_all add: pos_imp_zdiv_nonneg_iff)

lemma byte_or:
  assumes "0 \<le> x \<and> x < b" and "b \<le> 2 ^ 31" and "b \<le> 2 ^ (k + m)" and "m \<le> 8"
  shows "uint (ucast (signed_drop_bit k (word_of_int x :: i32) OR push_bit m (word_of_int y)) :: byte) =
    x div 2 ^ k + 2 ^ m * (y mod 2 ^ (8 - m))"
proof -
  let ?a = "x div 2 ^ k"
  have "x < 2 ^ m * 2 ^ k" using assms(1,3) by (simp add: power_add mult.commute)
  then have "?a < 2 ^ m" by (rule div_less_pow)
  moreover have "0 \<le> ?a" using assms(1) by (simp add: pos_imp_zdiv_nonneg_iff)
  ultimately have a: "?a < 2 ^ m" "0 \<le> ?a" by auto
  have "signed_drop_bit k (word_of_int x :: i32) OR push_bit m (word_of_int y) = word_of_int (?a OR push_bit m y)"
    using assms(1,2) by (simp add: signed_drop_bit_i32 of_int_or_eq of_int_push_bit)
  then have "uint (ucast (signed_drop_bit k (word_of_int x :: i32) OR push_bit m (word_of_int y)) :: byte) = (?a + 2 ^ m * y) mod 256"
    by (simp only: uint_ucast_byte or_shifted a)
  also have "(256 :: int) = 2 ^ m * 2 ^ (8 - m)" using assms(4) by (simp flip: power_add)
  also have "(?a + 2 ^ m * y) mod (2 ^ m * 2 ^ (8 - m)) = ?a + 2 ^ m * (y mod 2 ^ (8 - m))"
    using a by (simp add: zmod_zmult2_eq)
  finally show ?thesis .
qed

lemma limb_pieces:
  fixes x :: int
  assumes "b = a + 8" and "c = a + 16"
  obtains p0 p1 p2 p3 where "x mod 2 ^ a = p0" "x div 2 ^ a mod 256 = p1" "x div 2 ^ b mod 256 = p2" "x div 2 ^ c = p3"
    "x = p0 + 2 ^ a * p1 + 2 ^ b * p2 + 2 ^ c * p3"
proof -
  define y z where "y = x div 2 ^ a" and "z = y div 256"
  have y: "x div 2 ^ a = y" by (simp add: y_def)
  have z: "x div 2 ^ b = z" by (simp add: assms y_def z_def power_add zdiv_zmult2_eq)
  have w: "x div 2 ^ c = z div 256"
    using zdiv_zmult2_eq [of 256 y 256] by (simp add: assms y_def z_def power_add zdiv_zmult2_eq)
  have bc: "2 ^ b = (2 ^ a * 256 :: int)" "2 ^ c = (2 ^ a * (256 * 256) :: int)" by (simp_all add: assms power_add)
  have "x = x mod 2 ^ a + 2 ^ a * y" "y = y mod 256 + 256 * z" "z = z mod 256 + 256 * (z div 256)"
    by (simp_all add: y_def z_def)
  then have "x = x mod 2 ^ a + 2 ^ a * (y mod 256 + 256 * (z mod 256 + 256 * (z div 256)))" by metis
  then have "x = x mod 2 ^ a + 2 ^ a * (y mod 256) + 2 ^ b * (z mod 256) + 2 ^ c * (z div 256)"
    by (simp only: bc distrib_left mult.assoc add.assoc)
  with y z w show ?thesis by (intro that) (simp_all only:)
qed

lemma tobytes_low:
  assumes r0: "0 \<le> x0 \<and> x0 < 67108864" and r1: "0 \<le> x1 \<and> x1 < 33554432" and r2: "0 \<le> x2 \<and> x2 < 67108864" and r3: "0 \<le> x3 \<and> x3 < 33554432" and r4: "0 \<le> x4 \<and> x4 < 67108864"
  shows "le_val [ucast (signed_drop_bit 0 (word_of_int x0 :: i32)),
      ucast (signed_drop_bit 8 (word_of_int x0 :: i32)),
      ucast (signed_drop_bit 16 (word_of_int x0 :: i32)),
      ucast (signed_drop_bit 24 (word_of_int x0 :: i32) OR push_bit 2 (word_of_int x1)),
      ucast (signed_drop_bit 6 (word_of_int x1 :: i32)),
      ucast (signed_drop_bit 14 (word_of_int x1 :: i32)),
      ucast (signed_drop_bit 22 (word_of_int x1 :: i32) OR push_bit 3 (word_of_int x2)),
      ucast (signed_drop_bit 5 (word_of_int x2 :: i32)),
      ucast (signed_drop_bit 13 (word_of_int x2 :: i32)),
      ucast (signed_drop_bit 21 (word_of_int x2 :: i32) OR push_bit 5 (word_of_int x3)),
      ucast (signed_drop_bit 3 (word_of_int x3 :: i32)),
      ucast (signed_drop_bit 11 (word_of_int x3 :: i32)),
      ucast (signed_drop_bit 19 (word_of_int x3 :: i32) OR push_bit 6 (word_of_int x4)),
      ucast (signed_drop_bit 2 (word_of_int x4 :: i32)),
      ucast (signed_drop_bit 10 (word_of_int x4 :: i32)),
      ucast (signed_drop_bit 18 (word_of_int x4 :: i32))] = x0 + x1 * 2 ^ 26 + x2 * 2 ^ 51 + x3 * 2 ^ 77 + x4 * 2 ^ 102"
proof -
  have e: "(10 :: nat) = 2 + 8" "(18 :: nat) = 2 + 16" "(11 :: nat) = 3 + 8" "(19 :: nat) = 3 + 16" "(13 :: nat) = 5 + 8" "(21 :: nat) = 5 + 16" "(14 :: nat) = 6 + 8" "(22 :: nat) = 6 + 16" "(16 :: nat) = 8 + 8" "(24 :: nat) = 8 + 16"
    by simp_all
  obtain p00 p01 p02 p03 where d0: "x0 mod 2 ^ 8 = p00" "x0 div 2 ^ 8 mod 256 = p01" "x0 div 2 ^ 16 mod 256 = p02"
    "x0 div 2 ^ 24 = p03" "x0 = p00 + 2 ^ 8 * p01 + 2 ^ 16 * p02 + 2 ^ 24 * p03"
    by (rule limb_pieces [OF e(9) e(10), of x0]) (rule that)
  obtain p10 p11 p12 p13 where d1: "x1 mod 2 ^ 6 = p10" "x1 div 2 ^ 6 mod 256 = p11" "x1 div 2 ^ 14 mod 256 = p12"
    "x1 div 2 ^ 22 = p13" "x1 = p10 + 2 ^ 6 * p11 + 2 ^ 14 * p12 + 2 ^ 22 * p13"
    by (rule limb_pieces [OF e(7) e(8), of x1]) (rule that)
  obtain p20 p21 p22 p23 where d2: "x2 mod 2 ^ 5 = p20" "x2 div 2 ^ 5 mod 256 = p21" "x2 div 2 ^ 13 mod 256 = p22"
    "x2 div 2 ^ 21 = p23" "x2 = p20 + 2 ^ 5 * p21 + 2 ^ 13 * p22 + 2 ^ 21 * p23"
    by (rule limb_pieces [OF e(5) e(6), of x2]) (rule that)
  obtain p30 p31 p32 p33 where d3: "x3 mod 2 ^ 3 = p30" "x3 div 2 ^ 3 mod 256 = p31" "x3 div 2 ^ 11 mod 256 = p32"
    "x3 div 2 ^ 19 = p33" "x3 = p30 + 2 ^ 3 * p31 + 2 ^ 11 * p32 + 2 ^ 19 * p33"
    by (rule limb_pieces [OF e(3) e(4), of x3]) (rule that)
  obtain p40 p41 p42 p43 where d4: "x4 mod 2 ^ 2 = p40" "x4 div 2 ^ 2 mod 256 = p41" "x4 div 2 ^ 10 mod 256 = p42"
    "x4 div 2 ^ 18 = p43" "x4 = p40 + 2 ^ 2 * p41 + 2 ^ 10 * p42 + 2 ^ 18 * p43"
    by (rule limb_pieces [OF e(1) e(2), of x4]) (rule that)
  have u0: "uint (ucast (signed_drop_bit 0 (word_of_int x0 :: i32)) :: byte) = p00"
    using byte_shift [OF r0, of 0] d0(1) by simp
  have u1: "uint (ucast (signed_drop_bit 8 (word_of_int x0 :: i32)) :: byte) = p01"
    using byte_shift [OF r0, of 8] d0(2) by simp
  have u2: "uint (ucast (signed_drop_bit 16 (word_of_int x0 :: i32)) :: byte) = p02"
    using byte_shift [OF r0, of 16] d0(3) by simp
  have u3: "uint (ucast (signed_drop_bit 24 (word_of_int x0 :: i32) OR push_bit 2 (word_of_int x1)) :: byte) = p03 + 2 ^ 2 * p10"
    using byte_or [OF r0, of 24 2 x1] d0(4) d1(1) by simp
  have u4: "uint (ucast (signed_drop_bit 6 (word_of_int x1 :: i32)) :: byte) = p11"
    using byte_shift [OF r1, of 6] d1(2) by simp
  have u5: "uint (ucast (signed_drop_bit 14 (word_of_int x1 :: i32)) :: byte) = p12"
    using byte_shift [OF r1, of 14] d1(3) by simp
  have u6: "uint (ucast (signed_drop_bit 22 (word_of_int x1 :: i32) OR push_bit 3 (word_of_int x2)) :: byte) = p13 + 2 ^ 3 * p20"
    using byte_or [OF r1, of 22 3 x2] d1(4) d2(1) by simp
  have u7: "uint (ucast (signed_drop_bit 5 (word_of_int x2 :: i32)) :: byte) = p21"
    using byte_shift [OF r2, of 5] d2(2) by simp
  have u8: "uint (ucast (signed_drop_bit 13 (word_of_int x2 :: i32)) :: byte) = p22"
    using byte_shift [OF r2, of 13] d2(3) by simp
  have u9: "uint (ucast (signed_drop_bit 21 (word_of_int x2 :: i32) OR push_bit 5 (word_of_int x3)) :: byte) = p23 + 2 ^ 5 * p30"
    using byte_or [OF r2, of 21 5 x3] d2(4) d3(1) by simp
  have u10: "uint (ucast (signed_drop_bit 3 (word_of_int x3 :: i32)) :: byte) = p31"
    using byte_shift [OF r3, of 3] d3(2) by simp
  have u11: "uint (ucast (signed_drop_bit 11 (word_of_int x3 :: i32)) :: byte) = p32"
    using byte_shift [OF r3, of 11] d3(3) by simp
  have u12: "uint (ucast (signed_drop_bit 19 (word_of_int x3 :: i32) OR push_bit 6 (word_of_int x4)) :: byte) = p33 + 2 ^ 6 * p40"
    using byte_or [OF r3, of 19 6 x4] d3(4) d4(1) by simp
  have u13: "uint (ucast (signed_drop_bit 2 (word_of_int x4 :: i32)) :: byte) = p41"
    using byte_shift [OF r4, of 2] d4(2) by simp
  have u14: "uint (ucast (signed_drop_bit 10 (word_of_int x4 :: i32)) :: byte) = p42"
    using byte_shift [OF r4, of 10] d4(3) by simp
  have u15: "uint (ucast (signed_drop_bit 18 (word_of_int x4 :: i32)) :: byte) = p43"
    using byte_shift [OF r4, of 18] d4(4) div_less_bound [OF r4, of 18] by simp
  show ?thesis
    unfolding le_val.simps u0 u1 u2 u3 u4 u5 u6 u7 u8 u9 u10 u11 u12 u13 u14 u15
    using d0(5) d1(5) d2(5) d3(5) d4(5) by simp
qed

lemma tobytes_high:
  assumes r5: "0 \<le> x5 \<and> x5 < 33554432" and r6: "0 \<le> x6 \<and> x6 < 67108864" and r7: "0 \<le> x7 \<and> x7 < 33554432" and r8: "0 \<le> x8 \<and> x8 < 67108864" and r9: "0 \<le> x9 \<and> x9 < 33554432"
  shows "le_val [ucast (signed_drop_bit 0 (word_of_int x5 :: i32)),
      ucast (signed_drop_bit 8 (word_of_int x5 :: i32)),
      ucast (signed_drop_bit 16 (word_of_int x5 :: i32)),
      ucast (signed_drop_bit 24 (word_of_int x5 :: i32) OR push_bit 1 (word_of_int x6)),
      ucast (signed_drop_bit 7 (word_of_int x6 :: i32)),
      ucast (signed_drop_bit 15 (word_of_int x6 :: i32)),
      ucast (signed_drop_bit 23 (word_of_int x6 :: i32) OR push_bit 3 (word_of_int x7)),
      ucast (signed_drop_bit 5 (word_of_int x7 :: i32)),
      ucast (signed_drop_bit 13 (word_of_int x7 :: i32)),
      ucast (signed_drop_bit 21 (word_of_int x7 :: i32) OR push_bit 4 (word_of_int x8)),
      ucast (signed_drop_bit 4 (word_of_int x8 :: i32)),
      ucast (signed_drop_bit 12 (word_of_int x8 :: i32)),
      ucast (signed_drop_bit 20 (word_of_int x8 :: i32) OR push_bit 6 (word_of_int x9)),
      ucast (signed_drop_bit 2 (word_of_int x9 :: i32)),
      ucast (signed_drop_bit 10 (word_of_int x9 :: i32)),
      ucast (signed_drop_bit 18 (word_of_int x9 :: i32))] = x5 + x6 * 2 ^ 25 + x7 * 2 ^ 51 + x8 * 2 ^ 76 + x9 * 2 ^ 102"
proof -
  have e: "(10 :: nat) = 2 + 8" "(18 :: nat) = 2 + 16" "(12 :: nat) = 4 + 8" "(20 :: nat) = 4 + 16" "(13 :: nat) = 5 + 8" "(21 :: nat) = 5 + 16" "(15 :: nat) = 7 + 8" "(23 :: nat) = 7 + 16" "(16 :: nat) = 8 + 8" "(24 :: nat) = 8 + 16"
    by simp_all
  obtain p50 p51 p52 p53 where d5: "x5 mod 2 ^ 8 = p50" "x5 div 2 ^ 8 mod 256 = p51" "x5 div 2 ^ 16 mod 256 = p52"
    "x5 div 2 ^ 24 = p53" "x5 = p50 + 2 ^ 8 * p51 + 2 ^ 16 * p52 + 2 ^ 24 * p53"
    by (rule limb_pieces [OF e(9) e(10), of x5]) (rule that)
  obtain p60 p61 p62 p63 where d6: "x6 mod 2 ^ 7 = p60" "x6 div 2 ^ 7 mod 256 = p61" "x6 div 2 ^ 15 mod 256 = p62"
    "x6 div 2 ^ 23 = p63" "x6 = p60 + 2 ^ 7 * p61 + 2 ^ 15 * p62 + 2 ^ 23 * p63"
    by (rule limb_pieces [OF e(7) e(8), of x6]) (rule that)
  obtain p70 p71 p72 p73 where d7: "x7 mod 2 ^ 5 = p70" "x7 div 2 ^ 5 mod 256 = p71" "x7 div 2 ^ 13 mod 256 = p72"
    "x7 div 2 ^ 21 = p73" "x7 = p70 + 2 ^ 5 * p71 + 2 ^ 13 * p72 + 2 ^ 21 * p73"
    by (rule limb_pieces [OF e(5) e(6), of x7]) (rule that)
  obtain p80 p81 p82 p83 where d8: "x8 mod 2 ^ 4 = p80" "x8 div 2 ^ 4 mod 256 = p81" "x8 div 2 ^ 12 mod 256 = p82"
    "x8 div 2 ^ 20 = p83" "x8 = p80 + 2 ^ 4 * p81 + 2 ^ 12 * p82 + 2 ^ 20 * p83"
    by (rule limb_pieces [OF e(3) e(4), of x8]) (rule that)
  obtain p90 p91 p92 p93 where d9: "x9 mod 2 ^ 2 = p90" "x9 div 2 ^ 2 mod 256 = p91" "x9 div 2 ^ 10 mod 256 = p92"
    "x9 div 2 ^ 18 = p93" "x9 = p90 + 2 ^ 2 * p91 + 2 ^ 10 * p92 + 2 ^ 18 * p93"
    by (rule limb_pieces [OF e(1) e(2), of x9]) (rule that)
  have u16: "uint (ucast (signed_drop_bit 0 (word_of_int x5 :: i32)) :: byte) = p50"
    using byte_shift [OF r5, of 0] d5(1) by simp
  have u17: "uint (ucast (signed_drop_bit 8 (word_of_int x5 :: i32)) :: byte) = p51"
    using byte_shift [OF r5, of 8] d5(2) by simp
  have u18: "uint (ucast (signed_drop_bit 16 (word_of_int x5 :: i32)) :: byte) = p52"
    using byte_shift [OF r5, of 16] d5(3) by simp
  have u19: "uint (ucast (signed_drop_bit 24 (word_of_int x5 :: i32) OR push_bit 1 (word_of_int x6)) :: byte) = p53 + 2 ^ 1 * p60"
    using byte_or [OF r5, of 24 1 x6] d5(4) d6(1) by simp
  have u20: "uint (ucast (signed_drop_bit 7 (word_of_int x6 :: i32)) :: byte) = p61"
    using byte_shift [OF r6, of 7] d6(2) by simp
  have u21: "uint (ucast (signed_drop_bit 15 (word_of_int x6 :: i32)) :: byte) = p62"
    using byte_shift [OF r6, of 15] d6(3) by simp
  have u22: "uint (ucast (signed_drop_bit 23 (word_of_int x6 :: i32) OR push_bit 3 (word_of_int x7)) :: byte) = p63 + 2 ^ 3 * p70"
    using byte_or [OF r6, of 23 3 x7] d6(4) d7(1) by simp
  have u23: "uint (ucast (signed_drop_bit 5 (word_of_int x7 :: i32)) :: byte) = p71"
    using byte_shift [OF r7, of 5] d7(2) by simp
  have u24: "uint (ucast (signed_drop_bit 13 (word_of_int x7 :: i32)) :: byte) = p72"
    using byte_shift [OF r7, of 13] d7(3) by simp
  have u25: "uint (ucast (signed_drop_bit 21 (word_of_int x7 :: i32) OR push_bit 4 (word_of_int x8)) :: byte) = p73 + 2 ^ 4 * p80"
    using byte_or [OF r7, of 21 4 x8] d7(4) d8(1) by simp
  have u26: "uint (ucast (signed_drop_bit 4 (word_of_int x8 :: i32)) :: byte) = p81"
    using byte_shift [OF r8, of 4] d8(2) by simp
  have u27: "uint (ucast (signed_drop_bit 12 (word_of_int x8 :: i32)) :: byte) = p82"
    using byte_shift [OF r8, of 12] d8(3) by simp
  have u28: "uint (ucast (signed_drop_bit 20 (word_of_int x8 :: i32) OR push_bit 6 (word_of_int x9)) :: byte) = p83 + 2 ^ 6 * p90"
    using byte_or [OF r8, of 20 6 x9] d8(4) d9(1) by simp
  have u29: "uint (ucast (signed_drop_bit 2 (word_of_int x9 :: i32)) :: byte) = p91"
    using byte_shift [OF r9, of 2] d9(2) by simp
  have u30: "uint (ucast (signed_drop_bit 10 (word_of_int x9 :: i32)) :: byte) = p92"
    using byte_shift [OF r9, of 10] d9(3) by simp
  have u31: "uint (ucast (signed_drop_bit 18 (word_of_int x9 :: i32)) :: byte) = p93"
    using byte_shift [OF r9, of 18] d9(4) div_less_bound [OF r9, of 18] by simp
  show ?thesis
    unfolding le_val.simps u16 u17 u18 u19 u20 u21 u22 u23 u24 u25 u26 u27 u28 u29 u30 u31
    using d5(5) d6(5) d7(5) d8(5) d9(5) by simp
qed

lemma le_val_append: "le_val (xs @ ys) = le_val xs + 256 ^ length xs * le_val ys"
  by (induction xs) (simp_all add: algebra_simps)

lemma length_fe_tobytes: "length (fe_tobytes f) = 32"
  by (cases "fe_tobytes_limbs f") (simp add: fe_tobytes_def)

lemma fe_tobytes_le_val:
  assumes "fe_sum_post f"
  shows "le_val (fe_tobytes f) = fe_val f mod p25519"
proof -
  obtain R where R: "fe_tobytes_limbs f = map_limbs word_of_int R" "limbs_canonical R" "limbs_val R = fe_val f mod p25519"
    using fe_tobytes_limbs_correct [OF assms] by blast
  obtain x0 x1 x2 x3 x4 x5 x6 x7 x8 x9 where X: "R = Limbs x0 x1 x2 x3 x4 x5 x6 x7 x8 x9" by (cases R)
  have r0: "0 \<le> x0 \<and> x0 < 67108864" and r1: "0 \<le> x1 \<and> x1 < 33554432" and r2: "0 \<le> x2 \<and> x2 < 67108864" and r3: "0 \<le> x3 \<and> x3 < 33554432" and r4: "0 \<le> x4 \<and> x4 < 67108864" and r5: "0 \<le> x5 \<and> x5 < 33554432" and r6: "0 \<le> x6 \<and> x6 < 67108864" and r7: "0 \<le> x7 \<and> x7 < 33554432" and r8: "0 \<le> x8 \<and> x8 < 67108864" and r9: "0 \<le> x9 \<and> x9 < 33554432"
    using R(2) unfolding X limbs_canonical.simps by blast+
  note lo = tobytes_low [OF r0 r1 r2 r3 r4] and hi = tobytes_high [OF r5 r6 r7 r8 r9]
  have "fe_tobytes f =
     [ucast (signed_drop_bit 0 (word_of_int x0 :: i32)),
      ucast (signed_drop_bit 8 (word_of_int x0 :: i32)),
      ucast (signed_drop_bit 16 (word_of_int x0 :: i32)),
      ucast (signed_drop_bit 24 (word_of_int x0 :: i32) OR push_bit 2 (word_of_int x1)),
      ucast (signed_drop_bit 6 (word_of_int x1 :: i32)),
      ucast (signed_drop_bit 14 (word_of_int x1 :: i32)),
      ucast (signed_drop_bit 22 (word_of_int x1 :: i32) OR push_bit 3 (word_of_int x2)),
      ucast (signed_drop_bit 5 (word_of_int x2 :: i32)),
      ucast (signed_drop_bit 13 (word_of_int x2 :: i32)),
      ucast (signed_drop_bit 21 (word_of_int x2 :: i32) OR push_bit 5 (word_of_int x3)),
      ucast (signed_drop_bit 3 (word_of_int x3 :: i32)),
      ucast (signed_drop_bit 11 (word_of_int x3 :: i32)),
      ucast (signed_drop_bit 19 (word_of_int x3 :: i32) OR push_bit 6 (word_of_int x4)),
      ucast (signed_drop_bit 2 (word_of_int x4 :: i32)),
      ucast (signed_drop_bit 10 (word_of_int x4 :: i32)),
      ucast (signed_drop_bit 18 (word_of_int x4 :: i32))] @
     [ucast (signed_drop_bit 0 (word_of_int x5 :: i32)),
      ucast (signed_drop_bit 8 (word_of_int x5 :: i32)),
      ucast (signed_drop_bit 16 (word_of_int x5 :: i32)),
      ucast (signed_drop_bit 24 (word_of_int x5 :: i32) OR push_bit 1 (word_of_int x6)),
      ucast (signed_drop_bit 7 (word_of_int x6 :: i32)),
      ucast (signed_drop_bit 15 (word_of_int x6 :: i32)),
      ucast (signed_drop_bit 23 (word_of_int x6 :: i32) OR push_bit 3 (word_of_int x7)),
      ucast (signed_drop_bit 5 (word_of_int x7 :: i32)),
      ucast (signed_drop_bit 13 (word_of_int x7 :: i32)),
      ucast (signed_drop_bit 21 (word_of_int x7 :: i32) OR push_bit 4 (word_of_int x8)),
      ucast (signed_drop_bit 4 (word_of_int x8 :: i32)),
      ucast (signed_drop_bit 12 (word_of_int x8 :: i32)),
      ucast (signed_drop_bit 20 (word_of_int x8 :: i32) OR push_bit 6 (word_of_int x9)),
      ucast (signed_drop_bit 2 (word_of_int x9 :: i32)),
      ucast (signed_drop_bit 10 (word_of_int x9 :: i32)),
      ucast (signed_drop_bit 18 (word_of_int x9 :: i32))]"
    unfolding fe_tobytes_def R(1) X limbs.map limbs.case by (simp only: append.simps)
  then have "le_val (fe_tobytes f) = limbs_val R"
    unfolding le_val_append by (simp only: le_val_append lo hi) (simp add: X)
  with R(3) show ?thesis by simp
qed

lemma foldl_or_byte: "foldl (OR) a bs = 0 \<longleftrightarrow> a = 0 \<and> (\<forall>b \<in> set bs. b = 0)" for a :: byte
proof (induction bs arbitrary: a)
  case (Cons b bs)
  have "a OR b = 0 \<longleftrightarrow> a = 0 \<and> b = 0" by (auto simp: bit_eq_iff bit_or_iff)
  with Cons show ?case by auto
qed simp

lemma le_val_nonneg: "0 \<le> le_val bs"
  by (induction bs) simp_all

lemma le_val_eq_0: "le_val bs = 0 \<longleftrightarrow> (\<forall>b \<in> set bs. b = 0)"
proof (induction bs)
  case (Cons b bs)
  have "le_val (b # bs) = 0 \<longleftrightarrow> uint b = 0 \<and> le_val bs = 0"
    unfolding le_val.simps using le_val_nonneg [of bs] uint_ge_0 [of b] by linarith
  then show ?case by (simp add: Cons.IH uint_0_iff)
qed simp

lemma nonzero_test: "signed_drop_bit 8 (ucast (b :: byte) - 1 :: i32) + 1 = (if b = 0 then 0 else 1)"
proof -
  have "0 \<le> uint b" "uint b < 256" using uint_lt2p [of b] by simp_all
  then have "\<bar>uint b - 1\<bar> < 2147483648" by linarith
  then have b: "\<bar>uint b - 1\<bar> < 2 ^ 31" by simp
  have "(ucast b :: i32) = word_of_int (uint b)" by simp
  then have "signed_drop_bit 8 (ucast b - 1 :: i32) = signed_drop_bit 8 (word_of_int (uint b - 1) :: i32)" by simp
  also have "\<dots> = word_of_int ((uint b - 1) div 2 ^ 8)"
    by (rule signed_drop_bit_i32 [OF b])
  also have "(uint b - 1) div 2 ^ 8 = (if b = 0 then - 1 else 0)"
  proof (cases "b = 0")
    case False
    then have "0 < uint b" by (simp add: uint_0_iff order.not_eq_order_implies_strict)
    with False uint_lt2p [of b] show ?thesis by simp
  qed simp
  finally show ?thesis by simp
qed

lemma fe_isnonzero_eq:
  assumes "fe_sum_post f"
  shows "fe_isnonzero f = (if p25519 dvd fe_val f then 0 else 1)"
proof -
  have "foldl (OR) 0 (fe_tobytes f) = 0 \<longleftrightarrow> p25519 dvd fe_val f"
    unfolding foldl_or_byte dvd_eq_mod_eq_0 fe_tobytes_le_val [OF assms, symmetric] le_val_eq_0 by simp
  then show ?thesis unfolding fe_isnonzero_def nonzero_test by simp
qed

lemma fe_isnegative_eq:
  assumes "fe_sum_post f"
  shows "uint (fe_isnegative f) = fe_val f mod p25519 mod 2"
proof (cases "fe_tobytes f")
  case Nil
  then show ?thesis using length_fe_tobytes [of f] by simp
next
  case (Cons b bs)
  then have "fe_val f mod p25519 = uint b + 256 * le_val bs" using fe_tobytes_le_val [OF assms] by simp
  moreover have "(uint b + 256 * le_val bs) mod 2 = uint b mod 2" by (simp add: mod_add_eq [symmetric])
  ultimately have "fe_val f mod p25519 mod 2 = uint b mod 2" by simp
  moreover have "uint (b AND 1) = uint b mod 2" by (simp add: and_one_eq uint_mod)
  ultimately show ?thesis by (simp add: fe_isnegative_def Cons)
qed

section \<open>Bytes and inverses\<close>

text \<open>C10. The bytes of a field element are the canonical ones: they are the 32 little-endian bytes of its value modulo
\<open>2 ^ 255 - 19\<close>, whichever limbs represent it; the zero test and the sign bit are those of the canonical value.\<close>

theorem fe_tobytes_canonical:
  assumes "fe_sum_post f"
  shows "length (fe_tobytes f) = 32 \<and> le_val (fe_tobytes f) = fe_val f mod p25519 \<and>
    fe_isnonzero f = (if p25519 dvd fe_val f then 0 else 1) \<and> uint (fe_isnegative f) = fe_val f mod p25519 mod 2"
  using length_fe_tobytes fe_tobytes_le_val [OF assms] fe_isnonzero_eq [OF assms] fe_isnegative_eq [OF assms] by blast

theorem fe_tobytes_canonical_witness:
  "le_val (fe_tobytes (fe_sub fe_0 fe_1)) = p25519 - 1 \<and> fe_isnonzero (fe_sub fe_0 fe_1) = 1"
proof -
  have "fe_sum_post (fe_sub fe_0 fe_1)" "fe_val (fe_sub fe_0 fe_1) = - 1"
    by (simp_all add: fe_sum_post_def fe_val_def fe_sub.simps fe_0_def fe_1_def)
  then show ?thesis using fe_tobytes_canonical [of "fe_sub fe_0 fe_1"] by (simp add: p25519_def)
qed

text \<open>C13. The addition chains compute the powers they are named after: the inverse is the power \<open>p - 2\<close>, and the candidate
for the root of \<open>u / v\<close> is \<open>u v\<^sup>3 (u v\<^sup>7) ^ ((p - 5) / 8)\<close>; both results are bounded like a product.\<close>

theorem fe_powers_correct:
  assumes "fe_mul_pre u" and "fe_mul_pre v"
  shows "fe_val (fe_invert u) mod p25519 = fe_val u ^ nat (p25519 - 2) mod p25519 \<and>
    fe_val (fe_divpowm1 u v) mod p25519 =
      fe_val u * fe_val v ^ 3 * (fe_val u * fe_val v ^ 7) ^ nat ((p25519 - 5) div 8) mod p25519"
proof -
  have r: "fe_rep (fe_val u) u" "fe_rep (fe_val v) v" using assms by (simp_all add: fe_rep_def)
  have n: "nat (p25519 - 2) = 2 ^ 255 - 21" "nat ((p25519 - 5) div 8) = 2 ^ 252 - 3" by (simp_all add: p25519_def)
  show ?thesis unfolding n using fe_invert_rep [OF r(1)] fe_divpowm1_rep [OF r] unfolding fe_rep_def by blast
qed

theorem fe_powers_correct_witness:
  "fe_val (fe_invert fe_1) mod p25519 = 1 \<and> fe_val (fe_divpowm1 fe_1 fe_1) mod p25519 = 1"
proof -
  have v: "fe_mul_pre fe_1" "fe_val fe_1 = 1" by (simp_all add: fe_mul_pre_def fe_val_def fe_1_def)
  show ?thesis using fe_powers_correct [OF v(1,1)] unfolding v(2) power_one by (simp add: p25519_def)
qed

end
