(* ===== verification/Scalars.thy ===== *)
theory Scalars
  imports Field_Bytes
begin

text \<open>
  Scalars modulo the order of the base point (\<open>src/src/crypto/crypto-ops.c\<close>: \<open>load_3\<close>, \<open>load_4\<close>, \<open>sc_reduce\<close>, \<open>sc_0\<close>,
  \<open>sc_reduce32\<close>, \<open>sc_add\<close>, \<open>sc_sub\<close>, \<open>sc_mulsub\<close>, \<open>signum\<close>, \<open>sc_check\<close>, \<open>sc_isnonzero\<close>). The local variables
  \<open>s0\<close>, \<open>s1\<close>, ... of type \<open>int64_t\<close> are the elements of a list of 64-bit words, each holding a digit of 21 bits. A line
  \<open>carry\<^sub>i = (s\<^sub>i + (1<<20)) >> 21; ...\<close> is \<open>sc_round i\<close>, a line \<open>carry\<^sub>i = s\<^sub>i >> 21; ...\<close> is \<open>sc_floor i\<close>, and six lines
  \<open>s\<^sub>k += s\<^sub>j * ...\<close> are \<open>sc_fold j\<close>. The bounds that exclude an overflow are computed by an abstract interpretation of the
  same steps on a list of bounds, so that a proof about a whole function is one evaluation.
\<close>

section \<open>The code\<close>

definition load_3 :: "byte list \<Rightarrow> u64" where
  "load_3 i = (let result = ucast (i ! 0);
      result = result OR push_bit 8 (ucast (i ! 1));
      result = result OR push_bit 16 (ucast (i ! 2))
    in result)"

definition load_4 :: "byte list \<Rightarrow> u64" where
  "load_4 i = (let result = ucast (i ! 0);
      result = result OR push_bit 8 (ucast (i ! 1));
      result = result OR push_bit 16 (ucast (i ! 2));
      result = result OR push_bit 24 (ucast (i ! 3))
    in result)"

text \<open>The twelve digits of a scalar of 32 bytes; the last one keeps all the 25 bits that are left.\<close>

definition sc_load :: "byte list \<Rightarrow> i64 list" where
  "sc_load s =
    [2097151 AND load_3 s, 2097151 AND drop_bit 5 (load_4 (drop 2 s)), 2097151 AND drop_bit 2 (load_3 (drop 5 s)),
     2097151 AND drop_bit 7 (load_4 (drop 7 s)), 2097151 AND drop_bit 4 (load_4 (drop 10 s)),
     2097151 AND drop_bit 1 (load_3 (drop 13 s)), 2097151 AND drop_bit 6 (load_4 (drop 15 s)),
     2097151 AND drop_bit 3 (load_3 (drop 18 s)), 2097151 AND load_3 (drop 21 s),
     2097151 AND drop_bit 5 (load_4 (drop 23 s)), 2097151 AND drop_bit 2 (load_3 (drop 26 s)),
     drop_bit 7 (load_4 (drop 28 s))]"

text \<open>The twenty-four digits of the 64 bytes that \<open>sc_reduce\<close> reads.\<close>

definition sc_load64 :: "byte list \<Rightarrow> i64 list" where
  "sc_load64 s =
    [2097151 AND load_3 s, 2097151 AND drop_bit 5 (load_4 (drop 2 s)), 2097151 AND drop_bit 2 (load_3 (drop 5 s)),
     2097151 AND drop_bit 7 (load_4 (drop 7 s)), 2097151 AND drop_bit 4 (load_4 (drop 10 s)),
     2097151 AND drop_bit 1 (load_3 (drop 13 s)), 2097151 AND drop_bit 6 (load_4 (drop 15 s)),
     2097151 AND drop_bit 3 (load_3 (drop 18 s)), 2097151 AND load_3 (drop 21 s),
     2097151 AND drop_bit 5 (load_4 (drop 23 s)), 2097151 AND drop_bit 2 (load_3 (drop 26 s)),
     2097151 AND drop_bit 7 (load_4 (drop 28 s)), 2097151 AND drop_bit 4 (load_4 (drop 31 s)),
     2097151 AND drop_bit 1 (load_3 (drop 34 s)), 2097151 AND drop_bit 6 (load_4 (drop 36 s)),
     2097151 AND drop_bit 3 (load_3 (drop 39 s)), 2097151 AND load_3 (drop 42 s),
     2097151 AND drop_bit 5 (load_4 (drop 44 s)), 2097151 AND drop_bit 2 (load_3 (drop 47 s)),
     2097151 AND drop_bit 7 (load_4 (drop 49 s)), 2097151 AND drop_bit 4 (load_4 (drop 52 s)),
     2097151 AND drop_bit 1 (load_3 (drop 55 s)), 2097151 AND drop_bit 6 (load_4 (drop 57 s)),
     drop_bit 3 (load_4 (drop 60 s))]"

definition sc_round :: "nat \<Rightarrow> i64 list \<Rightarrow> i64 list" where
  "sc_round i s = (let (x, y) = carry 21 (s ! i) (s ! Suc i) in s[i := x, Suc i := y])"

definition sc_floor :: "nat \<Rightarrow> i64 list \<Rightarrow> i64 list" where
  "sc_floor i s = (let c = signed_drop_bit 21 (s ! i) in s[i := s ! i - push_bit 21 c, Suc i := s ! Suc i + c])"

definition sc_fold :: "nat \<Rightarrow> i64 list \<Rightarrow> i64 list" where
  "sc_fold j s = (let x = s ! j in
    s[j - 12 := s ! (j - 12) + x * 666643, j - 11 := s ! (j - 11) + x * 470296, j - 10 := s ! (j - 10) + x * 654183,
      j - 9 := s ! (j - 9) - x * 997805, j - 8 := s ! (j - 8) + x * 136657, j - 7 := s ! (j - 7) - x * 683901])"

text \<open>The bytes of the result.\<close>

definition sc_pack :: "i64 list \<Rightarrow> byte list" where
  "sc_pack s =
    [ucast (signed_drop_bit 0 (s ! 0)), ucast (signed_drop_bit 8 (s ! 0)),
     ucast (signed_drop_bit 16 (s ! 0) OR push_bit 5 (s ! 1)), ucast (signed_drop_bit 3 (s ! 1)),
     ucast (signed_drop_bit 11 (s ! 1)), ucast (signed_drop_bit 19 (s ! 1) OR push_bit 2 (s ! 2)),
     ucast (signed_drop_bit 6 (s ! 2)), ucast (signed_drop_bit 14 (s ! 2) OR push_bit 7 (s ! 3)),
     ucast (signed_drop_bit 1 (s ! 3)), ucast (signed_drop_bit 9 (s ! 3)),
     ucast (signed_drop_bit 17 (s ! 3) OR push_bit 4 (s ! 4)), ucast (signed_drop_bit 4 (s ! 4)),
     ucast (signed_drop_bit 12 (s ! 4)), ucast (signed_drop_bit 20 (s ! 4) OR push_bit 1 (s ! 5)),
     ucast (signed_drop_bit 7 (s ! 5)), ucast (signed_drop_bit 15 (s ! 5) OR push_bit 6 (s ! 6)),
     ucast (signed_drop_bit 2 (s ! 6)), ucast (signed_drop_bit 10 (s ! 6)),
     ucast (signed_drop_bit 18 (s ! 6) OR push_bit 3 (s ! 7)), ucast (signed_drop_bit 5 (s ! 7)),
     ucast (signed_drop_bit 13 (s ! 7)), ucast (signed_drop_bit 0 (s ! 8)), ucast (signed_drop_bit 8 (s ! 8)),
     ucast (signed_drop_bit 16 (s ! 8) OR push_bit 5 (s ! 9)), ucast (signed_drop_bit 3 (s ! 9)),
     ucast (signed_drop_bit 11 (s ! 9)), ucast (signed_drop_bit 19 (s ! 9) OR push_bit 2 (s ! 10)),
     ucast (signed_drop_bit 6 (s ! 10)), ucast (signed_drop_bit 14 (s ! 10) OR push_bit 7 (s ! 11)),
     ucast (signed_drop_bit 1 (s ! 11)), ucast (signed_drop_bit 9 (s ! 11)), ucast (signed_drop_bit 17 (s ! 11))]"

text \<open>The part that every function ends with: thirteen digits are reduced to twelve canonical ones.\<close>

definition sc_finish :: "i64 list \<Rightarrow> byte list" where
  "sc_finish s = (let
      s = fold sc_round [0, 2, 4, 6, 8, 10, 1, 3, 5, 7, 9, 11] s;
      s = (sc_fold 12 s)[12 := 0];
      s = fold sc_floor [0, 1, 2, 3, 4, 5, 6, 7, 8, 9, 10, 11] s;
      s = sc_fold 12 s;
      s = fold sc_floor [0, 1, 2, 3, 4, 5, 6, 7, 8, 9, 10] s
    in sc_pack s)"

text \<open>The part that \<open>sc_reduce\<close> and \<open>sc_mulsub\<close> share: twenty-four digits are reduced to thirteen.\<close>

definition sc_high :: "i64 list \<Rightarrow> i64 list" where
  "sc_high s = (let
      s = fold sc_fold [23, 22, 21, 20, 19, 18] s;
      s = fold sc_round [6, 8, 10, 12, 14, 16, 7, 9, 11, 13, 15] s;
      s = fold sc_fold [17, 16, 15, 14, 13, 12] s
    in s[12 := 0])"

text \<open>The function reduces in place and leaves the upper half of the buffer as it is.\<close>

definition sc_reduce :: "byte list \<Rightarrow> byte list" where
  "sc_reduce s = sc_finish (sc_high (sc_load64 s)) @ drop 32 s"

definition sc_0 :: "byte list" where
  "sc_0 = replicate 32 0"

definition sc_reduce32 :: "byte list \<Rightarrow> byte list" where
  "sc_reduce32 s = sc_finish (sc_load s @ [0])"

definition sc_add :: "byte list \<Rightarrow> byte list \<Rightarrow> byte list" where
  "sc_add a b = sc_finish (map2 (+) (sc_load a) (sc_load b) @ [0])"

definition sc_sub :: "byte list \<Rightarrow> byte list \<Rightarrow> byte list" where
  "sc_sub a b = sc_finish (map2 (-) (sc_load a) (sc_load b) @ [0])"

text \<open>The digits of \<open>c - a * b\<close> before any carry.\<close>

definition sc_mulsub_sums :: "'a :: comm_ring_1 list \<Rightarrow> 'a list \<Rightarrow> 'a list \<Rightarrow> 'a list" where
  "sc_mulsub_sums a b c =
    [c ! 0 - a ! 0 * b ! 0,
     c ! 1 - (a ! 0 * b ! 1 + a ! 1 * b ! 0),
     c ! 2 - (a ! 0 * b ! 2 + a ! 1 * b ! 1 + a ! 2 * b ! 0),
     c ! 3 - (a ! 0 * b ! 3 + a ! 1 * b ! 2 + a ! 2 * b ! 1 + a ! 3 * b ! 0),
     c ! 4 - (a ! 0 * b ! 4 + a ! 1 * b ! 3 + a ! 2 * b ! 2 + a ! 3 * b ! 1 + a ! 4 * b ! 0),
     c ! 5 - (a ! 0 * b ! 5 + a ! 1 * b ! 4 + a ! 2 * b ! 3 + a ! 3 * b ! 2 + a ! 4 * b ! 1 + a ! 5 * b ! 0),
     c ! 6 - (a ! 0 * b ! 6 + a ! 1 * b ! 5 + a ! 2 * b ! 4 + a ! 3 * b ! 3 + a ! 4 * b ! 2 + a ! 5 * b ! 1 + a ! 6 * b ! 0),
     c ! 7 - (a ! 0 * b ! 7 + a ! 1 * b ! 6 + a ! 2 * b ! 5 + a ! 3 * b ! 4 + a ! 4 * b ! 3 + a ! 5 * b ! 2 + a ! 6 * b ! 1 + a ! 7 * b ! 0),
     c ! 8 - (a ! 0 * b ! 8 + a ! 1 * b ! 7 + a ! 2 * b ! 6 + a ! 3 * b ! 5 + a ! 4 * b ! 4 + a ! 5 * b ! 3 + a ! 6 * b ! 2 + a ! 7 * b ! 1 + a ! 8 * b ! 0),
     c ! 9 - (a ! 0 * b ! 9 + a ! 1 * b ! 8 + a ! 2 * b ! 7 + a ! 3 * b ! 6 + a ! 4 * b ! 5 + a ! 5 * b ! 4 + a ! 6 * b ! 3 + a ! 7 * b ! 2 + a ! 8 * b ! 1 + a ! 9 * b ! 0),
     c ! 10 - (a ! 0 * b ! 10 + a ! 1 * b ! 9 + a ! 2 * b ! 8 + a ! 3 * b ! 7 + a ! 4 * b ! 6 + a ! 5 * b ! 5 + a ! 6 * b ! 4 + a ! 7 * b ! 3 + a ! 8 * b ! 2 + a ! 9 * b ! 1 + a ! 10 * b ! 0),
     c ! 11 - (a ! 0 * b ! 11 + a ! 1 * b ! 10 + a ! 2 * b ! 9 + a ! 3 * b ! 8 + a ! 4 * b ! 7 + a ! 5 * b ! 6 + a ! 6 * b ! 5 + a ! 7 * b ! 4 + a ! 8 * b ! 3 + a ! 9 * b ! 2 + a ! 10 * b ! 1 + a ! 11 * b ! 0),
     - (a ! 1 * b ! 11 + a ! 2 * b ! 10 + a ! 3 * b ! 9 + a ! 4 * b ! 8 + a ! 5 * b ! 7 + a ! 6 * b ! 6 + a ! 7 * b ! 5 + a ! 8 * b ! 4 + a ! 9 * b ! 3 + a ! 10 * b ! 2 + a ! 11 * b ! 1),
     - (a ! 2 * b ! 11 + a ! 3 * b ! 10 + a ! 4 * b ! 9 + a ! 5 * b ! 8 + a ! 6 * b ! 7 + a ! 7 * b ! 6 + a ! 8 * b ! 5 + a ! 9 * b ! 4 + a ! 10 * b ! 3 + a ! 11 * b ! 2),
     - (a ! 3 * b ! 11 + a ! 4 * b ! 10 + a ! 5 * b ! 9 + a ! 6 * b ! 8 + a ! 7 * b ! 7 + a ! 8 * b ! 6 + a ! 9 * b ! 5 + a ! 10 * b ! 4 + a ! 11 * b ! 3),
     - (a ! 4 * b ! 11 + a ! 5 * b ! 10 + a ! 6 * b ! 9 + a ! 7 * b ! 8 + a ! 8 * b ! 7 + a ! 9 * b ! 6 + a ! 10 * b ! 5 + a ! 11 * b ! 4),
     - (a ! 5 * b ! 11 + a ! 6 * b ! 10 + a ! 7 * b ! 9 + a ! 8 * b ! 8 + a ! 9 * b ! 7 + a ! 10 * b ! 6 + a ! 11 * b ! 5),
     - (a ! 6 * b ! 11 + a ! 7 * b ! 10 + a ! 8 * b ! 9 + a ! 9 * b ! 8 + a ! 10 * b ! 7 + a ! 11 * b ! 6),
     - (a ! 7 * b ! 11 + a ! 8 * b ! 10 + a ! 9 * b ! 9 + a ! 10 * b ! 8 + a ! 11 * b ! 7),
     - (a ! 8 * b ! 11 + a ! 9 * b ! 10 + a ! 10 * b ! 9 + a ! 11 * b ! 8),
     - (a ! 9 * b ! 11 + a ! 10 * b ! 10 + a ! 11 * b ! 9),
     - (a ! 10 * b ! 11 + a ! 11 * b ! 10),
     - a ! 11 * b ! 11,
     0]"

definition sc_mulsub :: "byte list \<Rightarrow> byte list \<Rightarrow> byte list \<Rightarrow> byte list" where
  "sc_mulsub a b c = (let
      s = sc_mulsub_sums (sc_load a) (sc_load b) (sc_load c);
      s = fold sc_round [0, 2, 4, 6, 8, 10, 12, 14, 16, 18, 20, 22, 1, 3, 5, 7, 9, 11, 13, 15, 17, 19, 21] s
    in sc_finish (sc_high s))"

definition signum :: "i64 \<Rightarrow> i64" where
  "signum a = signed_drop_bit 63 a - signed_drop_bit 63 (- a)"

definition sc_check :: "byte list \<Rightarrow> i32" where
  "sc_check s = (let
      s0 = load_4 s; s1 = load_4 (drop 4 s); s2 = load_4 (drop 8 s); s3 = load_4 (drop 12 s);
      s4 = load_4 (drop 16 s); s5 = load_4 (drop 20 s); s6 = load_4 (drop 24 s); s7 = load_4 (drop 28 s)
    in to_i32 (signed_drop_bit 8 (signum (1559614444 - s0) + push_bit 1 (signum (1477600026 - s1)) +
      push_bit 2 (signum (2734136534 - s2)) + push_bit 3 (signum (350157278 - s3)) + push_bit 4 (signum (- s4)) +
      push_bit 5 (signum (- s5)) + push_bit 6 (signum (- s6)) + push_bit 7 (signum (268435456 - s7)))))"

definition sc_isnonzero :: "byte list \<Rightarrow> i32" where
  "sc_isnonzero s = signed_drop_bit 8 (ucast (foldl (OR) 0 (take 32 s) :: byte) - 1) + 1"

section \<open>Digits and their value\<close>

text \<open>The value of a list of digits in a radix, the least significant digit first.\<close>

fun radix_val :: "int \<Rightarrow> int list \<Rightarrow> int" where
  "radix_val B [] = 0"
| "radix_val B (x # xs) = x + B * radix_val B xs"

abbreviation limb_val :: "int list \<Rightarrow> int" where
  "limb_val \<equiv> radix_val (2 ^ 21)"

abbreviation words_of :: "int list \<Rightarrow> i64 list" where
  "words_of \<equiv> map word_of_int"

text \<open>The order of the base point.\<close>

definition ed_order :: int where
  "ed_order = 2 ^ 252 + 27742317777372353535851937790883648493"

lemma radix_val_append: "radix_val B (xs @ ys) = radix_val B xs + B ^ length xs * radix_val B ys"
  by (induction xs) (simp_all add: algebra_simps)

lemma radix_val_update:
  "i < length xs \<Longrightarrow> radix_val B (xs[i := x]) = radix_val B xs + (x - xs ! i) * B ^ i"
proof (induction xs arbitrary: i)
  case (Cons y ys)
  then show ?case by (cases i) (simp_all add: distrib_left mult.left_commute)
qed simp

lemma radix_val_take_Suc: "n < length xs \<Longrightarrow> radix_val B (take (Suc n) xs) = radix_val B (take n xs) + B ^ n * xs ! n"
  by (simp add: take_Suc_conv_app_nth radix_val_append)

lemma radix_val_nonneg: "\<forall>x \<in> set xs. 0 \<le> x \<Longrightarrow> 0 \<le> B \<Longrightarrow> 0 \<le> radix_val B xs"
  by (induction xs) simp_all

lemma radix_val_less:
  assumes "\<forall>x \<in> set xs. 0 \<le> x \<and> x < B" and "0 < B"
  shows "radix_val B xs < B ^ length xs"
  using assms
proof (induction xs)
  case (Cons x xs)
  then have "radix_val B xs + 1 \<le> B ^ length xs" by simp
  then have "B * (radix_val B xs + 1) \<le> B * B ^ length xs" using assms(2) by (intro mult_left_mono) auto
  with Cons.prems show ?case by (simp add: algebra_simps)
qed simp

lemma radix_val_div:
  assumes "\<forall>x \<in> set xs. 0 \<le> x \<and> x < B" and "0 < B"
  shows "radix_val B (xs @ ys) div B ^ length xs = radix_val B ys"
  using radix_val_less [OF assms] radix_val_nonneg [of xs B] assms by (simp add: radix_val_append)

lemma radix_val_abs:
  "list_all2 (\<lambda>x b. \<bar>x\<bar> \<le> b) xs bs \<Longrightarrow> 0 \<le> B \<Longrightarrow> \<bar>radix_val B xs\<bar> \<le> radix_val B bs"
proof (induction rule: list_all2_induct)
  case (Cons x xs b bs)
  have "\<bar>x + B * radix_val B xs\<bar> \<le> \<bar>x\<bar> + B * \<bar>radix_val B xs\<bar>"
    using abs_triangle_ineq [of x "B * radix_val B xs"] Cons.prems by (simp add: abs_mult)
  also have "\<dots> \<le> b + B * radix_val B bs"
    using Cons by (intro add_mono mult_left_mono) simp_all
  finally show ?case by simp
qed simp

lemma le_val_radix: "le_val bs = radix_val 256 (map uint bs)"
  by (induction bs) simp_all

lemma le_val_less: "le_val bs < 256 ^ length bs"
proof -
  have "\<forall>x \<in> set (map uint bs). 0 \<le> x \<and> x < (256 :: int)"
    using uint_lt2p [where 'a = 8] by auto
  then show ?thesis using radix_val_less [of "map uint bs" 256] by (simp add: le_val_radix)
qed

lemma digits_val:
  assumes "0 < B"
  shows "radix_val B (map (\<lambda>i. v div B ^ i mod B) [0..<n]) = v mod B ^ n"
proof (induction n)
  case (Suc n)
  have "v mod (B ^ n * B) = v mod B ^ n + B ^ n * (v div B ^ n mod B)"
    using assms by (simp add: zmod_zmult2_eq)
  with Suc show ?case by (simp add: radix_val_append mult.commute)
qed simp

section \<open>The steps on integers\<close>

text \<open>
  The effect of a step on the integers the words stand for, and on bounds of their absolute values; \<open>None\<close> is a bound
  that does not exclude an overflow.
\<close>

definition i_round :: "nat \<Rightarrow> int list \<Rightarrow> int list" where
  "i_round i S = (let (x, y) = icarry 21 (S ! i) (S ! Suc i) in S[i := x, Suc i := y])"

definition i_floor :: "nat \<Rightarrow> int list \<Rightarrow> int list" where
  "i_floor i S = S[i := S ! i mod 2 ^ 21, Suc i := S ! Suc i + S ! i div 2 ^ 21]"

definition i_fold :: "nat \<Rightarrow> int list \<Rightarrow> int list" where
  "i_fold j S = (let x = S ! j in
    S[j - 12 := S ! (j - 12) + x * 666643, j - 11 := S ! (j - 11) + x * 470296, j - 10 := S ! (j - 10) + x * 654183,
      j - 9 := S ! (j - 9) - x * 997805, j - 8 := S ! (j - 8) + x * 136657, j - 7 := S ! (j - 7) - x * 683901])"

definition limb_max :: int where
  "limb_max = 4611686018427387904"

definition b_round :: "nat \<Rightarrow> int list \<Rightarrow> int list option" where
  "b_round i bs = (if Suc i < length bs \<and> bs ! i \<le> limb_max
    then Some (bs[i := 1048576, Suc i := bs ! Suc i + (bs ! i + 1048576) div 2097152]) else None)"

definition b_floor :: "nat \<Rightarrow> int list \<Rightarrow> int list option" where
  "b_floor i bs = (if Suc i < length bs \<and> bs ! i \<le> limb_max
    then Some (bs[i := 2097151, Suc i := bs ! Suc i + (bs ! i div 2097152 + 1)]) else None)"

definition b_fold :: "nat \<Rightarrow> int list \<Rightarrow> int list option" where
  "b_fold j bs = (let x = bs ! j in if 12 \<le> j \<and> j < length bs
    then Some (bs[j - 12 := bs ! (j - 12) + x * 666643, j - 11 := bs ! (j - 11) + x * 470296,
      j - 10 := bs ! (j - 10) + x * 654183, j - 9 := bs ! (j - 9) + x * 997805, j - 8 := bs ! (j - 8) + x * 136657,
      j - 7 := bs ! (j - 7) + x * 683901]) else None)"

abbreviation limb_bounds :: "int list \<Rightarrow> int list \<Rightarrow> bool" where
  "limb_bounds \<equiv> list_all2 (\<lambda>x b. \<bar>x\<bar> \<le> b)"

lemma length_i [simp]: "length (i_round i S) = length S" "length (i_floor i S) = length S" "length (i_fold i S) = length S"
  by (simp_all add: i_round_def i_floor_def i_fold_def Let_def split: prod.split)

lemma limb_bounds_nth: "limb_bounds S bs \<Longrightarrow> i < length bs \<Longrightarrow> \<bar>S ! i\<bar> \<le> bs ! i"
  by (metis list_all2_lengthD list_all2_nthD)

lemma sc_round_words:
  "Suc i < length S \<Longrightarrow> \<bar>S ! i\<bar> \<le> limb_max \<Longrightarrow> sc_round i (words_of S) = words_of (i_round i S)"
  by (simp add: sc_round_def i_round_def carry_of_int limb_max_def map_update split: prod.split)

lemma sc_floor_words:
  assumes "Suc i < length S" and "\<bar>S ! i\<bar> \<le> limb_max"
  shows "sc_floor i (words_of S) = words_of (i_floor i S)"
proof -
  have "\<bar>S ! i\<bar> < 2 ^ 63" using assms(2) by (simp add: limb_max_def)
  then have "signed_drop_bit 21 (words_of S ! i) = word_of_int (S ! i div 2 ^ 21)"
    using assms(1) by (simp add: signed_drop_bit_i64)
  moreover have "word_of_int (S ! i) - push_bit 21 (word_of_int (S ! i div 2 ^ 21)) = (word_of_int (S ! i mod 2 ^ 21) :: i64)"
  proof -
    have "word_of_int (S ! i) - push_bit 21 (word_of_int (S ! i div 2 ^ 21)) = (word_of_int (S ! i - S ! i div 2 ^ 21 * 2 ^ 21) :: i64)"
      unfolding push_bit_eq_mult by simp
    also have "S ! i - S ! i div 2 ^ 21 * 2 ^ 21 = S ! i mod 2 ^ 21" by (rule minus_div_mult_eq_mod)
    finally show ?thesis .
  qed
  ultimately show ?thesis using assms(1) by (simp add: sc_floor_def i_floor_def Let_def map_update)
qed

lemma sc_fold_words: "12 \<le> j \<Longrightarrow> j < length S \<Longrightarrow> sc_fold j (words_of S) = words_of (i_fold j S)"
  by (simp add: sc_fold_def i_fold_def Let_def map_update)

lemma update2_val:
  assumes "Suc i < length T" and "x + B * y = T ! i + B * T ! Suc i"
  shows "radix_val B (T[i := x, Suc i := y]) = radix_val B T"
proof -
  have "radix_val B (T[i := x, Suc i := y]) = radix_val B T + ((x - T ! i) + B * (y - T ! Suc i)) * B ^ i"
    using assms(1) by (simp add: radix_val_update algebra_simps)
  also have "(x - T ! i) + B * (y - T ! Suc i) = 0" using assms(2) by (simp add: algebra_simps)
  finally show ?thesis by simp
qed

lemma i_round_val: "Suc i < n \<Longrightarrow> n \<le> length S \<Longrightarrow> limb_val (take n (i_round i S)) = limb_val (take n S)"
proof (cases "icarry 21 (S ! i) (S ! Suc i)")
  case (Pair x y)
  assume "Suc i < n" "n \<le> length S"
  then show ?thesis using icarry_props(1) [OF Pair]
    by (simp add: i_round_def Pair take_update_swap update2_val)
qed

lemma i_floor_val: "Suc i < n \<Longrightarrow> n \<le> length S \<Longrightarrow> limb_val (take n (i_floor i S)) = limb_val (take n S)"
  unfolding i_floor_def take_update_swap by (rule update2_val) (auto simp: distrib_left)

lemma radix_val_fold:
  assumes "k + 12 \<le> length T"
  shows "radix_val B (T[k := T ! k + x * 666643, k + 1 := T ! (k + 1) + x * 470296, k + 2 := T ! (k + 2) + x * 654183,
    k + 3 := T ! (k + 3) - x * 997805, k + 4 := T ! (k + 4) + x * 136657, k + 5 := T ! (k + 5) - x * 683901]) =
    radix_val B T + B ^ k * (x * (666643 + B * (470296 + B * (654183 + B * (- 997805 + B * (136657 + B * - 683901))))))"
  using assms by (simp add: radix_val_update power_add algebra_simps eval_nat_numeral)

lemma i_fold_val:
  assumes "12 \<le> j" and "j < length S"
  shows "limb_val (take j (i_fold j S)) = limb_val (take (Suc j) S) - 2 ^ (21 * (j - 12)) * S ! j * ed_order"
proof -
  define k where "k = j - 12"
  have j: "j = k + 12" using assms(1) by (simp add: k_def)
  have i: "j - 12 = k" "j - 11 = k + 1" "j - 10 = k + 2" "j - 9 = k + 3" "j - 8 = k + 4" "j - 7 = k + 5" by (simp_all add: j)
  let ?T = "take j S" and ?x = "S ! j"
  have T: "?T ! k = S ! k" "?T ! (k + 1) = S ! (k + 1)" "?T ! (k + 2) = S ! (k + 2)" "?T ! (k + 3) = S ! (k + 3)"
    "?T ! (k + 4) = S ! (k + 4)" "?T ! (k + 5) = S ! (k + 5)"
    by (simp_all add: j)
  have "k + 12 \<le> length ?T" using assms by (simp add: j)
  note f = radix_val_fold [OF this, of "2 ^ 21" ?x, unfolded T]
  have "limb_val (take j (i_fold j S)) = limb_val ?T + (2 ^ 21) ^ k * (?x * (666643 + 2 ^ 21 * (470296 + 2 ^ 21 * (654183 + 2 ^ 21 * (- 997805 + 2 ^ 21 * (136657 + 2 ^ 21 * - 683901))))))"
    unfolding i_fold_def Let_def i take_update_swap by (rule f)
  moreover have "limb_val (take (Suc j) S) = limb_val ?T + (2 ^ 21) ^ k * (2 ^ 252 * ?x)"
    using radix_val_take_Suc [OF assms(2), of "2 ^ 21"] by (simp add: j power_add mult.commute mult.left_commute)
  moreover have "(2 :: int) ^ (21 * (j - 12)) = (2 ^ 21) ^ k" by (simp add: power_mult k_def)
  ultimately show ?thesis by (simp add: ed_order_def algebra_simps)
qed

lemma less_div_plus_1: "z < 2097152 * (z div 2097152 + 1)" for z :: int
  by presburger

lemma b_round_bounds:
  assumes "limb_bounds S bs" and "b_round i bs = Some bs'"
  shows "limb_bounds (i_round i S) bs'"
proof (cases "icarry 21 (S ! i) (S ! Suc i)")
  case (Pair x y)
  from assms(2) have i: "Suc i < length bs" and
    bs': "bs' = bs[i := 1048576, Suc i := bs ! Suc i + (bs ! i + 1048576) div 2097152]"
    by (auto simp: b_round_def split: if_splits)
  have b: "\<bar>S ! i\<bar> \<le> bs ! i" "\<bar>S ! Suc i\<bar> \<le> bs ! Suc i" using limb_bounds_nth [OF assms(1)] i by auto
  define m where "m = (bs ! i + 1048576) div 2097152"
  have "bs ! i + 1048576 < 2097152 * (m + 1)" unfolding m_def by (rule less_div_plus_1)
  then have "\<bar>y - S ! Suc i\<bar> \<le> m" using icarry_props(3) [OF Pair _ b(1), of m] by simp
  moreover have "\<bar>x\<bar> \<le> 1048576" using icarry_props(2) [OF Pair] by simp
  ultimately show ?thesis unfolding i_round_def Pair Let_def bs' m_def [symmetric] prod.case
    using assms(1) b(2) by (intro list_all2_update_cong) auto
qed

lemma abs_floor_le: "\<bar>x\<bar> \<le> b \<Longrightarrow> \<bar>x div 2097152\<bar> \<le> b div 2097152 + 1" for x b :: int
  by linarith

lemma b_floor_bounds:
  assumes "limb_bounds S bs" and "b_floor i bs = Some bs'"
  shows "limb_bounds (i_floor i S) bs'"
proof -
  from assms(2) have i: "Suc i < length bs" and
    bs': "bs' = bs[i := 2097151, Suc i := bs ! Suc i + (bs ! i div 2097152 + 1)]"
    by (auto simp: b_floor_def split: if_splits)
  have b: "\<bar>S ! i\<bar> \<le> bs ! i" "\<bar>S ! Suc i\<bar> \<le> bs ! Suc i" using limb_bounds_nth [OF assms(1)] i by auto
  define c where "c = S ! i div 2097152"
  have "\<bar>S ! i mod 2097152\<bar> \<le> 2097151" by linarith
  moreover have "\<bar>S ! Suc i + c\<bar> \<le> bs ! Suc i + (bs ! i div 2097152 + 1)"
    using abs_floor_le [OF b(1)] b(2) unfolding c_def [symmetric] by linarith
  ultimately show ?thesis unfolding i_floor_def bs' using assms(1)
    by (intro list_all2_update_cong) (simp_all add: c_def)
qed

lemma abs_add_scaled: "\<bar>x\<bar> \<le> b \<Longrightarrow> \<bar>y\<bar> \<le> d \<Longrightarrow> 0 \<le> c \<Longrightarrow> \<bar>x + y * c\<bar> \<le> b + d * c \<and> \<bar>x - y * c\<bar> \<le> b + d * c"
  for x y b c d :: int
proof -
  assume "\<bar>x\<bar> \<le> b" "\<bar>y\<bar> \<le> d" "0 \<le> c"
  then have "\<bar>y * c\<bar> \<le> d * c" by (simp add: abs_mult mult_right_mono)
  with \<open>\<bar>x\<bar> \<le> b\<close> show ?thesis by linarith
qed

lemma b_fold_bounds:
  assumes "limb_bounds S bs" and "b_fold j bs = Some bs'"
  shows "limb_bounds (i_fold j S) bs'"
proof -
  from assms(2) have j: "12 \<le> j" "j < length bs" by (auto simp: b_fold_def Let_def split: if_splits)
  note s = abs_add_scaled [OF limb_bounds_nth [OF assms(1)] limb_bounds_nth [OF assms(1) j(2)]]
  from assms j show ?thesis unfolding i_fold_def b_fold_def Let_def
    by (auto intro!: list_all2_update_cong s [THEN conjunct1] s [THEN conjunct2])
qed

section \<open>The invariant of a reduction\<close>

text \<open>
  The first \<open>n\<close> digits of \<open>s\<close> represent \<open>v\<close> modulo the group order, and the absolute values of all digits are within \<open>bs\<close>.
\<close>

definition sc_inv :: "int \<Rightarrow> nat \<Rightarrow> int list \<Rightarrow> i64 list \<Rightarrow> bool" where
  "sc_inv v n bs s \<longleftrightarrow> n \<le> length bs \<and>
    (\<exists>S. s = words_of S \<and> limb_bounds S bs \<and> limb_val (take n S) mod ed_order = v mod ed_order)"

lemma sc_inv_round:
  assumes "sc_inv v n bs s" and "Suc i < n" and "b_round i bs = Some bs'"
  shows "sc_inv v n bs' (sc_round i s)"
proof -
  from assms(1) obtain S where S: "n \<le> length bs" "s = words_of S" "limb_bounds S bs" "limb_val (take n S) mod ed_order = v mod ed_order"
    by (auto simp: sc_inv_def)
  from assms(3) have i: "Suc i < length bs" "bs ! i \<le> limb_max" "length bs' = length bs" by (auto simp: b_round_def split: if_splits)
  have l: "length S = length bs" using S(3) by (rule list_all2_lengthD)
  have "\<bar>S ! i\<bar> \<le> limb_max" using limb_bounds_nth [OF S(3), of i] i by linarith
  then have "sc_round i s = words_of (i_round i S)" unfolding S(2) using i l by (intro sc_round_words) auto
  moreover have "limb_val (take n (i_round i S)) = limb_val (take n S)" using i_round_val assms(2) S(1) l by simp
  ultimately show ?thesis unfolding sc_inv_def
    using S(1,4) i(3) b_round_bounds [OF S(3) assms(3)] by (intro conjI exI [of _ "i_round i S"]) simp_all
qed

lemma sc_inv_fold:
  assumes "sc_inv v (Suc j) bs s" and "b_fold j bs = Some bs'"
  shows "sc_inv v j bs' (sc_fold j s)"
proof -
  from assms(1) obtain S where S: "Suc j \<le> length bs" "s = words_of S" "limb_bounds S bs"
      "limb_val (take (Suc j) S) mod ed_order = v mod ed_order"
    by (auto simp: sc_inv_def)
  from assms(2) have j: "12 \<le> j" "j < length bs" "length bs' = length bs" by (auto simp: b_fold_def Let_def split: if_splits)
  have l: "length S = length bs" using S(3) by (rule list_all2_lengthD)
  have "limb_val (take j (i_fold j S)) mod ed_order = v mod ed_order"
    unfolding S(4) [symmetric] using j l by (simp only: i_fold_val) (simp add: mod_diff_right_eq [symmetric])
  then show ?thesis unfolding sc_inv_def S(2)
    using j l b_fold_bounds [OF S(3) assms(2)] by (intro conjI exI [of _ "i_fold j S"]) (simp_all add: sc_fold_words)
qed

lemma sc_inv_zero:
  assumes "sc_inv v n bs s" and "n < length bs"
  shows "sc_inv v (Suc n) (bs[n := 0]) (s[n := 0])"
proof -
  from assms(1) obtain S where S: "s = words_of S" "limb_bounds S bs" "limb_val (take n S) mod ed_order = v mod ed_order"
    by (auto simp: sc_inv_def)
  have l: "length S = length bs" using S(2) by (rule list_all2_lengthD)
  have "limb_val (take (Suc n) (S[n := 0])) = limb_val (take n S)"
    using assms(2) l radix_val_take_Suc [of n "S[n := 0]" "2 ^ 21"] by simp
  moreover have "limb_bounds (S[n := 0]) (bs[n := 0])" using S(2) by (intro list_all2_update_cong) simp_all
  ultimately show ?thesis unfolding sc_inv_def using assms(2) S(1,3)
    by (intro conjI exI [of _ "S[n := 0]"]) (simp_all add: map_update)
qed

text \<open>The bounds after a sequence of steps.\<close>

fun b_rounds :: "nat \<Rightarrow> nat list \<Rightarrow> int list \<Rightarrow> int list option" where
  "b_rounds n [] bs = Some bs"
| "b_rounds n (i # is) bs = (if Suc i < n then Option.bind (b_round i bs) (b_rounds n is) else None)"

fun b_floors :: "nat list \<Rightarrow> int list \<Rightarrow> int list option" where
  "b_floors [] bs = Some bs"
| "b_floors (i # is) bs = Option.bind (b_floor i bs) (b_floors is)"

fun b_folds :: "nat \<Rightarrow> nat list \<Rightarrow> int list \<Rightarrow> int list option" where
  "b_folds n [] bs = Some bs"
| "b_folds n (j # js) bs = (if n = Suc j then Option.bind (b_fold j bs) (b_folds j js) else None)"

lemma sc_inv_rounds:
  "sc_inv v n bs s \<Longrightarrow> b_rounds n is bs = Some bs' \<Longrightarrow> sc_inv v n bs' (fold sc_round is s)"
  by (induction "is" arbitrary: bs s) (auto simp: bind_eq_Some_conv intro: sc_inv_round split: if_splits)

lemma sc_inv_folds:
  "sc_inv v n bs s \<Longrightarrow> b_folds n js bs = Some bs' \<Longrightarrow> sc_inv v (n - length js) bs' (fold sc_fold js s)"
  by (induction js arbitrary: n bs s) (auto simp: bind_eq_Some_conv dest: sc_inv_fold split: if_splits)

lemma i_floors_words:
  assumes "limb_bounds S bs" and "b_floors is bs = Some bs'"
  shows "fold sc_floor is (words_of S) = words_of (fold i_floor is S) \<and> limb_bounds (fold i_floor is S) bs'"
  using assms
proof (induction "is" arbitrary: S bs)
  case (Cons i "is")
  from Cons.prems(2) obtain b where b: "b_floor i bs = Some b" "b_floors is b = Some bs'" by (auto simp: bind_eq_Some_conv)
  then have i: "Suc i < length bs" "bs ! i \<le> limb_max" by (auto simp: b_floor_def split: if_splits)
  have "length S = length bs" using Cons.prems(1) by (rule list_all2_lengthD)
  moreover have "\<bar>S ! i\<bar> \<le> limb_max" using limb_bounds_nth [OF Cons.prems(1), of i] i by linarith
  ultimately have "sc_floor i (words_of S) = words_of (i_floor i S)" using i by (intro sc_floor_words) auto
  with Cons.IH [OF b_floor_bounds [OF Cons.prems(1) b(1)] b(2)] show ?case by simp
qed simp

lemma i_floors_val:
  "\<forall>i \<in> set is. Suc i < n \<Longrightarrow> n \<le> length S \<Longrightarrow> limb_val (take n (fold i_floor is S)) = limb_val (take n S)"
  by (induction "is" arbitrary: S) (simp_all add: i_floor_val [simplified])

lemma length_i_floors [simp]: "length (fold i_floor is S) = length S"
  by (induction "is" arbitrary: S) simp_all

lemma i_floors_digits:
  "k < length S \<Longrightarrow> \<forall>x \<in> set (take k (fold i_floor [0..<k] S)). 0 \<le> x \<and> x < 2 ^ 21"
proof (induction k)
  case (Suc k)
  let ?S = "fold i_floor [0..<k] S"
  have "take (Suc k) (i_floor k ?S) = take k ?S @ [?S ! k mod 2 ^ 21]"
    using Suc.prems by (simp add: i_floor_def take_Suc_conv_app_nth take_update_cancel)
  with Suc show ?case by (auto simp: fold_append)
qed simp

section \<open>The shared parts\<close>

definition b_high :: "int list \<Rightarrow> int list option" where
  "b_high bs = Option.bind (b_folds 24 [23, 22, 21, 20, 19, 18] bs) (\<lambda>bs.
    Option.bind (b_rounds 18 [6, 8, 10, 12, 14, 16, 7, 9, 11, 13, 15] bs) (\<lambda>bs.
    Option.bind (b_folds 18 [17, 16, 15, 14, 13, 12] bs) (\<lambda>bs. if 12 < length bs then Some (bs[12 := 0]) else None)))"

lemma sc_high_inv:
  assumes "sc_inv v 24 bs s" and "b_high bs = Some bs'"
  shows "sc_inv v 13 bs' (sc_high s)"
proof -
  from assms(2) obtain b1 b2 b3 where b: "b_folds 24 [23, 22, 21, 20, 19, 18] bs = Some b1"
    "b_rounds 18 [6, 8, 10, 12, 14, 16, 7, 9, 11, 13, 15] b1 = Some b2"
    "b_folds 18 [17, 16, 15, 14, 13, 12] b2 = Some b3" "12 < length b3" "bs' = b3[12 := 0]"
    unfolding b_high_def by (auto simp only: bind_eq_Some_conv split: if_splits)
  have "sc_inv v 18 b1 (fold sc_fold [23, 22, 21, 20, 19, 18] s)" using sc_inv_folds [OF assms(1) b(1)] by simp
  note sc_inv_folds [OF sc_inv_rounds [OF this b(2)] b(3)]
  then have "sc_inv v 12 b3 (fold sc_fold [17, 16, 15, 14, 13, 12] (fold sc_round [6, 8, 10, 12, 14, 16, 7, 9, 11, 13, 15]
      (fold sc_fold [23, 22, 21, 20, 19, 18] s)))" by simp
  from sc_inv_zero [OF this b(4)] show ?thesis unfolding sc_high_def Let_def b(5) by simp
qed

section \<open>The bytes of the result\<close>

lemma uint_ucast_i64: "uint (ucast (word_of_int y :: i64) :: byte) = y mod 256"
proof -
  have "(ucast (word_of_int y :: i64) :: byte) = word_of_int y" by (rule bit_word_eqI) (simp add: bit_simps)
  then show ?thesis by (simp add: uint_word_of_int)
qed

lemma shift_sum_div:
  fixes a y :: int
  assumes "r \<le> 21"
  shows "(a + 2 ^ 21 * y) div 2 ^ r = a div 2 ^ r + 2 ^ (21 - r) * y"
proof -
  have "(2 :: int) ^ 21 = 2 ^ r * 2 ^ (21 - r)" using assms by (simp flip: power_add)
  then have "a + 2 ^ 21 * y = a + 2 ^ r * (2 ^ (21 - r) * y)" by (simp only: mult.assoc)
  then show ?thesis by (simp only:) simp
qed

lemma pow_mod_256: "8 \<le> n \<Longrightarrow> (x + 2 ^ n * y) mod 256 = x mod 256" for x y :: int
proof -
  assume "8 \<le> n"
  then have "(2 :: int) ^ n = 2 ^ 8 * 2 ^ (n - 8)" by (simp only: power_add [symmetric] le_add_diff_inverse)
  then have "x + 2 ^ n * y = x + 256 * (2 ^ (n - 8) * y)" by simp
  then show ?thesis by (simp only:) simp
qed

text \<open>A byte that lies in one digit, and a byte that two digits share.\<close>

lemma pack_byte:
  assumes "\<bar>a\<bar> < 2 ^ 63" and "r \<le> 13"
  shows "uint (ucast (signed_drop_bit r (word_of_int a :: i64)) :: byte) = (a + 2 ^ 21 * y) div 2 ^ r mod 256"
  using assms pow_mod_256 [of "21 - r"] by (simp only: signed_drop_bit_i64 uint_ucast_i64 shift_sum_div)

lemma pack_byte_last:
  assumes "\<bar>a\<bar> < 2 ^ 63"
  shows "uint (ucast (signed_drop_bit r (word_of_int a :: i64)) :: byte) = a div 2 ^ r mod 256"
  using assms by (simp only: signed_drop_bit_i64 uint_ucast_i64)

lemma pack_byte2:
  assumes "0 \<le> a" and "a < 2 ^ 21" and "r \<le> 21" and "m = 21 - r"
  shows "uint (ucast (signed_drop_bit r (word_of_int a :: i64) OR push_bit m (word_of_int b)) :: byte) =
    (a + 2 ^ 21 * (b + 2 ^ 21 * y)) div 2 ^ r mod 256"
proof -
  let ?a = "a div 2 ^ r"
  have "a < 2 ^ m * 2 ^ r" using assms by (simp flip: power_add)
  then have a: "?a < 2 ^ m" "0 \<le> ?a" using assms(1) by (auto intro: div_less_pow simp: pos_imp_zdiv_nonneg_iff)
  have "\<bar>a\<bar> < 2 ^ 63" using assms(1,2) by simp
  then have "signed_drop_bit r (word_of_int a :: i64) OR push_bit m (word_of_int b) = word_of_int (?a OR push_bit m b)"
    by (simp add: signed_drop_bit_i64 of_int_or_eq of_int_push_bit)
  then have "uint (ucast (signed_drop_bit r (word_of_int a :: i64) OR push_bit m (word_of_int b)) :: byte) = (?a + 2 ^ m * b) mod 256"
    by (simp only: uint_ucast_i64 or_shifted a)
  also have "\<dots> = (?a + 2 ^ m * b + 2 ^ (m + 21) * y) mod 256" by (simp only: pow_mod_256)
  also have "?a + 2 ^ m * b + 2 ^ (m + 21) * y = (a + 2 ^ 21 * (b + 2 ^ 21 * y)) div 2 ^ r"
    unfolding shift_sum_div [OF assms(3)] assms(4) power_add by (simp only: distrib_left mult.assoc add.assoc)
  finally show ?thesis .
qed

lemma le_val_digits:
  assumes "\<And>k. k < length bs \<Longrightarrow> uint (bs ! k) = w div 256 ^ k mod 256"
  shows "le_val bs = w mod 256 ^ length bs"
proof -
  have "map uint bs = map (\<lambda>k. w div 256 ^ k mod 256) [0..<length bs]" by (rule nth_equalityI) (simp_all add: assms)
  then show ?thesis by (simp only: le_val_radix digits_val zero_less_numeral)
qed

text \<open>From a digit on, the value is the value of the remaining digits.\<close>

lemma limb_val_div:
  assumes "\<forall>x \<in> set (take i S). 0 \<le> x \<and> x < 2 ^ 21" and "i \<le> length S" and "8 * k = 21 * i + r"
  shows "limb_val S div 256 ^ k = limb_val (drop i S) div 2 ^ r"
proof -
  have "limb_val S div (2 ^ 21) ^ i = limb_val (drop i S)"
    using radix_val_div [OF assms(1), of "drop i S"] assms(2) by simp
  moreover have "(256 :: int) ^ k = (2 ^ 21) ^ i * 2 ^ r"
  proof -
    have "(256 :: int) ^ k = 2 ^ (8 * k)" by (simp add: power_mult)
    then show ?thesis unfolding assms(3) power_add by (simp only: power_mult)
  qed
  ultimately show ?thesis by (simp only: zdiv_zmult2_eq zero_le_power zero_le_numeral)
qed

definition limbs_packable :: "int list \<Rightarrow> bool" where
  "limbs_packable S \<longleftrightarrow> length S = 12 \<and> (\<forall>i < 11. 0 \<le> S ! i \<and> S ! i < 2 ^ 21) \<and> 0 \<le> S ! 11 \<and> S ! 11 \<le> 2 ^ 21"

lemma packable_div:
  assumes "limbs_packable S" and "i < 12" and "8 * k = 21 * i + r"
  shows "limb_val S div 256 ^ k = (S ! i + 2 ^ 21 * limb_val (drop (Suc i) S)) div 2 ^ r"
proof -
  have "\<forall>x \<in> set (take i S). 0 \<le> x \<and> x < 2 ^ 21"
    using assms(1,2) by (auto simp: limbs_packable_def in_set_conv_nth)
  moreover have "drop i S = S ! i # drop (Suc i) S" using assms(1,2) by (simp add: limbs_packable_def Cons_nth_drop_Suc)
  ultimately show ?thesis using limb_val_div [of i S k r] assms by (simp add: limbs_packable_def)
qed

lemma packable_limb: "limbs_packable S \<Longrightarrow> i < 12 \<Longrightarrow> \<bar>S ! i\<bar> < 2 ^ 63"
proof (cases "i = 11")
  case False
  assume "limbs_packable S" "i < 12"
  with False have "0 \<le> S ! i" "S ! i < 2 ^ 21" by (simp_all add: limbs_packable_def)
  then show ?thesis by simp
qed (simp add: limbs_packable_def)

lemma pack_at:
  assumes "limbs_packable S" and "i < 12" and "8 * k = 21 * i + r" and "r \<le> 13"
  shows "uint (ucast (signed_drop_bit r (word_of_int (S ! i) :: i64)) :: byte) = limb_val S div 256 ^ k mod 256"
  unfolding packable_div [OF assms(1-3)] by (rule pack_byte [OF packable_limb [OF assms(1,2)] assms(4)])

lemma pack_at_last:
  assumes "limbs_packable S" and "8 * k = 231 + r"
  shows "uint (ucast (signed_drop_bit r (word_of_int (S ! 11) :: i64)) :: byte) = limb_val S div 256 ^ k mod 256"
proof -
  have "drop (Suc 11) S = []" using assms(1) by (simp add: limbs_packable_def)
  then show ?thesis using packable_div [OF assms(1), of 11 k r] assms pack_byte_last [OF packable_limb [OF assms(1)], of 11 r] by simp
qed

lemma pack_at2:
  assumes "limbs_packable S" and "i < 11" and "8 * k = 21 * i + r" and "r \<le> 21" and "m = 21 - r" and "i' = Suc i"
  shows "uint (ucast (signed_drop_bit r (word_of_int (S ! i) :: i64) OR push_bit m (word_of_int (S ! i'))) :: byte) =
    limb_val S div 256 ^ k mod 256"
proof -
  have "drop i' S = S ! i' # drop (Suc i') S" using assms(1,2,6) by (simp add: limbs_packable_def Cons_nth_drop_Suc)
  then have "limb_val S div 256 ^ k = (S ! i + 2 ^ 21 * (S ! i' + 2 ^ 21 * limb_val (drop (Suc i') S))) div 2 ^ r"
    using packable_div [OF assms(1) _ assms(3)] assms(2,6) by simp
  then show ?thesis using assms(1,2) by (simp only:) (rule pack_byte2 [OF _ _ assms(4,5)], simp_all add: limbs_packable_def)
qed

lemma sc_pack_digits:
  assumes p: "limbs_packable S"
  shows "map uint (sc_pack (words_of S)) = map (\<lambda>k. limb_val S div 256 ^ k mod 256) [0..<32]"
proof -
  have w: "i < 12 \<Longrightarrow> words_of S ! i = word_of_int (S ! i)" for i using p by (simp add: limbs_packable_def)
  define f where "f k = limb_val S div 256 ^ k mod 256" for k
  note one = pack_at [OF p, folded f_def] and two = pack_at2 [OF p, folded f_def] and last = pack_at_last [OF p, folded f_def]
  have u1:
    "uint (ucast (signed_drop_bit 0 (word_of_int (S ! 0) :: i64)) :: byte) = f 0"
    "uint (ucast (signed_drop_bit 8 (word_of_int (S ! 0) :: i64)) :: byte) = f 1"
    "uint (ucast (signed_drop_bit 3 (word_of_int (S ! 1) :: i64)) :: byte) = f 3"
    "uint (ucast (signed_drop_bit 11 (word_of_int (S ! 1) :: i64)) :: byte) = f 4"
    "uint (ucast (signed_drop_bit 6 (word_of_int (S ! 2) :: i64)) :: byte) = f 6"
    "uint (ucast (signed_drop_bit 1 (word_of_int (S ! 3) :: i64)) :: byte) = f 8"
    "uint (ucast (signed_drop_bit 9 (word_of_int (S ! 3) :: i64)) :: byte) = f 9"
    "uint (ucast (signed_drop_bit 4 (word_of_int (S ! 4) :: i64)) :: byte) = f 11"
    "uint (ucast (signed_drop_bit 12 (word_of_int (S ! 4) :: i64)) :: byte) = f 12"
    "uint (ucast (signed_drop_bit 7 (word_of_int (S ! 5) :: i64)) :: byte) = f 14"
    "uint (ucast (signed_drop_bit 2 (word_of_int (S ! 6) :: i64)) :: byte) = f 16"
    "uint (ucast (signed_drop_bit 10 (word_of_int (S ! 6) :: i64)) :: byte) = f 17"
    "uint (ucast (signed_drop_bit 5 (word_of_int (S ! 7) :: i64)) :: byte) = f 19"
    "uint (ucast (signed_drop_bit 13 (word_of_int (S ! 7) :: i64)) :: byte) = f 20"
    "uint (ucast (signed_drop_bit 0 (word_of_int (S ! 8) :: i64)) :: byte) = f 21"
    "uint (ucast (signed_drop_bit 8 (word_of_int (S ! 8) :: i64)) :: byte) = f 22"
    "uint (ucast (signed_drop_bit 3 (word_of_int (S ! 9) :: i64)) :: byte) = f 24"
    "uint (ucast (signed_drop_bit 11 (word_of_int (S ! 9) :: i64)) :: byte) = f 25"
    "uint (ucast (signed_drop_bit 6 (word_of_int (S ! 10) :: i64)) :: byte) = f 27"
    by (rule one, simp, simp, simp)+
  have u2:
    "uint (ucast (signed_drop_bit 16 (word_of_int (S ! 0) :: i64) OR push_bit 5 (word_of_int (S ! 1))) :: byte) = f 2"
    "uint (ucast (signed_drop_bit 19 (word_of_int (S ! 1) :: i64) OR push_bit 2 (word_of_int (S ! 2))) :: byte) = f 5"
    "uint (ucast (signed_drop_bit 14 (word_of_int (S ! 2) :: i64) OR push_bit 7 (word_of_int (S ! 3))) :: byte) = f 7"
    "uint (ucast (signed_drop_bit 17 (word_of_int (S ! 3) :: i64) OR push_bit 4 (word_of_int (S ! 4))) :: byte) = f 10"
    "uint (ucast (signed_drop_bit 20 (word_of_int (S ! 4) :: i64) OR push_bit 1 (word_of_int (S ! 5))) :: byte) = f 13"
    "uint (ucast (signed_drop_bit 15 (word_of_int (S ! 5) :: i64) OR push_bit 6 (word_of_int (S ! 6))) :: byte) = f 15"
    "uint (ucast (signed_drop_bit 18 (word_of_int (S ! 6) :: i64) OR push_bit 3 (word_of_int (S ! 7))) :: byte) = f 18"
    "uint (ucast (signed_drop_bit 16 (word_of_int (S ! 8) :: i64) OR push_bit 5 (word_of_int (S ! 9))) :: byte) = f 23"
    "uint (ucast (signed_drop_bit 19 (word_of_int (S ! 9) :: i64) OR push_bit 2 (word_of_int (S ! 10))) :: byte) = f 26"
    "uint (ucast (signed_drop_bit 14 (word_of_int (S ! 10) :: i64) OR push_bit 7 (word_of_int (S ! 11))) :: byte) = f 28"
    by (rule two, simp, simp, simp, simp, simp)+
  have u3:
    "uint (ucast (signed_drop_bit 1 (word_of_int (S ! 11) :: i64)) :: byte) = f 29"
    "uint (ucast (signed_drop_bit 9 (word_of_int (S ! 11) :: i64)) :: byte) = f 30"
    "uint (ucast (signed_drop_bit 17 (word_of_int (S ! 11) :: i64)) :: byte) = f 31"
    by (rule last, simp)+
  have "map uint (sc_pack (words_of S)) = map f [0, 1, 2, 3, 4, 5, 6, 7, 8, 9, 10, 11, 12, 13, 14, 15, 16, 17, 18, 19, 20, 21, 22, 23, 24, 25, 26, 27, 28, 29, 30, 31]"
    unfolding sc_pack_def by (simp only: list.map w u1 u2 u3 simp_thms rel_simps)
  also have "[0, 1, 2, 3, 4, 5, 6, 7, 8, 9, 10, 11, 12, 13, 14, 15, 16, 17, 18, 19, 20, 21, 22, 23, 24, 25, 26, 27, 28, 29, 30, 31] = [0..<32]" by (simp add: upt_rec)
  finally show ?thesis by (simp add: f_def)
qed

lemma sc_pack_val:
  assumes "limbs_packable S" and "limb_val S < 2 ^ 256"
  shows "le_val (sc_pack (words_of S)) = limb_val S"
proof -
  have "0 \<le> S ! i" if "i < 12" for i
    using assms(1) that by (cases "i = 11") (simp_all add: limbs_packable_def)
  then have "0 \<le> limb_val S"
    using assms(1) by (intro radix_val_nonneg) (auto simp: limbs_packable_def in_set_conv_nth)
  moreover have "le_val (sc_pack (words_of S)) = limb_val S mod 256 ^ 32"
    by (simp only: le_val_radix sc_pack_digits [OF assms(1)] digits_val zero_less_numeral)
  ultimately show ?thesis using assms(2) by simp
qed

section \<open>The final reduction\<close>

lemma i_floors_top:
  assumes "k < length S" and "k = n - 1" and "n \<le> length S" and "0 < n"
  shows "fold i_floor [0..<k] S ! k = limb_val (take n S) div (2 ^ 21) ^ k"
proof -
  let ?T = "fold i_floor [0..<k] S"
  have n: "n = Suc k" using assms(2,4) by simp
  have d: "\<forall>x \<in> set (take k ?T). 0 \<le> x \<and> x < 2 ^ 21" using assms(1) by (rule i_floors_digits)
  have "take n ?T = take k ?T @ [?T ! k]" using assms(1) by (simp add: n take_Suc_conv_app_nth)
  then have "limb_val (take n ?T) div (2 ^ 21) ^ length (take k ?T) = ?T ! k" using radix_val_div [OF d, of "[?T ! k]"] by simp
  moreover have "limb_val (take n ?T) = limb_val (take n S)" using assms(3) by (intro i_floors_val) (auto simp: n)
  ultimately show ?thesis using assms(1) by simp
qed

text \<open>
  A value of twelve digits below \<open>2 ^ 252\<close> in absolute value has the thirteenth digit 0 or - 1 after the floor carries, and
  folding this digit makes the value canonical.
\<close>

lemma fold_canonical:
  fixes V P c :: int
  assumes "\<bar>V\<bar> < P" and "0 \<le> c"
  shows "V - V div P * (P + c) = V mod (P + c)"
proof (cases "V < 0")
  case True
  then have "V div P = - 1" using assms by (intro int_div_pos_eq [of _ _ _ "V + P"]) auto
  moreover have "V mod (P + c) = V + (P + c)" using True assms by (intro int_mod_pos_eq [of _ _ "- 1"]) auto
  ultimately show ?thesis by simp
next
  case False
  with assms have "V div P = 0" "V mod (P + c) = V" by auto
  then show ?thesis by simp
qed

lemma i_finish_fold:
  assumes "13 \<le> length S" and "S ! 12 = 0" and "\<bar>limb_val (take 12 S)\<bar> < 2 ^ 252" and "T = fold i_floor [0..<12] S"
  shows "limb_val (take 12 (i_fold 12 T)) = limb_val (take 12 S) mod ed_order"
proof -
  have l: "13 \<le> length T" unfolding assms(4) length_i_floors by (rule assms(1))
  have i: "i \<in> set [0..<12] \<Longrightarrow> Suc i < 13" for i :: nat by (simp only: atLeastLessThan_iff set_upt) simp
  have s: "Suc 12 = 13" by simp
  have "limb_val (take (Suc 12) S) = limb_val (take 12 S)"
    using assms(1,2) radix_val_take_Suc [of 12 S "2 ^ 21"] by simp
  then have V: "limb_val (take 13 S) = limb_val (take 12 S)" by (simp only: s)
  have "limb_val (take 13 T) = limb_val (take 12 S)"
    unfolding V [symmetric] assms(4) using i assms(1) by (intro i_floors_val) blast+
  moreover have "T ! 12 = limb_val (take 13 S) div (2 ^ 21) ^ 12"
    unfolding assms(4) by (rule i_floors_top) (use assms(1) in simp_all)
  then have "T ! 12 = limb_val (take 12 S) div 2 ^ 252" unfolding V by (simp only: power_mult [symmetric]) simp
  moreover have "limb_val (take 12 (i_fold 12 T)) = limb_val (take (Suc 12) T) - 2 ^ (21 * (12 - 12)) * T ! 12 * ed_order"
    by (rule i_fold_val) (use l in simp_all)
  ultimately have "limb_val (take 12 (i_fold 12 T)) = limb_val (take 12 S) - limb_val (take 12 S) div 2 ^ 252 * ed_order"
    by (simp only: s diff_self_eq_0 mult_0_right power_0 mult_1)
  then show ?thesis unfolding ed_order_def using fold_canonical [OF assms(3), of 27742317777372353535851937790883648493] by (simp only: zero_le_numeral)
qed

lemma i_finish_packable:
  assumes "13 \<le> length S" and "limb_val (take 12 S) = v mod ed_order" and "T = fold i_floor [0..<11] S"
  shows "limbs_packable (take 12 T)" and "limb_val (take 12 T) = v mod ed_order"
proof -
  have l: "13 \<le> length T" unfolding assms(3) length_i_floors by (rule assms(1))
  have i: "i \<in> set [0..<11] \<Longrightarrow> Suc i < 12" for i :: nat by (simp only: atLeastLessThan_iff set_upt) simp
  show "limb_val (take 12 T) = v mod ed_order"
    unfolding assms(2) [symmetric] assms(3) using i assms(1) by (intro i_floors_val ballI) simp_all
  have d: "\<forall>x \<in> set (take 11 T). 0 \<le> x \<and> x < 2 ^ 21"
    unfolding assms(3) by (rule i_floors_digits) (use assms(1) in simp)
  then have d': "\<forall>i < 11. 0 \<le> T ! i \<and> T ! i < 2 ^ 21" using l by (simp add: all_set_conv_all_nth)
  have "T ! 11 = limb_val (take 12 S) div (2 ^ 21) ^ 11"
    unfolding assms(3) by (rule i_floors_top) (use assms(1) in simp_all)
  then have t: "T ! 11 = v mod ed_order div 2 ^ 231" unfolding assms(2) by simp
  have r: "0 \<le> v mod ed_order" "v mod ed_order \<le> ed_order" by (simp_all add: ed_order_def order.strict_implies_order)
  have "0 \<le> T ! 11" unfolding t using r(1) by (simp add: pos_imp_zdiv_nonneg_iff)
  moreover have "T ! 11 \<le> 2 ^ 21" unfolding t
    using zdiv_mono1 [OF r(2), of "2 ^ 231"] by (simp add: ed_order_def)
  ultimately show "limbs_packable (take 12 T)" using d' l by (simp add: limbs_packable_def)
qed

definition b_finish :: "int list \<Rightarrow> bool" where
  "b_finish bs = (case Option.bind (b_rounds 13 [0, 2, 4, 6, 8, 10, 1, 3, 5, 7, 9, 11] bs) (b_fold 12) of
      None \<Rightarrow> False
    | Some b \<Rightarrow> 13 \<le> length b \<and> limb_val (take 12 b) < 2 ^ 252 \<and>
        Option.bind (Option.bind (b_floors [0, 1, 2, 3, 4, 5, 6, 7, 8, 9, 10, 11] (b[12 := 0])) (b_fold 12))
          (b_floors [0, 1, 2, 3, 4, 5, 6, 7, 8, 9, 10]) \<noteq> None)"

lemma length_sc_finish: "length (sc_finish s) = 32"
  by (simp add: sc_finish_def sc_pack_def Let_def)

lemma sc_pack_take:
  assumes "12 \<le> length s"
  shows "sc_pack (take 12 s) = sc_pack s"
  unfolding sc_pack_def by (simp only: nth_take rel_simps)

lemma upt_literals: "[0, 1, 2, 3, 4, 5, 6, 7, 8, 9, 10, 11] = [0..<12]" "[0, 1, 2, 3, 4, 5, 6, 7, 8, 9, 10] = [0..<11]"
  by (simp_all add: upt_rec)

lemma finish_steps:
  assumes "13 \<le> length S" and "S ! 12 = 0" and "limb_bounds S b" and "b_floors [0..<12] b = Some b3" and "b_fold 12 b3 = Some b4"
    and "b_floors [0..<11] b4 = Some b5" and "\<bar>limb_val (take 12 S)\<bar> < 2 ^ 252"
  shows "le_val (sc_pack (fold sc_floor [0..<11] (sc_fold 12 (fold sc_floor [0..<12] (words_of S))))) = limb_val (take 12 S) mod ed_order"
proof -
  define S3 where "S3 = fold i_floor [0..<12] S"
  define S4 where "S4 = i_fold 12 S3"
  define S5 where "S5 = fold i_floor [0..<11] S4"
  have l: "13 \<le> length S3" "13 \<le> length S4" "13 \<le> length S5"
    by (simp_all only: S3_def S4_def S5_def length_i_floors length_i assms(1))
  have 3: "fold sc_floor [0..<12] (words_of S) = words_of S3" "limb_bounds S3 b3"
    using i_floors_words [OF assms(3,4)] by (simp_all only: S3_def)
  have 4: "sc_fold 12 (words_of S3) = words_of S4" "limb_bounds S4 b4"
    using sc_fold_words [of 12 S3] l(1) b_fold_bounds [OF 3(2) assms(5)] by (simp_all add: S4_def)
  have 5: "fold sc_floor [0..<11] (words_of S4) = words_of S5"
    using i_floors_words [OF 4(2) assms(6)] by (simp only: S5_def)
  have v: "limb_val (take 12 S4) = limb_val (take 12 S) mod ed_order"
    unfolding S4_def by (rule i_finish_fold [OF assms(1,2,7) S3_def])
  note p = i_finish_packable [OF l(2) v S5_def]
  have "limb_val (take 12 S5) < 2 ^ 256" unfolding p(2) ed_order_def
    by (rule order.strict_trans [OF pos_mod_bound]) simp_all
  then have "le_val (sc_pack (words_of (take 12 S5))) = limb_val (take 12 S) mod ed_order"
    using sc_pack_val [OF p(1)] p(2) by (simp only:)
  moreover have "sc_pack (words_of (take 12 S5)) = sc_pack (words_of S5)"
    unfolding take_map [symmetric] by (rule sc_pack_take) (use l in simp)
  ultimately show ?thesis by (simp only: 3(1) 4(1) 5)
qed

lemma sc_finish_val:
  assumes "sc_inv v 13 bs s" and "b_finish bs"
  shows "le_val (sc_finish s) = v mod ed_order"
proof -
  define rs where "rs = [0 :: nat, 2, 4, 6, 8, 10, 1, 3, 5, 7, 9, 11]"
  from assms(2) obtain b1 b2 b3 b4 b5 where b: "b_rounds 13 rs bs = Some b1" "b_fold 12 b1 = Some b2" "13 \<le> length b2"
    "limb_val (take 12 b2) < 2 ^ 252" "b_floors [0..<12] (b2[12 := 0]) = Some b3" "b_fold 12 b3 = Some b4"
    "b_floors [0..<11] b4 = Some b5"
    unfolding b_finish_def upt_literals rs_def
    by (auto simp only: not_None_eq bind_eq_Some_conv split: option.splits)
  have "sc_inv v (Suc 12) b1 (fold sc_round rs s)" using sc_inv_rounds [OF assms(1) b(1)] by simp
  from sc_inv_fold [OF this b(2)] obtain S where S: "sc_fold 12 (fold sc_round rs s) = words_of S" "limb_bounds S b2"
      "limb_val (take 12 S) mod ed_order = v mod ed_order"
    unfolding sc_inv_def by (elim conjE exE) (rule that)
  define S2 where "S2 = S[12 := 0]"
  have l: "13 \<le> length S" using list_all2_lengthD [OF S(2)] b(3) by simp
  have t: "take 12 S2 = take 12 S" by (simp add: S2_def)
  have "limb_bounds (take 12 S) (take 12 b2)" by (rule list_all2_takeI [OF S(2)])
  then have "\<bar>limb_val (take 12 S)\<bar> < 2 ^ 252" by (rule order.strict_trans1 [OF radix_val_abs b(4)]) simp
  moreover have "limb_bounds S2 (b2[12 := 0])" unfolding S2_def using S(2) by (intro list_all2_update_cong) simp_all
  moreover have "13 \<le> length S2" "S2 ! 12 = 0" using l by (simp_all add: S2_def)
  ultimately have "le_val (sc_pack (fold sc_floor [0..<11] (sc_fold 12 (fold sc_floor [0..<12] (words_of S2))))) = v mod ed_order"
    using finish_steps [OF _ _ _ b(5-7), of S2] S(3) by (simp only: t simp_thms)
  moreover have "(words_of S)[12 := 0] = words_of S2" by (simp add: S2_def map_update)
  ultimately show ?thesis unfolding sc_finish_def Let_def upt_literals rs_def [symmetric] by (simp only: S(1))
qed

section \<open>Reading the digits\<close>

lemma le_val_take_drop:
  assumes "o' + k \<le> length s"
  shows "le_val (take k (drop o' s)) = le_val s div 256 ^ o' mod 256 ^ k"
proof -
  have "le_val s = le_val (take o' s) + 256 ^ o' * (le_val (take k (drop o' s)) + 256 ^ k * le_val (drop k (drop o' s)))"
    using le_val_append [of "take o' s" "drop o' s"] le_val_append [of "take k (drop o' s)" "drop k (drop o' s)"] assms
    by (simp only: append_take_drop_id length_take length_drop min_def) simp
  moreover have "0 \<le> le_val (take o' s)" "le_val (take o' s) < 256 ^ o'"
    using le_val_nonneg le_val_less [of "take o' s"] assms by simp_all
  moreover have "0 \<le> le_val (take k (drop o' s))" "le_val (take k (drop o' s)) < 256 ^ k"
    using le_val_nonneg le_val_less [of "take k (drop o' s)"] assms by simp_all
  ultimately show ?thesis by simp
qed

lemma or_shifted_word:
  assumes "0 \<le> a" and "a < 2 ^ m"
  shows "(word_of_int a :: u64) OR push_bit m (ucast (b :: byte)) = word_of_int (a + 2 ^ m * uint b)"
proof -
  have "(ucast b :: u64) = word_of_int (uint b)" by simp
  then have "(word_of_int a :: u64) OR push_bit m (ucast b) = word_of_int (a OR push_bit m (uint b))"
    by (simp only: of_int_or_eq of_int_push_bit)
  then show ?thesis by (simp only: or_shifted [OF assms])
qed

lemma uint_byte: "0 \<le> uint (b :: byte)" "uint b < 256"
  using uint_lt2p [of b] by simp_all

lemma load_3_val: "3 \<le> length s \<Longrightarrow> load_3 s = word_of_int (le_val (take 3 s))"
proof -
  assume "3 \<le> length s"
  then obtain b0 b1 b2 r where s: "s = b0 # b1 # b2 # r"
    by (metis Suc_le_length_iff numeral_3_eq_3)
  note u = uint_byte [of b0] uint_byte [of b1] uint_byte [of b2]
  have "load_3 s = (word_of_int (uint b0) OR push_bit 8 (ucast b1)) OR push_bit 16 (ucast b2)"
    by (simp add: load_3_def s eval_nat_numeral)
  also have "\<dots> = word_of_int (uint b0 + 2 ^ 8 * uint b1) OR push_bit 16 (ucast b2)"
    using u by (subst or_shifted_word) simp_all
  also have "\<dots> = word_of_int (uint b0 + 2 ^ 8 * uint b1 + 2 ^ 16 * uint b2)"
    using u by (subst or_shifted_word) simp_all
  finally show ?thesis by (simp add: s eval_nat_numeral algebra_simps)
qed

lemma load_4_val: "4 \<le> length s \<Longrightarrow> load_4 s = word_of_int (le_val (take 4 s))"
proof -
  assume a: "4 \<le> length s"
  then obtain b0 b1 b2 b3 r where s: "s = b0 # b1 # b2 # b3 # r"
    by (metis Suc_le_length_iff numeral_3_eq_3 eval_nat_numeral(2) numeral_Bit0 semiring_norm(26,27) eval_nat_numeral(3))
  note u = uint_byte [of b0] uint_byte [of b1] uint_byte [of b2]
  have "load_4 s = ((word_of_int (uint b0) OR push_bit 8 (ucast b1)) OR push_bit 16 (ucast b2)) OR push_bit 24 (ucast b3)"
    by (simp add: load_4_def s eval_nat_numeral)
  also have "\<dots> = (word_of_int (uint b0 + 2 ^ 8 * uint b1) OR push_bit 16 (ucast b2)) OR push_bit 24 (ucast b3)"
    using u by (subst or_shifted_word) simp_all
  also have "\<dots> = word_of_int (uint b0 + 2 ^ 8 * uint b1 + 2 ^ 16 * uint b2) OR push_bit 24 (ucast b3)"
    using u by (subst or_shifted_word [of _ 16]) simp_all
  also have "\<dots> = word_of_int (uint b0 + 2 ^ 8 * uint b1 + 2 ^ 16 * uint b2 + 2 ^ 24 * uint b3)"
    using u by (subst or_shifted_word) simp_all
  finally show ?thesis by (simp add: s eval_nat_numeral algebra_simps)
qed

lemma drop_bit_u64: "0 \<le> y \<Longrightarrow> y < 2 ^ 64 \<Longrightarrow> drop_bit r (word_of_int y :: u64) = word_of_int (y div 2 ^ r)"
proof (rule bit_word_eqI)
  fix n
  assume y: "0 \<le> y" "y < 2 ^ 64" and "n < LENGTH(64)"
  then have "take_bit 64 y = y" by (simp add: take_bit_int_eq_self)
  then have "bit y m \<Longrightarrow> m < 64" for m by (metis bit_take_bit_iff)
  then show "bit (drop_bit r (word_of_int y :: u64)) n = bit (word_of_int (y div 2 ^ r) :: u64) n"
    using \<open>n < LENGTH(64)\<close> unfolding drop_bit_eq_div [symmetric] by (auto simp: bit_simps)
qed

lemma and_mask_21: "2097151 AND (word_of_int y :: u64) = word_of_int (y mod 2 ^ 21)"
proof -
  have "(2097151 :: u64) = mask 21" by (simp add: mask_eq_exp_minus_1)
  then have "2097151 AND (word_of_int y :: u64) = take_bit 21 (word_of_int y)" by (simp add: take_bit_eq_mask and.commute)
  also have "\<dots> = word_of_int (take_bit 21 y)" by (rule bit_word_eqI) (auto simp: bit_simps)
  finally show ?thesis by (simp only: take_bit_eq_mod)
qed

lemma mod_div_mod_pow:
  fixes v :: int
  assumes "r + n \<le> m"
  shows "v mod 2 ^ m div 2 ^ r mod 2 ^ n = v div 2 ^ r mod 2 ^ n"
proof -
  have "drop_bit r (take_bit m v) = take_bit (m - r) (drop_bit r v)" by (rule bit_eqI) (auto simp: bit_simps)
  moreover have "take_bit n (take_bit (m - r) (drop_bit r v)) = take_bit n (drop_bit r v)" using assms by simp
  ultimately show ?thesis by (simp only: take_bit_eq_mod [symmetric] drop_bit_eq_div [symmetric])
qed

lemma pow_256: "(256 :: int) ^ k = 2 ^ (8 * k)"
  by (simp add: power_mult)

lemma load_limb:
  assumes "o' + k \<le> length s" and "8 * o' + r = 21 * i" and "r + 21 \<le> 8 * k" and "k \<le> 8"
    and "l = word_of_int (le_val (take k (drop o' s)))"
  shows "2097151 AND drop_bit r (l :: u64) = word_of_int (le_val s div (2 ^ 21) ^ i mod 2 ^ 21)"
proof -
  let ?y = "le_val s div 256 ^ o' mod 256 ^ k"
  have "(256 :: int) ^ k \<le> 256 ^ 8" by (rule power_increasing [OF assms(4)]) simp
  then have "(256 :: int) ^ k \<le> 2 ^ 64" by simp
  moreover have "0 \<le> ?y" "?y < 256 ^ k" by simp_all
  ultimately have "0 \<le> ?y" "?y < 2 ^ 64" by linarith+
  then have "2097151 AND drop_bit r l = word_of_int (?y div 2 ^ r mod 2 ^ 21)"
    by (simp only: assms(5) le_val_take_drop [OF assms(1)] drop_bit_u64 and_mask_21)
  also have "?y div 2 ^ r mod 2 ^ 21 = le_val s div 2 ^ (8 * o') div 2 ^ r mod 2 ^ 21"
    unfolding pow_256 by (rule mod_div_mod_pow [OF assms(3)])
  also have "le_val s div 2 ^ (8 * o') div 2 ^ r = le_val s div 2 ^ (8 * o' + r)" by (simp add: zdiv_zmult2_eq power_add)
  finally show ?thesis unfolding assms(2) power_mult .
qed

lemma load_top:
  assumes "o' + 4 = length s" and "8 * o' + r = 21 * i"
  shows "drop_bit r (load_4 (drop o' s)) = word_of_int (le_val s div (2 ^ 21) ^ i)"
proof -
  let ?y = "le_val s div 256 ^ o'"
  have "le_val s < 256 ^ (4 + o')" using le_val_less [of s] assms(1) by (simp add: add.commute)
  then have y: "0 \<le> ?y" "?y < 256 ^ 4"
    using div_less_pow [of "le_val s" 32 "8 * o'"] le_val_nonneg [of s]
    by (simp_all add: pos_imp_zdiv_nonneg_iff pow_256 power_add)
  have "load_4 (drop o' s) = word_of_int (?y mod 256 ^ 4)"
    using assms(1) load_4_val [of "drop o' s"] le_val_take_drop [of o' 4 s] by simp
  then have "drop_bit r (load_4 (drop o' s)) = word_of_int (?y div 2 ^ r)" using y by (simp add: drop_bit_u64)
  also have "?y div 2 ^ r = le_val s div 2 ^ (8 * o' + r)" unfolding pow_256 by (simp add: zdiv_zmult2_eq power_add)
  finally show ?thesis unfolding assms(2) power_mult .
qed

lemma sc_load_words:
  assumes "length s = 32"
  shows "sc_load s = words_of (map (\<lambda>i. le_val s div (2 ^ 21) ^ i mod 2 ^ 21) [0..<11] @ [le_val s div (2 ^ 21) ^ 11])"
proof -
  define f where "f i = (word_of_int (le_val s div (2 ^ 21) ^ i mod 2 ^ 21) :: i64)" for i
  note d3 = load_limb [where k = 3 and s = s, OF _ _ _ _ load_3_val, folded f_def] and d4 = load_limb [where k = 4 and s = s, OF _ _ _ _ load_4_val, folded f_def]
  have u3: "2097151 AND drop_bit 0 (load_3 (drop 0 s)) = f 0"
    "2097151 AND drop_bit 2 (load_3 (drop 5 s)) = f 2"
    "2097151 AND drop_bit 1 (load_3 (drop 13 s)) = f 5"
    "2097151 AND drop_bit 3 (load_3 (drop 18 s)) = f 7"
    "2097151 AND drop_bit 0 (load_3 (drop 21 s)) = f 8"
    "2097151 AND drop_bit 2 (load_3 (drop 26 s)) = f 10"
    by (rule d3, simp add: assms, simp, simp, simp, simp add: assms)+
  have u4: "2097151 AND drop_bit 5 (load_4 (drop 2 s)) = f 1"
    "2097151 AND drop_bit 7 (load_4 (drop 7 s)) = f 3"
    "2097151 AND drop_bit 4 (load_4 (drop 10 s)) = f 4"
    "2097151 AND drop_bit 6 (load_4 (drop 15 s)) = f 6"
    "2097151 AND drop_bit 5 (load_4 (drop 23 s)) = f 9"
    by (rule d4, simp add: assms, simp, simp, simp, simp add: assms)+
  have ut: "drop_bit 7 (load_4 (drop 28 s)) = word_of_int (le_val s div (2 ^ 21) ^ 11)"
    by (rule load_top) (simp_all add: assms)
  have "sc_load s = map f [0, 1, 2, 3, 4, 5, 6, 7, 8, 9, 10] @ [word_of_int (le_val s div (2 ^ 21) ^ 11)]"
    unfolding sc_load_def by (simp only: u3 [simplified drop_bit_0 drop_0 id_apply] u4 [simplified drop_bit_0 drop_0 id_apply] ut list.map append.simps)
  also have "[0, 1, 2, 3, 4, 5, 6, 7, 8, 9, 10] = [0..<11]" by (simp add: upt_rec)
  finally show ?thesis by (simp add: f_def comp_def)
qed

lemma sc_load64_words:
  assumes "length s = 64"
  shows "sc_load64 s = words_of (map (\<lambda>i. le_val s div (2 ^ 21) ^ i mod 2 ^ 21) [0..<23] @ [le_val s div (2 ^ 21) ^ 23])"
proof -
  define f where "f i = (word_of_int (le_val s div (2 ^ 21) ^ i mod 2 ^ 21) :: i64)" for i
  note d3 = load_limb [where k = 3 and s = s, OF _ _ _ _ load_3_val, folded f_def] and d4 = load_limb [where k = 4 and s = s, OF _ _ _ _ load_4_val, folded f_def]
  have u3: "2097151 AND drop_bit 0 (load_3 (drop 0 s)) = f 0"
    "2097151 AND drop_bit 2 (load_3 (drop 5 s)) = f 2"
    "2097151 AND drop_bit 1 (load_3 (drop 13 s)) = f 5"
    "2097151 AND drop_bit 3 (load_3 (drop 18 s)) = f 7"
    "2097151 AND drop_bit 0 (load_3 (drop 21 s)) = f 8"
    "2097151 AND drop_bit 2 (load_3 (drop 26 s)) = f 10"
    "2097151 AND drop_bit 1 (load_3 (drop 34 s)) = f 13"
    "2097151 AND drop_bit 3 (load_3 (drop 39 s)) = f 15"
    "2097151 AND drop_bit 0 (load_3 (drop 42 s)) = f 16"
    "2097151 AND drop_bit 2 (load_3 (drop 47 s)) = f 18"
    "2097151 AND drop_bit 1 (load_3 (drop 55 s)) = f 21"
    by (rule d3, simp add: assms, simp, simp, simp, simp add: assms)+
  have u4: "2097151 AND drop_bit 5 (load_4 (drop 2 s)) = f 1"
    "2097151 AND drop_bit 7 (load_4 (drop 7 s)) = f 3"
    "2097151 AND drop_bit 4 (load_4 (drop 10 s)) = f 4"
    "2097151 AND drop_bit 6 (load_4 (drop 15 s)) = f 6"
    "2097151 AND drop_bit 5 (load_4 (drop 23 s)) = f 9"
    "2097151 AND drop_bit 7 (load_4 (drop 28 s)) = f 11"
    "2097151 AND drop_bit 4 (load_4 (drop 31 s)) = f 12"
    "2097151 AND drop_bit 6 (load_4 (drop 36 s)) = f 14"
    "2097151 AND drop_bit 5 (load_4 (drop 44 s)) = f 17"
    "2097151 AND drop_bit 7 (load_4 (drop 49 s)) = f 19"
    "2097151 AND drop_bit 4 (load_4 (drop 52 s)) = f 20"
    "2097151 AND drop_bit 6 (load_4 (drop 57 s)) = f 22"
    by (rule d4, simp add: assms, simp, simp, simp, simp add: assms)+
  have ut: "drop_bit 3 (load_4 (drop 60 s)) = word_of_int (le_val s div (2 ^ 21) ^ 23)"
    by (rule load_top) (simp_all add: assms)
  have "sc_load64 s = map f [0, 1, 2, 3, 4, 5, 6, 7, 8, 9, 10, 11, 12, 13, 14, 15, 16, 17, 18, 19, 20, 21, 22] @ [word_of_int (le_val s div (2 ^ 21) ^ 23)]"
    unfolding sc_load64_def by (simp only: u3 [simplified drop_bit_0 drop_0 id_apply] u4 [simplified drop_bit_0 drop_0 id_apply] ut list.map append.simps)
  also have "[0, 1, 2, 3, 4, 5, 6, 7, 8, 9, 10, 11, 12, 13, 14, 15, 16, 17, 18, 19, 20, 21, 22] = [0..<23]" by (simp add: upt_rec)
  finally show ?thesis by (simp add: f_def comp_def)
qed

section \<open>The operations\<close>

definition sc_digits :: "nat \<Rightarrow> int \<Rightarrow> int list" where
  "sc_digits n v = map (\<lambda>i. v div (2 ^ 21) ^ i mod 2 ^ 21) [0..<n] @ [v div (2 ^ 21) ^ n]"

lemma sc_digits_val: "limb_val (sc_digits n v) = v"
proof -
  have "limb_val (sc_digits n v) = v mod (2 ^ 21) ^ n + (2 ^ 21) ^ n * (v div (2 ^ 21) ^ n)"
    unfolding sc_digits_def radix_val_append by (subst digits_val) simp_all
  then show ?thesis by simp
qed

lemma length_sc_digits [simp]: "length (sc_digits n v) = Suc n"
  by (simp add: sc_digits_def)

lemma sc_digits_bound:
  assumes "0 \<le> v" and "v < 2 ^ m * (2 ^ 21) ^ n" and "21 \<le> m" and "x \<in> set (sc_digits n v)"
  shows "0 \<le> x \<and> x < 2 ^ m"
proof -
  have "v div (2 ^ 21) ^ n < 2 ^ m" using assms(2) div_less_pow [of v m "21 * n"] by (simp only: power_mult)
  moreover have "0 \<le> v div (2 ^ 21) ^ n" using assms(1) by (simp add: pos_imp_zdiv_nonneg_iff)
  moreover have "(2 :: int) ^ 21 \<le> 2 ^ m" using assms(3) by (intro power_increasing) auto
  then have "y mod 2 ^ 21 < 2 ^ m" for y :: int by (rule order.strict_trans2 [rotated]) simp
  ultimately show ?thesis using assms(4) by (auto simp: sc_digits_def)
qed

lemma sc_load_digits:
  assumes "length s = 32"
  shows "sc_load s = words_of (sc_digits 11 (le_val s))" and "x \<in> set (sc_digits 11 (le_val s)) \<Longrightarrow> 0 \<le> x \<and> x < 2 ^ 25"
proof -
  show "sc_load s = words_of (sc_digits 11 (le_val s))" unfolding sc_digits_def by (rule sc_load_words [OF assms])
  have "le_val s < 2 ^ 25 * (2 ^ 21) ^ 11" using le_val_less [of s] assms by simp
  then show "x \<in> set (sc_digits 11 (le_val s)) \<Longrightarrow> 0 \<le> x \<and> x < 2 ^ 25"
    by (rule sc_digits_bound [OF le_val_nonneg]) simp_all
qed

lemma sc_load64_digits:
  assumes "length s = 64"
  shows "sc_load64 s = words_of (sc_digits 23 (le_val s))" and "x \<in> set (sc_digits 23 (le_val s)) \<Longrightarrow> 0 \<le> x \<and> x < 2 ^ 29"
proof -
  show "sc_load64 s = words_of (sc_digits 23 (le_val s))" unfolding sc_digits_def by (rule sc_load64_words [OF assms])
  have "le_val s < 2 ^ 29 * (2 ^ 21) ^ 23" using le_val_less [of s] assms by simp
  then show "x \<in> set (sc_digits 23 (le_val s)) \<Longrightarrow> 0 \<le> x \<and> x < 2 ^ 29"
    by (rule sc_digits_bound [OF le_val_nonneg]) simp_all
qed

lemma sc_inv_words:
  assumes "limb_bounds S bs" and "length bs = n"
  shows "sc_inv (limb_val S) n bs (words_of S)"
  unfolding sc_inv_def using assms list_all2_lengthD [OF assms(1)] by (intro conjI exI [of _ S]) simp_all

lemma limb_bounds_replicate: "\<forall>x \<in> set S. \<bar>x\<bar> \<le> b \<Longrightarrow> length S = n \<Longrightarrow> limb_bounds S (replicate n b)"
  by (simp add: list_all2_conv_all_nth)

text \<open>One evaluation of the bounds for each kind of input.\<close>

definition b_ok :: "int list option \<Rightarrow> bool" where
  "b_ok o' = (case o' of None \<Rightarrow> False | Some b \<Rightarrow> b_finish b)"

lemma b_finish_13: "b_finish (replicate 13 67108864)"
  by code_simp

lemma b_high_24: "b_ok (b_high (replicate 24 536870912))"
  by code_simp

abbreviation mulsub_carries :: "nat list" where
  "mulsub_carries \<equiv> [0, 2, 4, 6, 8, 10, 12, 14, 16, 18, 20, 22, 1, 3, 5, 7, 9, 11, 13, 15, 17, 19, 21]"

lemma b_mulsub_24: "b_ok (Option.bind (b_rounds 24 mulsub_carries (replicate 23 18014398509481984 @ [0])) b_high)"
  by code_simp

lemma sc_high_finish:
  assumes "sc_inv v 24 bs s" and "b_ok (b_high bs)"
  shows "le_val (sc_finish (sc_high s)) = v mod ed_order"
proof -
  from assms(2) obtain b where "b_high bs = Some b" "b_finish b" by (auto simp: b_ok_def split: option.splits)
  with assms(1) show ?thesis by (intro sc_finish_val sc_high_inv)
qed

lemma sc_finish_13:
  assumes "length S = 12" and "\<forall>x \<in> set S. \<bar>x\<bar> \<le> 67108864"
  shows "le_val (sc_finish (words_of S @ [0])) = limb_val S mod ed_order"
proof -
  have "limb_bounds (S @ [0]) (replicate 13 67108864)" using assms by (intro limb_bounds_replicate) auto
  then have "sc_inv (limb_val (S @ [0])) 13 (replicate 13 67108864) (words_of (S @ [0]))" by (rule sc_inv_words) simp
  from sc_finish_val [OF this b_finish_13] show ?thesis by (simp add: radix_val_append)
qed

lemma sc_reduce32_val:
  assumes "length s = 32"
  shows "le_val (sc_reduce32 s) = le_val s mod ed_order"
proof -
  have "\<forall>x \<in> set (sc_digits 11 (le_val s)). \<bar>x\<bar> \<le> 67108864" using sc_load_digits(2) [OF assms] by fastforce
  then show ?thesis unfolding sc_reduce32_def sc_load_digits(1) [OF assms]
    by (subst sc_finish_13) (simp, assumption, simp only: sc_digits_val)
qed

lemma map2_words: "map2 (+) (words_of A) (words_of B) = words_of (map2 (+) A B)"
    "map2 (-) (words_of A) (words_of B) = words_of (map2 (-) A B)"
  by (simp_all add: zip_map_map comp_def case_prod_beta')

lemma radix_val_map2: "length A = length B \<Longrightarrow> radix_val C (map2 (+) A B) = radix_val C A + radix_val C B"
    "length A = length B \<Longrightarrow> radix_val C (map2 (-) A B) = radix_val C A - radix_val C B"
  by (induction A B rule: list_induct2) (simp_all add: distrib_left right_diff_distrib)

lemma sc_add_val:
  assumes "length a = 32" and "length b = 32"
  shows "le_val (sc_add a b) = (le_val a + le_val b) mod ed_order"
proof -
  let ?A = "sc_digits 11 (le_val a)" and ?B = "sc_digits 11 (le_val b)"
  have "\<bar>x\<bar> \<le> 67108864" if "x \<in> set (map2 (+) ?A ?B)" for x
    using that sc_load_digits(2) [OF assms(1)] sc_load_digits(2) [OF assms(2)] by (fastforce dest: set_zip_leftD set_zip_rightD)
  then show ?thesis unfolding sc_add_def sc_load_digits(1) [OF assms(1)] sc_load_digits(1) [OF assms(2)] map2_words
    by (subst sc_finish_13) (simp_all only: radix_val_map2 length_sc_digits sc_digits_val length_map length_zip min.idem, simp_all)
qed

lemma sc_sub_val:
  assumes "length a = 32" and "length b = 32"
  shows "le_val (sc_sub a b) = (le_val a - le_val b) mod ed_order"
proof -
  let ?A = "sc_digits 11 (le_val a)" and ?B = "sc_digits 11 (le_val b)"
  have "\<bar>x\<bar> \<le> 67108864" if "x \<in> set (map2 (-) ?A ?B)" for x
    using that sc_load_digits(2) [OF assms(1)] sc_load_digits(2) [OF assms(2)] by (fastforce dest: set_zip_leftD set_zip_rightD)
  then show ?thesis unfolding sc_sub_def sc_load_digits(1) [OF assms(1)] sc_load_digits(1) [OF assms(2)] map2_words
    by (subst sc_finish_13) (simp_all only: radix_val_map2 length_sc_digits sc_digits_val length_map length_zip min.idem, simp_all)
qed

lemma sc_reduce_val:
  assumes "length s = 64"
  shows "le_val (take 32 (sc_reduce s)) = le_val s mod ed_order"
proof -
  let ?S = "sc_digits 23 (le_val s)"
  have "limb_bounds ?S (replicate 24 536870912)"
    using sc_load64_digits(2) [OF assms] by (intro limb_bounds_replicate) (fastforce, simp)
  then have "sc_inv (limb_val ?S) 24 (replicate 24 536870912) (words_of ?S)" by (rule sc_inv_words) simp
  from sc_high_finish [OF this b_high_24] show ?thesis
    unfolding sc_reduce_def by (simp add: length_sc_finish sc_load64_digits(1) [OF assms] sc_digits_val [simplified])
qed

lemma mulsub_sums_words:
  assumes "length A = 12" and "length B = 12" and "length C = 12"
  shows "sc_mulsub_sums (words_of A) (words_of B) (words_of C) = words_of (sc_mulsub_sums A B C)"
  using assms by (simp add: sc_mulsub_sums_def)

lemma list_12: "length xs = 12 \<Longrightarrow> xs = [xs ! 0, xs ! 1, xs ! 2, xs ! 3, xs ! 4, xs ! 5, xs ! 6, xs ! 7, xs ! 8, xs ! 9, xs ! 10, xs ! 11]"
  by (rule nth_equalityI) (auto simp: less_Suc_eq eval_nat_numeral)

lemma mulsub_sums_val:
  fixes B :: int
  assumes "length a = 12" and "length b = 12" and "length c = 12"
  shows "radix_val B (sc_mulsub_sums a b c) = radix_val B c - radix_val B a * radix_val B b"
proof -
  have v: "radix_val B xs = radix_val B [xs ! 0, xs ! 1, xs ! 2, xs ! 3, xs ! 4, xs ! 5, xs ! 6, xs ! 7, xs ! 8, xs ! 9, xs ! 10, xs ! 11]"
    if "length xs = 12" for xs using list_12 [OF that] by (rule arg_cong)
  show ?thesis unfolding v [OF assms(1)] v [OF assms(2)] v [OF assms(3)] sc_mulsub_sums_def radix_val.simps
    by algebra
qed

text \<open>A sum of \<open>n\<close> products of two digits.\<close>

definition digit_sum :: "nat \<Rightarrow> int \<Rightarrow> bool" where
  "digit_sum n x \<longleftrightarrow> 0 \<le> x \<and> x \<le> int n * 2 ^ 50"

lemma digit_sum_add: "digit_sum n x \<Longrightarrow> digit_sum m y \<Longrightarrow> digit_sum (n + m) (x + y)"
  by (simp add: digit_sum_def distrib_right)

lemma digit_sum_prod: "0 \<le> x \<and> x < 2 ^ 25 \<Longrightarrow> 0 \<le> y \<and> y < 2 ^ 25 \<Longrightarrow> digit_sum 1 (x * y)"
  using mult_mono [of x "2 ^ 25" y "2 ^ 25"] by (simp add: digit_sum_def)

lemma digit_sum_bound:
  assumes "digit_sum n x" and "n \<le> 12"
  shows "0 \<le> c \<and> c < 2 ^ 25 \<Longrightarrow> \<bar>c - x\<bar> \<le> 18014398509481984" and "\<bar>- x\<bar> \<le> 18014398509481984"
proof -
  have "int n * 2 ^ 50 \<le> 12 * 2 ^ 50" using assms(2) by simp
  then have "0 \<le> x" "x \<le> 13510798882111488" using assms(1) unfolding digit_sum_def by simp_all
  then show "0 \<le> c \<and> c < 2 ^ 25 \<Longrightarrow> \<bar>c - x\<bar> \<le> 18014398509481984" and "\<bar>- x\<bar> \<le> 18014398509481984" by auto
qed

lemma mulsub_sums_bounds:
  assumes "length a = 12" and "length b = 12" and "length c = 12" and "\<forall>x \<in> set a \<union> set b \<union> set c. 0 \<le> x \<and> x < (2 :: int) ^ 25"
  shows "limb_bounds (sc_mulsub_sums a b c) (replicate 23 18014398509481984 @ [0])"
proof -
  have d: "0 \<le> a ! i \<and> a ! i < 2 ^ 25" "0 \<le> b ! i \<and> b ! i < 2 ^ 25" "0 \<le> c ! i \<and> c ! i < 2 ^ 25" if "i < 12" for i
    using that assms by auto
  note p = digit_sum_prod [OF d(1,2)]
  have m: "- x * y = - (x * y)" for x y :: int by simp
  have r: "replicate 23 z @ [0] = [z, z, z, z, z, z, z, z, z, z, z, z, z, z, z, z, z, z, z, z, z, z, z, 0]" for z :: int
    by (simp add: eval_nat_numeral)
  show ?thesis unfolding sc_mulsub_sums_def r list_all2_Cons list_all2_Nil m
    by (intro conjI, (rule digit_sum_bound, (rule digit_sum_add | (rule p, simp, simp))+, simp, (rule d(3), simp)?)+) simp_all
qed

lemma b_ok_bind: "b_ok (Option.bind x f) \<Longrightarrow> \<exists>b. x = Some b \<and> b_ok (f b)"
  by (cases x) (simp_all add: b_ok_def)

lemma sc_mulsub_val:
  assumes "length a = 32" and "length b = 32" and "length c = 32"
  shows "le_val (sc_mulsub a b c) = (le_val c - le_val a * le_val b) mod ed_order"
proof -
  define S where "S = sc_mulsub_sums (sc_digits 11 (le_val a)) (sc_digits 11 (le_val b)) (sc_digits 11 (le_val c))"
  let ?bs = "replicate 23 18014398509481984 @ [0] :: int list"
  have w: "sc_mulsub_sums (sc_load a) (sc_load b) (sc_load c) = words_of S"
    unfolding S_def sc_load_digits(1) [OF assms(1)] sc_load_digits(1) [OF assms(2)] sc_load_digits(1) [OF assms(3)]
    by (rule mulsub_sums_words) simp_all
  have v: "limb_val S = le_val c - le_val a * le_val b"
    unfolding S_def by (subst mulsub_sums_val) (simp, simp, simp, simp only: sc_digits_val)
  have "limb_bounds S ?bs" unfolding S_def
    using sc_load_digits(2) [OF assms(1)] sc_load_digits(2) [OF assms(2)] sc_load_digits(2) [OF assms(3)]
    by (intro mulsub_sums_bounds) auto
  then have i: "sc_inv (le_val c - le_val a * le_val b) 24 ?bs (words_of S)" unfolding v [symmetric] by (rule sc_inv_words) simp
  from b_ok_bind [OF b_mulsub_24] obtain b1 where b: "b_rounds 24 mulsub_carries ?bs = Some b1" "b_ok (b_high b1)"
    by (elim exE conjE) (rule that)
  show ?thesis unfolding sc_mulsub_def Let_def w
    by (rule sc_high_finish [OF sc_inv_rounds [OF i b(1)] b(2)])
qed

section \<open>The range check\<close>

lemma signum_words:
  assumes "\<bar>x\<bar> < 2 ^ 63"
  shows "signum (word_of_int x) = word_of_int (sgn x)"
proof -
  have m: "- (word_of_int x :: i64) = word_of_int (- x)" "\<bar>- x\<bar> < 2 ^ 63" using assms by simp_all
  have "x div 2 ^ 63 = (if x < 0 then - 1 else 0)" if "\<bar>x\<bar> < 2 ^ 63" for x :: int
    using that by (auto intro: int_div_pos_eq [of _ _ _ "x + 2 ^ 63"])
  then have "x div 2 ^ 63 - (- x) div 2 ^ 63 = sgn x" using assms by (simp add: sgn_if)
  then have "word_of_int (x div 2 ^ 63) - word_of_int ((- x) div 2 ^ 63) = (word_of_int (sgn x) :: i64)"
    by (simp only: of_int_diff [symmetric])
  then show ?thesis unfolding signum_def m(1) signed_drop_bit_i64 [OF assms] signed_drop_bit_i64 [OF m(2)] .
qed

text \<open>The sign of a value is the sign of the value, in radix 2, of the signs of its digits.\<close>

lemma sgn_radix_step: "\<bar>x\<bar> < B \<Longrightarrow> sgn (x + B * y) = (if y = 0 then sgn x else sgn y)" for x y B :: int
proof (cases y "0 :: int" rule: linorder_cases)
  case less
  assume "\<bar>x\<bar> < B"
  then have "B * y \<le> B * - 1" using less by (intro mult_left_mono) auto
  with \<open>\<bar>x\<bar> < B\<close> less show ?thesis by auto
next
  case greater
  assume "\<bar>x\<bar> < B"
  then have "B * 1 \<le> B * y" using greater by (intro mult_left_mono) auto
  with \<open>\<bar>x\<bar> < B\<close> greater show ?thesis by auto
qed simp

lemma sgn_radix:
  assumes "\<forall>x \<in> set xs. \<bar>x\<bar> < B"
  shows "sgn (radix_val B xs) = sgn (radix_val 2 (map sgn xs))"
  using assms
proof (induction xs)
  case (Cons x xs)
  have "\<bar>sgn x\<bar> < 2" by (simp add: sgn_if)
  then have "sgn (radix_val 2 (map sgn (x # xs))) = (if radix_val 2 (map sgn xs) = 0 then sgn x else sgn (radix_val 2 (map sgn xs)))"
    by (simp add: sgn_radix_step)
  moreover have "sgn (radix_val B (x # xs)) = (if radix_val B xs = 0 then sgn x else sgn (radix_val B xs))"
    using Cons.prems by (simp add: sgn_radix_step)
  moreover have "radix_val B xs = 0 \<longleftrightarrow> radix_val 2 (map sgn xs) = 0" using Cons by (metis list.set_intros(2) sgn_eq_0_iff)
  ultimately show ?case using Cons by simp
qed simp

lemma radix_val_signs: "\<forall>x \<in> set xs. \<bar>x\<bar> \<le> 1 \<Longrightarrow> \<bar>radix_val 2 xs\<bar> < 2 ^ length xs"
  by (induction xs) auto

lemma load_4_drop: "o' + 4 \<le> length s \<Longrightarrow> load_4 (drop o' s) = word_of_int (le_val s div 256 ^ o' mod 256 ^ 4)"
  by (simp only: load_4_val length_drop le_diff_conv2 le_val_take_drop)

lemma sum_signs_words:
  "word_of_int t0 + push_bit 1 (word_of_int t1) + push_bit 2 (word_of_int t2) + push_bit 3 (word_of_int t3) +
    push_bit 4 (word_of_int t4) + push_bit 5 (word_of_int t5) + push_bit 6 (word_of_int t6) + push_bit 7 (word_of_int t7) =
    (word_of_int (radix_val 2 [t0, t1, t2, t3, t4, t5, t6, t7]) :: i64)"
  unfolding radix_val.simps push_bit_eq_mult by (simp add: algebra_simps)

lemma sc_check_words:
  fixes d :: "nat \<Rightarrow> int"
  assumes "length s = 32"
  defines "d i \<equiv> le_val s div (2 ^ 32) ^ i mod 2 ^ 32"
  defines "xs \<equiv> [1559614444 - d 0, 1477600026 - d 1, 2734136534 - d 2, 350157278 - d 3, - d 4, - d 5, - d 6, 268435456 - d 7]"
  shows "sc_check s = word_of_int (radix_val 2 (map sgn xs) div 2 ^ 8)"
proof -
  have p: "(256 :: int) ^ o' = (2 ^ 32) ^ i" if "o' = 4 * i" for o' i :: nat
  proof -
    have "(256 :: int) ^ o' = (256 ^ 4) ^ i" unfolding that by (rule power_mult)
    then show ?thesis by simp
  qed
  have l: "load_4 (drop o' s) = word_of_int (d i)" if "o' + 4 \<le> 32" "o' = 4 * i" for o' i
    unfolding d_def p [OF that(2), symmetric] using load_4_drop [of o' s] that assms(1) by simp
  have d: "0 \<le> d i" "d i < 4294967296" for i by (simp_all add: d_def)
  have b: "\<bar>c - d i\<bar> < 2 ^ 63" "\<bar>- d i\<bar> < 2 ^ 63" if "0 \<le> c" "c < 4294967296" for c i using d [of i] that by simp_all
  have g: "signum (word_of_int c - word_of_int (d i)) = word_of_int (sgn (c - d i))" if "0 \<le> c" "c < 4294967296" for c i
    using signum_words [OF b(1) [OF that]] by simp
  have z: "signum (- word_of_int (d i)) = word_of_int (sgn (- d i))" for i
    using signum_words [of "- d i"] b(2) [of 0 i] by simp
  have s: "signum (1559614444 - word_of_int (d 0)) = word_of_int (sgn (1559614444 - d 0))"
    "signum (1477600026 - word_of_int (d 1)) = word_of_int (sgn (1477600026 - d 1))"
    "signum (2734136534 - word_of_int (d 2)) = word_of_int (sgn (2734136534 - d 2))"
    "signum (350157278 - word_of_int (d 3)) = word_of_int (sgn (350157278 - d 3))"
    "signum (268435456 - word_of_int (d 7)) = word_of_int (sgn (268435456 - d 7))"
    using g [of 1559614444 0] g [of 1477600026 1] g [of 2734136534 2] g [of 350157278 3] g [of 268435456 7] by simp_all
  define T where "T = radix_val 2 (map sgn xs)"
  have "\<bar>T\<bar> < 2 ^ length (map sgn xs)" unfolding T_def by (rule radix_val_signs) (auto simp: sgn_if)
  then have T: "\<bar>T\<bar> < 2 ^ 63" by (simp add: xs_def)
  have ls: "load_4 (drop 4 s) = word_of_int (d 1)" "load_4 (drop 8 s) = word_of_int (d 2)" "load_4 (drop 12 s) = word_of_int (d 3)" "load_4 (drop 16 s) = word_of_int (d 4)" "load_4 (drop 20 s) = word_of_int (d 5)" "load_4 (drop 24 s) = word_of_int (d 6)" "load_4 (drop 28 s) = word_of_int (d 7)"
    by (rule l, simp, simp)+
  have l0: "load_4 s = word_of_int (d 0)" using l [of 0 0] by simp
  have "sc_check s = to_i32 (signed_drop_bit 8 (word_of_int T))"
    unfolding sc_check_def Let_def l0 ls s z sum_signs_words T_def xs_def list.map ..
  then have "sc_check s = word_of_int (T div 2 ^ 8)" unfolding signed_drop_bit_i64 [OF T] to_i32_of_int .
  then show ?thesis unfolding T_def .
qed

lemma sc_check_val:
  assumes "length s = 32"
  shows "sc_check s = (if le_val s < ed_order then 0 else - 1)"
proof -
  define d where "d i = le_val s div (2 ^ 32) ^ i mod 2 ^ 32" for i
  define e where "e = [1559614444, 1477600026, 2734136534, 350157278, 0, 0, 0, 268435456 :: int]"
  define xs where "xs = map2 (-) e (map d [0..<8])"
  have x: "xs = [1559614444 - d 0, 1477600026 - d 1, 2734136534 - d 2, 350157278 - d 3, - d 4, - d 5, - d 6, 268435456 - d 7]"
    by (simp add: xs_def e_def upt_rec eval_nat_numeral)
  have b: "0 \<le> d i" "d i < 4294967296" for i by (simp_all add: d_def)
  have "le_val s < (2 ^ 32) ^ 8" using le_val_less [of s] assms by simp
  then have "radix_val (2 ^ 32) (map d [0..<8]) = le_val s"
    unfolding d_def using le_val_nonneg [of s] by (subst digits_val) simp_all
  moreover have "radix_val (2 ^ 32) e = ed_order - 1" by (simp add: e_def ed_order_def)
  ultimately have v: "radix_val (2 ^ 32) xs = ed_order - 1 - le_val s" unfolding xs_def by (simp add: radix_val_map2 e_def)
  have c: "\<bar>c - d i\<bar> < 4294967296" if "0 \<le> c" "c < 4294967296" for c i using b [of i] that by linarith
  have "\<forall>x \<in> set xs. \<bar>x\<bar> < 2 ^ 32" unfolding x using b by (simp add: c)
  then have g: "sgn (ed_order - 1 - le_val s) = sgn (radix_val 2 (map sgn xs))" unfolding v [symmetric] by (rule sgn_radix)
  have "\<bar>radix_val 2 (map sgn xs)\<bar> < 2 ^ length (map sgn xs)" by (rule radix_val_signs) (auto simp: sgn_if)
  then have T: "\<bar>radix_val 2 (map sgn xs)\<bar> < 256" by (simp add: x)
  have "radix_val 2 (map sgn xs) div 2 ^ 8 = (if le_val s < ed_order then 0 else - 1)"
  proof (cases "le_val s < ed_order")
    case True
    with g have "0 \<le> radix_val 2 (map sgn xs)" by (simp add: sgn_if split: if_splits)
    with T True show ?thesis by simp
  next
    case False
    with g have "radix_val 2 (map sgn xs) < 0" by (simp add: sgn_if split: if_splits)
    with T False show ?thesis by (simp add: int_div_pos_eq [of _ _ "- 1" "radix_val 2 (map sgn xs) + 256"])
  qed
  then show ?thesis using sc_check_words [OF assms, folded d_def, folded x] by simp
qed

lemma sc_isnonzero_val: "length s = 32 \<Longrightarrow> sc_isnonzero s = (if le_val s = 0 then 0 else 1)"
  unfolding sc_isnonzero_def nonzero_test by (simp add: foldl_or_byte le_val_eq_0)

lemma sc_0_val: "le_val sc_0 = 0"
  by (simp add: sc_0_def le_val_eq_0)

section \<open>Arithmetic and range checks on scalars\<close>

lemma ed_order_pos: "0 < ed_order"
  by (simp add: ed_order_def)

lemma length_sc_ops: "length (sc_reduce32 a) = 32" "length (sc_add a b) = 32" "length (sc_sub a b) = 32" "length (sc_mulsub a b c) = 32"
  by (simp_all add: sc_reduce32_def sc_add_def sc_sub_def sc_mulsub_def Let_def length_sc_finish)

lemma le_val_replicate: "le_val (replicate n 255) = 256 ^ n - 1" "le_val (replicate n 0) = 0"
  by (induction n) simp_all

text \<open>C8. Arithmetic on scalars: for any three buffers of 32 bytes, reduced or not, reducing, adding, subtracting and
multiply-subtracting give the 32 bytes of the canonical result modulo the group order, and reducing 64 bytes does so in
the first half of the buffer and keeps the second half.\<close>

theorem scalar_arithmetic:
  assumes "length a = 32" and "length b = 32" and "length c = 32" and "length s = 64"
  shows "le_val (sc_reduce32 a) = le_val a mod ed_order \<and>
    le_val (sc_add a b) = (le_val a + le_val b) mod ed_order \<and>
    le_val (sc_sub a b) = (le_val a - le_val b) mod ed_order \<and>
    le_val (sc_mulsub a b c) = (le_val c - le_val a * le_val b) mod ed_order \<and>
    le_val (take 32 (sc_reduce s)) = le_val s mod ed_order \<and> drop 32 (sc_reduce s) = drop 32 s"
  using assms by (simp add: sc_reduce32_val sc_add_val sc_sub_val sc_mulsub_val sc_reduce_val)
    (simp add: sc_reduce_def length_sc_finish)

definition sc_one :: "byte list" where
  "sc_one = 1 # replicate 31 0"

definition sc_ones :: "byte list" where
  "sc_ones = replicate 32 255"

lemma sc_samples: "length sc_0 = 32" "length sc_one = 32" "length sc_ones = 32" "le_val sc_one = 1" "le_val sc_ones = 2 ^ 256 - 1"
  by (simp_all add: sc_0_def sc_one_def sc_ones_def le_val_replicate)

theorem scalar_arithmetic_witness:
  "le_val (sc_sub sc_0 sc_one) = ed_order - 1 \<and> le_val (sc_add sc_ones sc_ones) = 2 * (2 ^ 256 - 1) mod ed_order"
proof -
  have z: "length (sc_0 @ sc_0) = 64" by (simp add: sc_samples)
  have "le_val (sc_sub sc_0 sc_one) = (0 - 1) mod ed_order"
    using scalar_arithmetic [OF sc_samples(1,2,1) z] unfolding sc_samples sc_0_val by blast
  moreover have "le_val (sc_add sc_ones sc_ones) = 2 * (2 ^ 256 - 1) mod ed_order"
    using scalar_arithmetic [OF sc_samples(3,3,1) z] unfolding sc_samples mult_2 by blast
  moreover have "(0 - 1) mod ed_order = ed_order - 1" by (simp add: ed_order_def)
  ultimately show ?thesis by (simp only: simp_thms)
qed

text \<open>C11. The range check accepts exactly the canonical scalars: it returns 0 when the 32 bytes are below the group order
and - 1 otherwise. So it accepts what the scalar operations produce, and an accepted scalar is its own reduction.\<close>

theorem sc_check_canonical:
  assumes "length s = 32" and "length a = 32" and "length b = 32"
  shows "sc_check s = (if le_val s < ed_order then 0 else - 1) \<and> sc_check (sc_add a b) = 0 \<and> sc_check (sc_mulsub a b s) = 0 \<and>
    (sc_check s = 0 \<longleftrightarrow> le_val (sc_reduce32 s) = le_val s) \<and> (sc_isnonzero s = 0 \<longleftrightarrow> le_val s = 0)"
proof -
  have "le_val (sc_reduce32 s) = le_val s \<longleftrightarrow> le_val s < ed_order"
    unfolding sc_reduce32_val [OF assms(1)] using le_val_nonneg [of s]
    by (metis mod_pos_pos_trivial pos_mod_bound ed_order_pos)
  moreover have "le_val (sc_add a b) < ed_order" "le_val (sc_mulsub a b s) < ed_order"
    using assms ed_order_pos by (simp_all add: sc_add_val sc_mulsub_val)
  ultimately show ?thesis using assms by (simp add: sc_check_val sc_isnonzero_val length_sc_ops)
qed

theorem sc_check_canonical_witness:
  "sc_check sc_0 = 0 \<and> sc_check sc_ones = - 1 \<and> sc_isnonzero sc_0 = 0"
  using sc_check_canonical [OF sc_samples(1,1,1)] sc_check_canonical [OF sc_samples(3,1,1)]
  by (simp add: sc_samples sc_0_val ed_order_def)

end
