(* ===== verification/Spec2Isabelle.thy ===== *)
theory Spec2Isabelle
  imports Base58 Difficulty Format_Utils Hardfork Blockchain Scalars
begin

text \<open>
  \<^bold>\<open>Verification of the CitiCash node and wallet libraries.\<close>

  The library models the consensus-critical and data-format parts of the program as executable
  functions and proves their properties. Each theory models one component of the source tree; the
  names of the definitions are the names of the functions in the code.

  \<^item> \<open>Prelude\<close>: machine-word types and the arithmetic facts shared by the components.
  \<^item> \<open>Codec\<close>: the contracts of encoders as locales.
  \<^item> \<open>Int_Util\<close>: \<open>src/common/int-util.h\<close>.
  \<^item> \<open>Varint\<close>: \<open>src/common/varint.h\<close>.
  \<^item> \<open>Keccak\<close>: \<open>src/crypto/keccak.c\<close> and \<open>src/crypto/hash.c\<close>.
  \<^item> \<open>Base58\<close>: \<open>src/common/base58.cpp\<close>.
\<close>

end
